(* ===== verification/Prelude.thy ===== *)
theory Prelude
  imports Main "HOL-Library.Word" "HOL-Library.Sublist"
begin

text \<open>
  Shared vocabulary of the development: how a Go call ends, Go's byte slices and strings,
  buffers written in place, and the list and arithmetic facts the components share.

  A Go function that returns \<open>(T, error)\<close> becomes a function into \<open>('e, 'a) res\<close>:
  \<open>Ok\<close> is the nil error, \<open>Err\<close> a non-nil one, and \<open>Panic\<close> a run-time panic (an
  out-of-range slice or index, a nil dereference, an explicit \<open>panic\<close>).  Go strings and
  byte slices are sequences of bytes: text is modelled by \<open>string\<close> (whose characters are
  bytes), binary data by \<open>bytes\<close>.
\<close>

section \<open>Ways a Go call can end\<close>

datatype ('e, 'a) res = Ok 'a | Err 'e | Panic

fun res_bind :: "('e, 'a) res \<Rightarrow> ('a \<Rightarrow> ('e, 'b) res) \<Rightarrow> ('e, 'b) res" where
  "res_bind (Ok x) f = f x"
| "res_bind (Err e) f = Err e"
| "res_bind Panic f = Panic"

fun is_ok :: "('e, 'a) res \<Rightarrow> bool" where
  "is_ok (Ok _) = True"
| "is_ok _ = False"

fun map_err :: "('e \<Rightarrow> 'f) \<Rightarrow> ('e, 'a) res \<Rightarrow> ('f, 'a) res" where
  "map_err g (Ok x) = Ok x"
| "map_err g (Err e) = Err (g e)"
| "map_err g Panic = Panic"

text \<open>A loop whose body may fail, over a state, and one that collects results.\<close>

fun each :: "('a \<Rightarrow> 's \<Rightarrow> ('e, 's) res) \<Rightarrow> 'a list \<Rightarrow> 's \<Rightarrow> ('e, 's) res" where
  "each f [] s = Ok s"
| "each f (x # xs) s = res_bind (f x s) (each f xs)"

fun collect :: "('a \<Rightarrow> ('e, 'b) res) \<Rightarrow> 'a list \<Rightarrow> ('e, 'b list) res" where
  "collect f [] = Ok []"
| "collect f (x # xs) = res_bind (f x) (\<lambda>y. res_bind (collect f xs) (\<lambda>ys. Ok (y # ys)))"

lemma res_bind_cong [fundef_cong]:
  "m = m' \<Longrightarrow> (\<And>x. m' = Ok x \<Longrightarrow> f x = g x) \<Longrightarrow> res_bind m f = res_bind m' g"
  by (cases m') auto

lemma res_bind_eq_Ok [simp]:
  "res_bind m f = Ok y \<longleftrightarrow> (\<exists>x. m = Ok x \<and> f x = Ok y)"
  by (cases m) auto

lemma each_append: "each f (xs @ ys) s = res_bind (each f xs s) (each f ys)"
proof (induction xs arbitrary: s)
  case (Cons x xs)
  then show ?case by (cases "f x s") simp_all
qed simp

lemma each_unit_Ok [simp]:
  "each f xs () = Ok () \<longleftrightarrow> (\<forall>x \<in> set xs. f x () = Ok ())"
  by (induction xs) auto

lemma collect_eq_Ok:
  "collect f xs = Ok ys \<longleftrightarrow> length ys = length xs \<and> (\<forall>i < length xs. f (xs ! i) = Ok (ys ! i))"
proof (induction xs arbitrary: ys)
  case Nil
  then show ?case by auto
next
  case (Cons x xs)
  then show ?case by (cases ys) (auto simp: All_less_Suc2)
qed

lemma collect_member: "collect f xs = Ok ys \<Longrightarrow> y \<in> set ys \<Longrightarrow> \<exists>x \<in> set xs. f x = Ok y"
  by (induction xs arbitrary: ys) auto

lemma collect_all: "collect f xs = Ok ys \<Longrightarrow> x \<in> set xs \<Longrightarrow> \<exists>y \<in> set ys. f x = Ok y"
  by (induction xs arbitrary: ys) auto

lemma res_bind_eq_Panic:
  "res_bind m f = Panic \<longleftrightarrow> m = Panic \<or> (\<exists>x. m = Ok x \<and> f x = Panic)"
  by (cases m) auto

lemma map_err_eq_Ok [simp]: "map_err g m = Ok y \<longleftrightarrow> m = Ok y"
  by (cases m) auto

lemma map_err_eq_Panic [simp]: "map_err g m = Panic \<longleftrightarrow> m = Panic"
  by (cases m) auto

lemma is_ok_iff: "is_ok m \<longleftrightarrow> (\<exists>x. m = Ok x)"
  by (cases m) auto

section \<open>Bytes, slices and buffers\<close>

type_synonym byte = "8 word"
type_synonym bytes = "byte list"

definition bytes_of :: "string \<Rightarrow> bytes" where
  "bytes_of s = map of_char s"

lemma length_bytes_of [simp]: "length (bytes_of s) = length s"
  by (simp add: bytes_of_def)

definition string_of :: "bytes \<Rightarrow> string" where
  "string_of bs = map (\<lambda>b. char_of (unat b)) bs"

lemma char_of_unat_of_char [simp]: "char_of (unat (of_char c :: byte)) = c"
proof -
  have "of_char c < (256 :: nat)" by (simp add: of_char_def)
  then have "unat (of_nat (of_char c) :: byte) = of_char c" by (simp add: unat_of_nat)
  then show ?thesis by (simp add: of_nat_of_char)
qed

lemma of_char_char_of_unat [simp]: "of_char (char_of (unat (b :: byte))) = b"
proof -
  have "(of_nat (of_char (char_of (unat b) :: char)) :: byte) = of_nat (unat b mod 256)" by simp
  moreover have "unat b mod 256 = unat b" using unsigned_less [of b, where 'a = nat] by simp
  ultimately show ?thesis by (simp add: of_nat_of_char del: of_char_of)
qed

lemma string_of_bytes_of [simp]: "string_of (bytes_of s) = s"
  by (induction s) (simp_all add: string_of_def bytes_of_def)

lemma bytes_of_string_of [simp]: "bytes_of (string_of bs) = bs"
  by (induction bs) (simp_all add: string_of_def bytes_of_def)

lemma length_string_of [simp]: "length (string_of bs) = length bs"
  by (simp add: string_of_def)

text \<open>The conversion \<open>byte(n)\<close> of an integer.\<close>

definition to_byte :: "int \<Rightarrow> byte" where
  "to_byte k = word_of_int k"

lemma uint_to_byte [simp]: "0 \<le> k \<Longrightarrow> k < 256 \<Longrightarrow> uint (to_byte k) = k"
  by (simp add: to_byte_def uint_word_of_int)

lemma unat_byte_less [simp]: "unat (b :: byte) < 256"
  using unsigned_less [of b, where 'a = nat] by simp

text \<open>\<open>s[lo:hi]\<close> on a slice whose capacity is its length: out of range is a panic.\<close>

definition slice :: "'a list \<Rightarrow> nat \<Rightarrow> nat \<Rightarrow> ('e, 'a list) res" where
  "slice xs lo hi = (if lo \<le> hi \<and> hi \<le> length xs then Ok (take (hi - lo) (drop lo xs)) else Panic)"

text \<open>\<open>s[i]\<close>: out of range is a panic.\<close>

definition index :: "'a list \<Rightarrow> nat \<Rightarrow> ('e, 'a) res" where
  "index xs i = (if i < length xs then Ok (xs ! i) else Panic)"

text \<open>Overwriting part of a buffer; used only where the written bytes fit.\<close>

definition overwrite :: "'a list \<Rightarrow> nat \<Rightarrow> 'a list \<Rightarrow> 'a list" where
  "overwrite buf cur xs = take cur buf @ xs @ drop (cur + length xs) buf"

lemma slice_eq_Ok [simp]:
  "slice xs lo hi = Ok ys \<longleftrightarrow> lo \<le> hi \<and> hi \<le> length xs \<and> ys = take (hi - lo) (drop lo xs)"
  by (auto simp: slice_def)

lemma slice_middle: "slice (as @ ys @ bs) (length as) (length as + length ys) = Ok ys"
  by (simp add: slice_def)

lemma length_overwrite [simp]:
  "cur + length xs \<le> length buf \<Longrightarrow> length (overwrite buf cur xs) = length buf"
  by (simp add: overwrite_def)

lemma take_overwrite:
  "cur + length xs \<le> length buf \<Longrightarrow>
   take (cur + length xs) (overwrite buf cur xs) = take cur buf @ xs"
  by (simp add: overwrite_def)

section \<open>Transition systems\<close>

text \<open>
  Concurrent parts of the program are step relations: \<open>reach\<close> are the states that any
  interleaving of steps leads to.  A component states its invariant by interpreting
  \<open>invariant_system\<close>.
\<close>

inductive reach :: "('s \<Rightarrow> bool) \<Rightarrow> ('s \<Rightarrow> 's \<Rightarrow> bool) \<Rightarrow> 's \<Rightarrow> bool" for start step where
  reach_start [intro]: "start s \<Longrightarrow> reach start step s"
| reach_step: "reach start step s \<Longrightarrow> step s s' \<Longrightarrow> reach start step s'"

lemma reach_self: "reach ((=) s) step s"
  by (rule reach_start) simp

lemma reach_trans:
  assumes "reach start step s" and "reach ((=) s) step s'"
  shows "reach start step s'"
  using assms(2,1) by (induction rule: reach.induct) (auto intro: reach_step)

locale invariant_system =
  fixes start :: "'s \<Rightarrow> bool" and step :: "'s \<Rightarrow> 's \<Rightarrow> bool" and inv :: "'s \<Rightarrow> bool"
  assumes start_inv: "start s \<Longrightarrow> inv s"
    and step_inv: "inv s \<Longrightarrow> step s s' \<Longrightarrow> inv s'"
begin

lemma reach_inv: "reach start step s \<Longrightarrow> inv s"
  by (induction rule: reach.induct) (auto intro: start_inv step_inv)

end

section \<open>Machine integers\<close>

text \<open>The conversions \<open>uint64(n)\<close> and \<open>int64(n)\<close>: both wrap.\<close>

definition uint64 :: "int \<Rightarrow> nat" where
  "uint64 n = nat (n mod 2 ^ 64)"

definition int64 :: "int \<Rightarrow> int" where
  "int64 n = (n + 2 ^ 63) mod 2 ^ 64 - 2 ^ 63"

lemma int64_id [simp]: "- (2 ^ 63) \<le> n \<Longrightarrow> n < 2 ^ 63 \<Longrightarrow> int64 n = n"
  by (simp add: int64_def mod_pos_pos_trivial)

lemma int64_wrap: "2 ^ 63 \<le> n \<Longrightarrow> n < 2 ^ 64 + 2 ^ 63 \<Longrightarrow> int64 n = n - 2 ^ 64"
  using minus_mod_self2 [of "n + 2 ^ 63" "2 ^ 64"] mod_pos_pos_trivial [of "n + 2 ^ 63 - 2 ^ 64" "2 ^ 64"]
  by (simp add: int64_def)

lemma uint64_id [simp]: "0 \<le> n \<Longrightarrow> n < 2 ^ 64 \<Longrightarrow> uint64 n = nat n"
  by (simp add: uint64_def)

text \<open>Go's integer division truncates towards zero; a division by zero does not occur in the models.\<close>

definition go_div :: "int \<Rightarrow> int \<Rightarrow> int" where
  "go_div a b = sgn a * sgn b * (\<bar>a\<bar> div \<bar>b\<bar>)"

lemma go_div_nonneg [simp]: "0 \<le> a \<Longrightarrow> 0 < b \<Longrightarrow> go_div a b = a div b"
  by (cases "a = 0") (simp_all add: go_div_def)

section \<open>Lists\<close>

lemma concat_map_length_le:
  "(\<And>x. x \<in> set xs \<Longrightarrow> length (f x) \<le> k) \<Longrightarrow> length (concat (map f xs)) \<le> k * length xs"
proof (induction xs)
  case Nil
  then show ?case by simp
next
  case (Cons x xs)
  then have "length (f x) \<le> k" and "length (concat (map f xs)) \<le> k * length xs"
    by simp_all
  then show ?case by simp
qed

lemma drop_take_concat_nth:
  "i < length xs \<Longrightarrow>
   take (length (xs ! i)) (drop (sum_list (map length (take i xs))) (concat xs)) = xs ! i"
proof (induction xs arbitrary: i)
  case Nil
  then show ?case by simp
next
  case (Cons x xs)
  then show ?case by (cases i) simp_all
qed

lemma sum_list_take_Suc:
  fixes xs :: "nat list"
  shows "i < length xs \<Longrightarrow> sum_list (take (Suc i) xs) = sum_list (take i xs) + xs ! i"
  by (simp add: take_Suc_conv_app_nth)

lemma sum_list_take_le:
  fixes xs :: "nat list"
  shows "sum_list (take i xs) \<le> sum_list xs"
  by (metis append_take_drop_id le_add1 sum_list_append)

end
