(* ===== verification/Bytepack.thy ===== *)
theory Bytepack
  imports Prelude
begin

text \<open>
  The serialization format of \<open>src/lib/bytepack\<close>: a sequence of byte strings is stored as
  the number of elements, the length of every element, and the elements themselves, each
  integer being written as one UTF-8 encoded code point.

  The first section models the two functions of \<open>unicode/utf8\<close> the code calls and
  \<open>bytes.Runes\<close>; the second \<open>integer.go\<close> (type \<open>Uint\<close>); the third \<open>bytepack.go\<close>.
\<close>

section \<open>UTF-8\<close>

definition UTFMax :: nat where "UTFMax = 4"
definition MaxRune :: int where "MaxRune = 0x10FFFF"
definition RuneError :: int where "RuneError = 0xFFFD"

text \<open>
  \<open>utf8.EncodeRune\<close>, the bytes it stores for a rune. The argument is an \<open>int32\<close>, read as
  \<open>uint32\<close> by the function.  The bits or-ed together by the library never overlap, so
  \<open>t2 | byte(r >> 6)\<close> is written \<open>0xC0 + r div 64\<close>.
\<close>

definition enc2 :: "int \<Rightarrow> bytes" where
  "enc2 i = [to_byte (0xC0 + i div 64), to_byte (0x80 + i mod 64)]"

definition enc3 :: "int \<Rightarrow> bytes" where
  "enc3 i = [to_byte (0xE0 + i div 4096), to_byte (0x80 + i div 64 mod 64),
             to_byte (0x80 + i mod 64)]"

definition enc4 :: "int \<Rightarrow> bytes" where
  "enc4 i = [to_byte (0xF0 + i div 262144), to_byte (0x80 + i div 4096 mod 64),
             to_byte (0x80 + i div 64 mod 64), to_byte (0x80 + i mod 64)]"

definition EncodeRune :: "int \<Rightarrow> bytes" where
  "EncodeRune r =
     (let i = r mod 2 ^ 32 in
      if i \<le> 0x7F then [to_byte i]
      else if i \<le> 0x7FF then enc2 i
      else if i > MaxRune \<or> (0xD800 \<le> i \<and> i \<le> 0xDFFF) then enc3 RuneError
      else if i \<le> 0xFFFF then enc3 i
      else enc4 i)"

text \<open>
  \<open>utf8.DecodeRune\<close>: the rune and the number of bytes it took.  A malformed sequence is
  \<open>(RuneError, 1)\<close>.  \<open>first_byte\<close> is the library's table of leading bytes: the length of
  the sequence and the range the second byte has to lie in (\<open>None\<close> for a byte that starts
  no multi-byte sequence).
\<close>

definition first_byte :: "int \<Rightarrow> (nat \<times> int \<times> int) option" where
  "first_byte b =
     (if b < 0xC2 then None
      else if b \<le> 0xDF then Some (2, 0x80, 0xBF)
      else if b = 0xE0 then Some (3, 0xA0, 0xBF)
      else if b = 0xED then Some (3, 0x80, 0x9F)
      else if b \<le> 0xEF then Some (3, 0x80, 0xBF)
      else if b = 0xF0 then Some (4, 0x90, 0xBF)
      else if b \<le> 0xF3 then Some (4, 0x80, 0xBF)
      else if b = 0xF4 then Some (4, 0x80, 0x8F)
      else None)"

definition cont_byte :: "int \<Rightarrow> bool" where
  "cont_byte b \<longleftrightarrow> 0x80 \<le> b \<and> b \<le> 0xBF"

definition DecodeRune :: "bytes \<Rightarrow> int \<times> nat" where
  "DecodeRune p =
     (case map uint p of
        [] \<Rightarrow> (RuneError, 0)
      | p0 # bs \<Rightarrow>
          if p0 \<le> 0x7F then (p0, 1)
          else case first_byte p0 of
            None \<Rightarrow> (RuneError, 1)
          | Some (sz, lo, hi) \<Rightarrow>
              if length p < sz then (RuneError, 1)
              else let b1 = bs ! 0 in
                if b1 < lo \<or> hi < b1 then (RuneError, 1)
                else if sz \<le> 2 then ((p0 - 0xC0) * 64 + (b1 - 0x80), 2)
                else let b2 = bs ! 1 in
                  if \<not> cont_byte b2 then (RuneError, 1)
                  else if sz \<le> 3
                  then ((p0 - 0xE0) * 4096 + (b1 - 0x80) * 64 + (b2 - 0x80), 3)
                  else let b3 = bs ! 2 in
                    if \<not> cont_byte b3 then (RuneError, 1)
                    else ((p0 - 0xF0) * 262144 + (b1 - 0x80) * 4096 + (b2 - 0x80) * 64 + (b3 - 0x80), 4))"

lemma DecodeRune_width: "p \<noteq> [] \<Longrightarrow> 1 \<le> snd (DecodeRune p) \<and> snd (DecodeRune p) \<le> length p"
  by (cases p) (auto simp: DecodeRune_def Let_def first_byte_def Suc_le_eq split: option.splits if_splits)

text \<open>\<open>bytes.Runes\<close>\<close>

function Runes :: "bytes \<Rightarrow> int list" where
  "Runes p = (if p = [] then [] else fst (DecodeRune p) # Runes (drop (snd (DecodeRune p)) p))"
  by pat_completeness auto
termination
proof (relation "measure length")
  fix p :: bytes
  assume "p \<noteq> []"
  then show "(drop (snd (DecodeRune p)) p, p) \<in> measure length"
    using DecodeRune_width [of p] by simp
qed simp

declare Runes.simps [simp del]

section \<open>Small unsigned integers (integer.go)\<close>

text \<open>The conversion of an \<open>int\<close> to a \<open>rune\<close> (\<open>int32\<close>) keeps its low 32 bits.\<close>

definition int32 :: "int \<Rightarrow> int" where
  "int32 n = sint (word_of_int n :: 32 word)"

text \<open>\<open>(Uint).Encode\<close>: the bytes it stores; its result is their number.\<close>

definition Uint_Encode :: "int \<Rightarrow> bytes" where
  "Uint_Encode i =
     (let r = i;
          r = (if r > MaxRune then RuneError else r);
          r = (if r < 0 then RuneError else r)
      in EncodeRune r)"

definition Uint_Bytes :: "int \<Rightarrow> bytes" where
  "Uint_Bytes i = Uint_Encode i"

definition Uint_Size :: "int \<Rightarrow> nat" where
  "Uint_Size i = length (Uint_Encode i)"

section \<open>Packs (bytepack.go)\<close>

record pack =
  bp_data :: bytes
  bp_offset :: "nat list"
  bp_size :: "nat list"

datatype pack_error =
    TooShort
  | MissingSizes int int
  | SizeMismatch nat nat
  | SerializationFailed pack_error

text \<open>
  The loop of \<open>decodeHead\<close> that fills \<open>size\<close> and \<open>offset\<close>: every element starts where
  the previous one ends, the first one at the end of the header.
\<close>

fun offsets_from :: "nat \<Rightarrow> nat list \<Rightarrow> nat list" where
  "offsets_from o1 [] = []"
| "offsets_from o1 (s # ss) = o1 # offsets_from (o1 + s) ss"

definition headLayout :: "nat \<Rightarrow> int list \<Rightarrow> (pack_error, nat list \<times> nat list) res" where
  "headLayout len_encoded r =
     (let r = take (nat (r ! 0) + 1) r;
          head = sum_list (map Uint_Size r);
          size = map nat (tl r);
          offset = offsets_from head size
      in if offset = [] then Panic
         else let got = last offset + last size in
           if got \<noteq> len_encoded then Err (SizeMismatch got len_encoded)
           else Ok (size, offset))"

definition decodeHead :: "bytes \<Rightarrow> (pack_error, nat list \<times> nat list) res" where
  "decodeHead encoded =
     (let head = min UTFMax (length encoded) in
      if head = 0 then Ok ([], [])
      else let r = Runes (take head encoded) in
        if length r = 0 then Err TooShort
        else let head = min (head + UTFMax * nat (r ! 0)) (length encoded) in
          if r ! 0 = 0 then Ok ([], [])
          else let r = Runes (take head encoded) in
            if int (length r) < r ! 0 + 1 then Err (MissingSizes (r ! 0) (int (length r) - 1))
            else headLayout (length encoded) r)"

definition Wrap :: "bytes \<Rightarrow> (pack_error, pack) res" where
  "Wrap encoded =
     res_bind (decodeHead encoded) (\<lambda>(sz, off).
       Ok \<lparr>bp_data = encoded, bp_offset = off, bp_size = sz\<rparr>)"

text \<open>
  \<open>Pack\<close> writes into one preallocated buffer through a cursor.  \<open>EncodeRune\<close> panics when
  the rest of the buffer is too short; \<open>copy\<close> would silently store less.
\<close>

definition encode_into :: "int \<Rightarrow> bytes \<times> nat \<Rightarrow> (pack_error, bytes \<times> nat) res" where
  "encode_into i = (\<lambda>(buf, cur).
     let b = Uint_Encode (int32 i) in
     if cur + length b \<le> length buf then Ok (overwrite buf cur b, cur + length b) else Panic)"

definition copy_into :: "bytes \<Rightarrow> bytes \<times> nat \<Rightarrow> (pack_error, bytes \<times> nat) res" where
  "copy_into elem = (\<lambda>(buf, cur).
     if cur \<le> length buf
     then let b = take (length buf - cur) elem in Ok (overwrite buf cur b, cur + length b)
     else Panic)"

definition Pack_ceil :: "bytes list \<Rightarrow> nat" where
  "Pack_ceil input = UTFMax + sum_list (map (\<lambda>e. UTFMax + length e) input)"

definition Pack :: "bytes list \<Rightarrow> (pack_error, pack) res" where
  "Pack input =
     (let buf = replicate (Pack_ceil input) 0 in
      res_bind (encode_into (int (length input)) (buf, 0)) (\<lambda>st.
      res_bind (each (\<lambda>e. encode_into (int (length e))) input st) (\<lambda>st.
      res_bind (each copy_into input st) (\<lambda>(buf, cur).
      map_err SerializationFailed (Wrap (take cur buf))))))"

definition pack_Size :: "pack \<Rightarrow> nat" where
  "pack_Size p = length (bp_offset p)"

definition pack_Blob :: "pack \<Rightarrow> bytes" where
  "pack_Blob p = bp_data p"

definition pack_Element :: "pack \<Rightarrow> nat \<Rightarrow> (pack_error, bytes) res" where
  "pack_Element p i =
     res_bind (index (bp_offset p) i) (\<lambda>o1.
     res_bind (index (bp_size p) i) (\<lambda>s.
     slice (bp_data p) o1 (o1 + s)))"

definition pack_Unpack :: "pack \<Rightarrow> (pack_error, bytes list) res" where
  "pack_Unpack p = collect (pack_Element p) [0..<length (bp_offset p)]"

section \<open>Correctness of the UTF-8 layer\<close>

definition valid_rune :: "int \<Rightarrow> bool" where
  "valid_rune r \<longleftrightarrow> 0 \<le> r \<and> r \<le> MaxRune \<and> \<not> (0xD800 \<le> r \<and> r \<le> 0xDFFF)"

lemmas utf8_defs = EncodeRune_def DecodeRune_def first_byte_def cont_byte_def enc2_def enc3_def
  enc4_def MaxRune_def RuneError_def valid_rune_def Let_def

lemma valid_rune_cases:
  assumes v: "valid_rune r"
  obtains (one) "0 \<le> r" "r \<le> 0x7F" "EncodeRune r = [to_byte r]"
    | (two) "0x7F < r" "r \<le> 0x7FF" "EncodeRune r = enc2 r"
    | (three) "0x7FF < r" "r \<le> 0xFFFF" "\<not> (0xD800 \<le> r \<and> r \<le> 0xDFFF)" "EncodeRune r = enc3 r"
    | (four) "0xFFFF < r" "r \<le> 0x10FFFF" "EncodeRune r = enc4 r"
proof -
  have m: "r mod 4294967296 = r" using v by (simp add: valid_rune_def MaxRune_def)
  note e = EncodeRune_def MaxRune_def Let_def m
  have b: "0 \<le> r" "r \<le> 0x10FFFF" "\<not> (0xD800 \<le> r \<and> r \<le> 0xDFFF)"
    using v by (simp_all add: valid_rune_def MaxRune_def)
  consider "r \<le> 0x7F" | "0x7F < r" "r \<le> 0x7FF" | "0x7FF < r" "r \<le> 0xFFFF" | "0xFFFF < r"
    by linarith
  then show thesis
  proof cases
    case 1
    then show ?thesis using b by (intro one) (simp_all add: e)
  next
    case 2
    then show ?thesis using b by (intro two) (simp_all add: e)
  next
    case 3
    then show ?thesis using b by (intro three) (auto simp: e)
  next
    case 4
    then show ?thesis using b by (intro four) (simp_all add: e)
  qed
qed

lemma DecodeRune_two:
  assumes "2 \<le> a" "a \<le> 31" "0 \<le> b" "b \<le> 63"
  shows "DecodeRune (to_byte (0xC0 + a) # to_byte (0x80 + b) # xs) = (a * 64 + b, 2)"
  using assms by (simp add: DecodeRune_def first_byte_def Let_def)

lemma DecodeRune_three:
  assumes "0 \<le> a" "a \<le> 15" "0 \<le> b" "b \<le> 63" "0 \<le> c" "c \<le> 63"
    and "a = 0 \<longrightarrow> 32 \<le> b" "a = 13 \<longrightarrow> b \<le> 31"
  shows "DecodeRune (to_byte (0xE0 + a) # to_byte (0x80 + b) # to_byte (0x80 + c) # xs) =
    (a * 4096 + b * 64 + c, 3)"
  using assms by (auto simp: DecodeRune_def first_byte_def cont_byte_def Let_def)

lemma DecodeRune_four:
  assumes "0 \<le> a" "a \<le> 4" "0 \<le> b" "b \<le> 63" "0 \<le> c" "c \<le> 63" "0 \<le> d" "d \<le> 63"
    and "a = 0 \<longrightarrow> 16 \<le> b" "a = 4 \<longrightarrow> b \<le> 15"
  shows "DecodeRune (to_byte (0xF0 + a) # to_byte (0x80 + b) # to_byte (0x80 + c) # to_byte (0x80 + d) # xs) =
    (a * 262144 + b * 4096 + c * 64 + d, 4)"
  using assms by (auto simp: DecodeRune_def first_byte_def cont_byte_def Let_def)

text \<open>Base-64 digits of a rune.\<close>

lemma div64_div64:
  fixes r :: int
  shows "r div 4096 = r div 64 div 64" "r div 262144 = r div 64 div 64 div 64"
  by (simp_all add: zdiv_zmult2_eq [symmetric])

lemma digits64:
  fixes r :: int
  shows "r div 64 * 64 + r mod 64 = r"
    "r div 64 div 64 * 64 + r div 64 mod 64 = r div 64"
    "r div 64 div 64 div 64 * 64 + r div 64 div 64 mod 64 = r div 64 div 64"
  by (rule div_mult_mod_eq)+

lemma mod64: "0 \<le> (k::int) mod 64" "(k::int) mod 64 \<le> 63"
  by simp_all

lemma DecodeRune_EncodeRune:
  assumes "valid_rune r"
  shows "DecodeRune (EncodeRune r @ xs) = (r, length (EncodeRune r))"
  using assms
proof (cases rule: valid_rune_cases)
  case one
  then show ?thesis by (simp add: DecodeRune_def)
next
  case two
  then have "2 \<le> r div 64" "r div 64 \<le> 31" by auto
  from DecodeRune_two [OF this mod64] two show ?thesis by (simp add: enc2_def digits64(1))
next
  case three
  let ?q = "r div 64"
  have "0 \<le> ?q div 64" "?q div 64 \<le> 15" using three by auto
  moreover have "?q div 64 = 0 \<longrightarrow> 32 \<le> ?q mod 64" using three(1) digits64(2) [of r] by auto
  moreover have "?q div 64 = 13 \<longrightarrow> ?q mod 64 \<le> 31"
  proof (intro impI, rule ccontr)
    assume "?q div 64 = 13" "\<not> ?q mod 64 \<le> 31"
    then have "55296 \<le> r \<and> r \<le> 57343"
      using digits64(1,2) [of r] mod64 [of r] mod64 [of ?q] by linarith
    with three(3) show False by simp
  qed
  ultimately have "DecodeRune (enc3 r @ xs) = (?q div 64 * 4096 + ?q mod 64 * 64 + r mod 64, 3)"
    unfolding enc3_def div64_div64(1) append_Cons append_Nil
    by (intro DecodeRune_three mod64)
  moreover have "?q div 64 * 4096 + ?q mod 64 * 64 + r mod 64 = r"
    using digits64(1,2) [of r] by linarith
  ultimately show ?thesis using three(4) by (simp add: enc3_def)
next
  case four
  let ?q = "r div 64"
  let ?p = "?q div 64"
  have "0 \<le> ?p div 64" "?p div 64 \<le> 4" using four by auto
  moreover have "?p div 64 = 0 \<longrightarrow> 16 \<le> ?p mod 64" using four(1) digits64(3) [of r] by auto
  moreover have "?p div 64 = 4 \<longrightarrow> ?p mod 64 \<le> 15"
    using four(2) digits64 [of r] mod64 [of r] mod64 [of ?q] by (intro impI) linarith
  ultimately have "DecodeRune (enc4 r @ xs) =
      (?p div 64 * 262144 + ?p mod 64 * 4096 + ?q mod 64 * 64 + r mod 64, 4)"
    unfolding enc4_def div64_div64 append_Cons append_Nil
    by (intro DecodeRune_four mod64)
  moreover have "?p div 64 * 262144 + ?p mod 64 * 4096 + ?q mod 64 * 64 + r mod 64 = r"
    using digits64 [of r] by linarith
  ultimately show ?thesis using four(3) by (simp add: enc4_def)
qed

lemma length_EncodeRune: "1 \<le> length (EncodeRune r)" "length (EncodeRune r) \<le> 4"
  by (simp_all add: EncodeRune_def enc2_def enc3_def enc4_def Let_def)

lemma EncodeRune_ne [simp]: "EncodeRune r \<noteq> []"
  using length_EncodeRune(1) [of r] by auto

lemma Runes_Nil [simp]: "Runes [] = []"
  by (simp add: Runes.simps)

lemma Runes_EncodeRune: "valid_rune r \<Longrightarrow> Runes (EncodeRune r @ xs) = r # Runes xs"
  by (subst Runes.simps) (simp add: DecodeRune_EncodeRune)

lemma Runes_concat:
  "\<forall>r \<in> set rs. valid_rune r \<Longrightarrow> Runes (concat (map EncodeRune rs) @ xs) = rs @ Runes xs"
  by (induction rs) (auto simp: Runes_EncodeRune)

lemma Runes_ne: "p \<noteq> [] \<Longrightarrow> Runes p \<noteq> []"
  by (simp add: Runes.simps)

lemma DecodeRune_nonneg: "0 \<le> fst (DecodeRune p)"
  by (auto simp: DecodeRune_def first_byte_def cont_byte_def RuneError_def Let_def
      split: list.splits option.splits if_splits)

lemma Runes_nonneg: "r \<in> set (Runes p) \<Longrightarrow> 0 \<le> r"
proof (induction p rule: Runes.induct)
  case (1 p)
  then show ?case using DecodeRune_nonneg [of p] by (auto simp: Runes.simps [of p] split: if_splits)
qed

lemma Uint_Encode_valid: "valid_rune r \<Longrightarrow> Uint_Encode r = EncodeRune r"
  by (auto simp: Uint_Encode_def valid_rune_def)

lemma length_Uint_Encode: "length (Uint_Encode r) \<le> UTFMax"
  by (simp add: Uint_Encode_def length_EncodeRune(2) UTFMax_def Let_def)

section \<open>Correctness of packs\<close>

text \<open>The abstract format: what \<open>Pack\<close> is meant to produce.\<close>

definition pack_header :: "bytes list \<Rightarrow> bytes" where
  "pack_header input = concat (map (\<lambda>n. Uint_Encode (int32 (int n))) (length input # map length input))"

definition pack_format :: "bytes list \<Rightarrow> bytes" where
  "pack_format input = pack_header input @ concat input"

lemma length_pack_header: "length (pack_header input) \<le> UTFMax * (length input + 1)"
proof -
  have "length (pack_header input) \<le> UTFMax * length (length input # map length input)"
    unfolding pack_header_def by (rule concat_map_length_le) (rule length_Uint_Encode)
  then show ?thesis by simp
qed

lemma length_pack_format: "length (pack_format input) \<le> Pack_ceil input"
proof -
  have "Pack_ceil input = UTFMax * (length input + 1) + length (concat input)"
    by (induction input) (simp_all add: Pack_ceil_def length_concat algebra_simps)
  then show ?thesis using length_pack_header [of input] by (simp add: pack_format_def)
qed

text \<open>
  Writing through the cursor: as long as everything fits, the buffer up to the cursor is
  what has been written so far.
\<close>

lemma each_encode_into:
  assumes "length pre + length (concat (map (\<lambda>x. Uint_Encode (int32 (g x))) xs)) \<le> length buf"
    and "take (length pre) buf = pre"
  shows "\<exists>buf'. each (\<lambda>x. encode_into (g x)) xs (buf, length pre) =
      Ok (buf', length pre + length (concat (map (\<lambda>x. Uint_Encode (int32 (g x))) xs))) \<and>
    length buf' = length buf \<and>
    take (length pre + length (concat (map (\<lambda>x. Uint_Encode (int32 (g x))) xs))) buf' =
      pre @ concat (map (\<lambda>x. Uint_Encode (int32 (g x))) xs)"
  using assms
proof (induction xs arbitrary: pre buf)
  case Nil
  then show ?case by simp
next
  case (Cons x xs)
  let ?b = "Uint_Encode (int32 (g x))"
  let ?buf = "overwrite buf (length pre) ?b"
  have fits: "length pre + length ?b \<le> length buf" using Cons.prems by simp
  have t: "take (length (pre @ ?b)) ?buf = pre @ ?b"
    using take_overwrite [OF fits] Cons.prems(2) by simp
  have l: "length (pre @ ?b) + length (concat (map (\<lambda>x. Uint_Encode (int32 (g x))) xs)) \<le> length ?buf"
    using Cons.prems fits by simp
  from Cons.IH [OF l t] show ?case using fits
    by (auto simp: encode_into_def Let_def add.assoc)
qed

lemma each_copy_into:
  assumes "length pre + length (concat xs) \<le> length buf" and "take (length pre) buf = pre"
  shows "\<exists>buf'. each copy_into xs (buf, length pre) = Ok (buf', length pre + length (concat xs)) \<and>
    take (length pre + length (concat xs)) buf' = pre @ concat xs"
  using assms
proof (induction xs arbitrary: pre buf)
  case Nil
  then show ?case by simp
next
  case (Cons x xs)
  let ?buf = "overwrite buf (length pre) x"
  have fits: "length pre + length x \<le> length buf" using Cons.prems by simp
  have t: "take (length (pre @ x)) ?buf = pre @ x"
    using take_overwrite [OF fits] Cons.prems(2) by simp
  have l: "length (pre @ x) + length (concat xs) \<le> length ?buf"
    using Cons.prems fits by simp
  from Cons.IH [OF l t] show ?case using fits
    by (auto simp: copy_into_def Let_def add.assoc)
qed

lemma Pack_eq: "Pack input = map_err SerializationFailed (Wrap (pack_format input))"
proof -
  let ?buf = "replicate (Pack_ceil input) (0::byte)"
  let ?enc = "\<lambda>n. Uint_Encode (int32 n)"
  let ?c = "?enc (int (length input))"
  let ?ls = "concat (map (\<lambda>e. ?enc (int (length e))) input)"
  have fmt: "pack_format input = (?c @ ?ls) @ concat input"
    by (simp add: pack_format_def pack_header_def comp_def)
  have len: "length ?c + length ?ls + length (concat input) \<le> length ?buf"
    using length_pack_format [of input] unfolding fmt by simp
  let ?b1 = "overwrite ?buf 0 ?c"
  have s1: "encode_into (int (length input)) (?buf, 0) = Ok (?b1, length ?c)"
    using len by (simp add: encode_into_def Let_def)
  have l1: "length ?b1 = length ?buf" using len by simp
  have t1: "take (length ?c) ?b1 = ?c" by (simp add: overwrite_def)
  obtain b2 where s2: "each (\<lambda>e. encode_into (int (length e))) input (?b1, length ?c) =
      Ok (b2, length (?c @ ?ls))"
    and l2: "length b2 = length ?buf" and t2: "take (length (?c @ ?ls)) b2 = ?c @ ?ls"
    using each_encode_into [of ?c "\<lambda>e. int (length e)" input ?b1] len l1 t1 by auto
  obtain b3 where s3: "each copy_into input (b2, length (?c @ ?ls)) =
      Ok (b3, length (?c @ ?ls) + length (concat input))"
    and t3: "take (length (?c @ ?ls) + length (concat input)) b3 = (?c @ ?ls) @ concat input"
    using each_copy_into [of "?c @ ?ls" input b2] len l2 t2 by auto
  show ?thesis unfolding Pack_def Let_def s1 res_bind.simps s2 s3 prod.case t3 fmt ..
qed

lemma length_offsets_from [simp]: "length (offsets_from o1 ss) = length ss"
  by (induction ss arbitrary: o1) auto

lemma offsets_from_nth:
  "i < length ss \<Longrightarrow> offsets_from o1 ss ! i = o1 + sum_list (take i ss)"
proof (induction ss arbitrary: o1 i)
  case Nil
  then show ?case by simp
next
  case (Cons s ss)
  then show ?case by (cases i) (simp_all add: add.assoc)
qed

lemma offsets_from_eq_Nil [simp]: "offsets_from o1 ss = [] \<longleftrightarrow> ss = []"
  by (cases ss) auto

lemma offsets_from_last:
  "ss \<noteq> [] \<Longrightarrow> last (offsets_from o1 ss) + last ss = o1 + sum_list ss"
proof (induction ss arbitrary: o1)
  case Nil
  then show ?case by simp
next
  case (Cons s ss)
  then show ?case using Cons.IH [of "o1 + s"] by (cases "ss = []") simp_all
qed

lemma offsets_from_bound:
  assumes "i < length ss"
  shows "offsets_from o1 ss ! i + ss ! i \<le> o1 + sum_list ss"
  using sum_list_take_Suc [OF assms] sum_list_take_le [of "Suc i" ss] offsets_from_nth [OF assms, of o1]
  by simp

text \<open>Decoding looks at no more than \<open>UTFMax\<close> bytes, so a longer window reads the same count.\<close>

lemma first_byte_size: "first_byte b = Some (sz, lo, hi) \<Longrightarrow> sz \<le> UTFMax"
  by (auto simp: first_byte_def UTFMax_def split: if_splits)

lemma DecodeRune_take:
  assumes n: "UTFMax \<le> n"
  shows "DecodeRune (take n p) = DecodeRune p"
proof (cases p)
  case Nil
  then show ?thesis by simp
next
  case (Cons x xs)
  from n obtain m where m: "n = Suc m" "3 \<le> m" by (cases n) (auto simp: UTFMax_def)
  have nth: "take m (map uint xs) ! i = map uint xs ! i" if "i < 3" for i
    using that m by simp
  show ?thesis
  proof (cases "first_byte (uint x)")
    case None
    then show ?thesis using Cons m by (simp add: DecodeRune_def)
  next
    case (Some t)
    obtain sz lo hi where t: "t = (sz, lo, hi)" by (cases t)
    with Some have "sz \<le> 4" using first_byte_size by (simp add: UTFMax_def)
    with m have "length (take n p) < sz \<longleftrightarrow> length p < sz" using Cons by auto
    then show ?thesis using Cons Some t m nth
      unfolding DecodeRune_def by (simp add: take_map [symmetric] Let_def)
  qed
qed

lemma count_stable:
  assumes "e \<noteq> []"
  shows "fst (DecodeRune (take (min (min UTFMax (length e) + k) (length e)) e)) =
    fst (DecodeRune (take (min UTFMax (length e)) e))"
proof (cases "UTFMax \<le> length e")
  case True
  then show ?thesis by (simp add: DecodeRune_take)
next
  case False
  then show ?thesis by (simp add: min_def)
qed

lemma Runes_nth_0: "p \<noteq> [] \<Longrightarrow> Runes p ! 0 = fst (DecodeRune p)"
  by (subst Runes.simps) simp

text \<open>Whatever bytes \<open>decodeHead\<close> accepts, the elements it describes tile the blob.\<close>

lemma headLayout_sound:
  "headLayout n r = Ok (sz, off) \<Longrightarrow>
   \<exists>h. sz \<noteq> [] \<and> off = offsets_from h sz \<and> h + sum_list sz = n"
  using offsets_from_last by (auto simp: headLayout_def Let_def split: if_splits)

lemma decodeHead_sound:
  "decodeHead e = Ok (sz, off) \<Longrightarrow>
   sz = [] \<and> off = [] \<or> (\<exists>h. sz \<noteq> [] \<and> off = offsets_from h sz \<and> h + sum_list sz = length e)"
  using headLayout_sound by (auto simp: decodeHead_def Let_def split: if_splits)

lemma Wrap_eq_Ok:
  "Wrap e = Ok p \<longleftrightarrow> bp_data p = e \<and> decodeHead e = Ok (bp_size p, bp_offset p)"
  by (cases p) (auto simp: Wrap_def)

text \<open>The layout of a pack that \<open>Wrap\<close> returned.\<close>

definition pack_wf :: "pack \<Rightarrow> bool" where
  "pack_wf p \<longleftrightarrow> length (bp_offset p) = length (bp_size p) \<and>
     (\<forall>i < length (bp_size p). bp_offset p ! i + bp_size p ! i \<le> length (bp_data p))"

lemma Wrap_wf: "Wrap e = Ok p \<Longrightarrow> pack_wf p"
  using offsets_from_bound
  by (auto simp: Wrap_eq_Ok pack_wf_def dest!: decodeHead_sound) (metis le_trans order_refl)

lemma collect_Ok:
  "(\<And>x. x \<in> set xs \<Longrightarrow> f x = Ok (g x)) \<Longrightarrow> collect f xs = Ok (map g xs)"
  by (induction xs) auto

lemma pack_wf_Element:
  "pack_wf p \<Longrightarrow> i < pack_Size p \<Longrightarrow>
   pack_Element p i = Ok (take (bp_size p ! i) (drop (bp_offset p ! i) (bp_data p)))"
  by (auto simp: pack_Element_def pack_wf_def pack_Size_def index_def slice_def)

lemma pack_wf_Unpack:
  "pack_wf p \<Longrightarrow> pack_Unpack p =
     Ok (map (\<lambda>i. take (bp_size p ! i) (drop (bp_offset p ! i) (bp_data p))) [0..<pack_Size p])"
  using collect_Ok [of "[0..<pack_Size p]" "pack_Element p"] pack_wf_Element [of p]
  by (simp add: pack_Unpack_def pack_Size_def)

lemma tl_take_ne: "1 \<le> k \<Longrightarrow> k + 1 \<le> length r \<Longrightarrow> tl (take (k + 1) r) \<noteq> []"
  by (cases r; cases "tl r") auto

lemma headLayout_no_panic:
  assumes "1 \<le> r ! 0" "r ! 0 + 1 \<le> int (length r)"
  shows "headLayout n r \<noteq> Panic"
proof -
  have "1 \<le> nat (r ! 0)" "nat (r ! 0) + 1 \<le> length r" using assms by linarith+
  from tl_take_ne [OF this] show ?thesis by (simp add: headLayout_def Let_def)
qed

lemma decodeHead_no_panic: "decodeHead e \<noteq> Panic"
proof -
  define h1 where "h1 = min UTFMax (length e)"
  define r1 where "r1 = Runes (take h1 e)"
  define h2 where "h2 = min (h1 + UTFMax * nat (r1 ! 0)) (length e)"
  define r where "r = Runes (take h2 e)"
  have eq: "decodeHead e =
      (if h1 = 0 then Ok ([], []) else if length r1 = 0 then Err TooShort
       else if r1 ! 0 = 0 then Ok ([], [])
       else if int (length r) < r ! 0 + 1 then Err (MissingSizes (r ! 0) (int (length r) - 1))
       else headLayout (length e) r)"
    unfolding decodeHead_def Let_def h1_def [symmetric] r1_def [symmetric] h2_def [symmetric]
      r_def [symmetric] ..
  have "1 \<le> r ! 0" if "h1 \<noteq> 0" "r1 ! 0 \<noteq> 0"
  proof -
    have ne: "e \<noteq> []" "take h1 e \<noteq> []" "take h2 e \<noteq> []"
      using that(1) by (auto simp: UTFMax_def h1_def h2_def)
    have "r ! 0 = fst (DecodeRune (take h2 e))" "r1 ! 0 = fst (DecodeRune (take h1 e))"
      unfolding r_def r1_def by (rule Runes_nth_0, rule ne)+
    moreover have "fst (DecodeRune (take h2 e)) = fst (DecodeRune (take h1 e))"
      unfolding h2_def h1_def by (rule count_stable) (rule ne)
    ultimately show ?thesis using that(2) DecodeRune_nonneg [of "take h1 e"] by linarith
  qed
  then show ?thesis unfolding eq using headLayout_no_panic [of r "length e"] by simp
qed

subsection \<open>Decoding what was packed\<close>

definition packable :: "bytes list \<Rightarrow> bool" where
  "packable input \<longleftrightarrow> (\<forall>n \<in> set (length input # map length input). valid_rune (int n))"

lemma int32_id: "0 \<le> r \<Longrightarrow> r < 2 ^ 31 \<Longrightarrow> int32 r = r"
  by (simp add: int32_def sint_uint uint_word_of_int signed_take_bit_int_eq_self)

lemma int32_valid: "valid_rune r \<Longrightarrow> int32 r = r"
  by (simp add: int32_id valid_rune_def MaxRune_def)

lemma pack_header_valid:
  "packable input \<Longrightarrow>
   pack_header input = concat (map EncodeRune (map int (length input # map length input)))"
  by (simp add: pack_header_def packable_def int32_valid Uint_Encode_valid comp_def cong: map_cong)

text \<open>What \<open>decodeHead\<close> makes of a well-formed header followed by any body.\<close>

lemma decodeHead_runes:
  assumes v: "\<forall>r \<in> set (int (length rs) # rs). valid_rune r" and ne: "rs \<noteq> []"
    and e: "e = concat (map EncodeRune (int (length rs) # rs)) @ body"
    and h: "h = length (concat (map EncodeRune (int (length rs) # rs)))"
  shows "decodeHead e =
    (if h + sum_list (map nat rs) \<noteq> length e then Err (SizeMismatch (h + sum_list (map nat rs)) (length e))
     else Ok (map nat rs, offsets_from h (map nat rs)))"
proof -
  let ?c = "int (length rs)"
  define h1 where "h1 = min UTFMax (length e)"
  define h2 where "h2 = min (h1 + UTFMax * length rs) (length e)"
  have le4: "length (EncodeRune ?c) \<le> h1"
    using length_EncodeRune(2) by (simp add: e UTFMax_def h1_def)
  have "take h1 e = EncodeRune ?c @ take (h1 - length (EncodeRune ?c)) (concat (map EncodeRune rs) @ body)"
    using le4 by (simp add: e)
  with v obtain xs where r1: "Runes (take h1 e) = ?c # xs" by (auto simp: Runes_EncodeRune)
  have "h \<le> UTFMax * length (?c # rs)"
    unfolding h by (rule concat_map_length_le) (simp add: length_EncodeRune(2) UTFMax_def)
  then have "h \<le> h2" using e h by (auto simp: h2_def h1_def)
  then have "take h2 e = concat (map EncodeRune (?c # rs)) @ take (h2 - h) body"
    by (simp add: e h)
  then obtain ys where r2: "Runes (take h2 e) = (?c # rs) @ ys" using Runes_concat [OF v] by auto
  have "sum_list (map Uint_Size (?c # rs)) = h"
    using v by (simp add: Uint_Size_def Uint_Encode_valid h length_concat comp_def cong: map_cong)
  then have "headLayout (length e) ((?c # rs) @ ys) =
      (if h + sum_list (map nat rs) \<noteq> length e then Err (SizeMismatch (h + sum_list (map nat rs)) (length e))
       else Ok (map nat rs, offsets_from h (map nat rs)))"
    using ne offsets_from_last [of "map nat rs" h] by (simp add: headLayout_def Let_def)
  moreover have "decodeHead e = headLayout (length e) (Runes (take h2 e))"
  proof -
    have "0 < h1" using le4 length_EncodeRune(1) [of ?c] by linarith
    then show ?thesis unfolding decodeHead_def Let_def h1_def [symmetric]
      using r1 r2 ne by (simp add: h2_def [symmetric])
  qed
  ultimately show ?thesis using r2 by simp
qed

lemma decodeHead_format:
  assumes ok: "packable input" and ne: "input \<noteq> []"
  shows "decodeHead (pack_format input) =
    Ok (map length input, offsets_from (length (pack_header input)) (map length input))"
proof -
  let ?rs = "map int (map length input)"
  have v: "\<forall>r \<in> set (int (length ?rs) # ?rs). valid_rune r" using ok by (auto simp: packable_def)
  have "pack_header input = concat (map EncodeRune (int (length ?rs) # ?rs))"
    by (simp add: pack_header_valid [OF ok])
  with decodeHead_runes [OF v _ _ refl, of "pack_format input" "concat input"] ne
  show ?thesis by (simp add: pack_format_def length_concat comp_def)
qed

lemma decodeHead_format_Nil: "decodeHead (pack_format []) = Ok ([], [])"
proof -
  have "pack_format [] = [0]"
    by (simp add: pack_format_def pack_header_def int32_def Uint_Encode_def EncodeRune_def MaxRune_def
        RuneError_def to_byte_def)
  moreover have "Runes [0] = [0]" by (simp add: Runes.simps DecodeRune_def)
  ultimately show ?thesis by (simp add: decodeHead_def UTFMax_def Let_def)
qed

lemma pack_format_elements:
  "map (\<lambda>i. take (map length input ! i) (drop (offsets_from (length (pack_header input)) (map length input) ! i)
      (pack_format input))) [0..<length input] = input"
proof (rule nth_equalityI)
  fix i
  assume "i < length (map (\<lambda>i. take (map length input ! i) (drop (offsets_from (length (pack_header input))
      (map length input) ! i) (pack_format input))) [0..<length input])"
  then have i: "i < length input" by simp
  then have "offsets_from (length (pack_header input)) (map length input) ! i =
      length (pack_header input) + sum_list (map length (take i input))"
    by (simp add: offsets_from_nth take_map)
  with i drop_take_concat_nth [OF i] show "map (\<lambda>i. take (map length input ! i) (drop (offsets_from
      (length (pack_header input)) (map length input) ! i) (pack_format input))) [0..<length input] ! i = input ! i"
    by (simp add: pack_format_def)
qed simp

lemma Wrap_format:
  assumes "packable input"
  obtains p where "Wrap (pack_format input) = Ok p" "bp_data p = pack_format input"
    "pack_Unpack p = Ok input"
proof (cases "input = []")
  case True
  then show ?thesis
    using that [of "\<lparr>bp_data = pack_format input, bp_offset = [], bp_size = []\<rparr>"]
    by (simp add: Wrap_eq_Ok decodeHead_format_Nil pack_Unpack_def)
next
  case False
  let ?p = "\<lparr>bp_data = pack_format input,
    bp_offset = offsets_from (length (pack_header input)) (map length input), bp_size = map length input\<rparr>"
  have w: "Wrap (pack_format input) = Ok ?p"
    using decodeHead_format [OF assms False] by (simp add: Wrap_eq_Ok)
  have "pack_Unpack ?p = Ok input"
    using pack_wf_Unpack [OF Wrap_wf [OF w]] pack_format_elements [of input] by (simp add: pack_Size_def)
  with w that show ?thesis by simp
qed

text \<open>The number that is read back for a length, up to the greatest code point.\<close>

definition stored_length :: "nat \<Rightarrow> int" where
  "stored_length n = (if valid_rune (int n) then int n else RuneError)"

lemma Uint_Encode_stored:
  assumes "n \<le> 0x10FFFF"
  shows "Uint_Encode (int32 (int n)) = EncodeRune (stored_length n)"
proof -
  have i: "int32 (int n) = int n" using assms by (intro int32_id) simp_all
  show ?thesis
    unfolding i using assms
    by (auto simp: Uint_Encode_def EncodeRune_def stored_length_def valid_rune_def MaxRune_def RuneError_def)
qed

lemma stored_length_ge:
  assumes "n \<le> 0x10FFFF"
  shows "valid_rune (stored_length n)" "n \<le> nat (stored_length n)"
    "0xD800 \<le> n \<Longrightarrow> n \<le> 0xDFFF \<Longrightarrow> n < nat (stored_length n)"
  using assms by (auto simp: stored_length_def valid_rune_def MaxRune_def RuneError_def)

lemma sum_list_strict:
  "\<forall>x \<in> set xs. f x \<le> g x \<Longrightarrow> \<exists>x \<in> set xs. f x < g x \<Longrightarrow> sum_list (map f xs) < (sum_list (map g xs) :: nat)"
proof (induction xs)
  case (Cons x xs)
  have "sum_list (map f xs) \<le> sum_list (map g xs)" using Cons.prems(1) by (intro sum_list_mono) simp
  with Cons show ?case by (cases "f x < g x") fastforce+
qed simp

lemma decodeHead_surrogate:
  assumes c: "valid_rune (int (length input))" and l: "\<forall>e \<in> set input. length e \<le> 0x10FFFF"
    and s: "\<exists>e \<in> set input. 0xD800 \<le> length e \<and> length e \<le> 0xDFFF"
  shows "\<exists>g n. decodeHead (pack_format input) = Err (SizeMismatch g n)"
proof -
  let ?rs = "map (\<lambda>e. stored_length (length e)) input"
  have v: "\<forall>r \<in> set (int (length ?rs) # ?rs). valid_rune r" using c l stored_length_ge(1) by auto
  have ne: "?rs \<noteq> []" using s by auto
  have "map (\<lambda>e. Uint_Encode (int32 (int (length e)))) input = map (\<lambda>e. EncodeRune (stored_length (length e))) input"
    using l by (simp add: Uint_Encode_stored)
  note m = this
  have h: "pack_header input = concat (map EncodeRune (int (length ?rs) # ?rs))"
    using c by (simp add: pack_header_def comp_def int32_valid Uint_Encode_valid m del: map_eq_conv)
  then have f: "pack_format input = concat (map EncodeRune (int (length ?rs) # ?rs)) @ concat input"
    by (simp add: pack_format_def)
  have "sum_list (map length input) < sum_list (map (\<lambda>e. nat (stored_length (length e))) input)"
    using l s stored_length_ge by (intro sum_list_strict) blast+
  then show ?thesis
    using decodeHead_runes [OF v ne f refl] by (simp add: f length_concat comp_def)
qed

lemma concat_elements:
  "h + sum_list ss \<le> length e \<Longrightarrow>
   concat (map (\<lambda>i. take (ss ! i) (drop (offsets_from h ss ! i) e)) [0..<length ss]) =
   take (sum_list ss) (drop h e)"
proof (induction ss arbitrary: h)
  case Nil
  then show ?case by simp
next
  case (Cons s ss)
  have "concat (map (\<lambda>i. take ((s # ss) ! i) (drop (offsets_from h (s # ss) ! i) e)) [0..<length (s # ss)]) =
      take s (drop h e) @ concat (map (\<lambda>i. take (ss ! i) (drop (offsets_from (h + s) ss ! i) e)) [0..<length ss])"
    by (simp add: upt_rec [of 0] map_Suc_upt [symmetric] comp_def del: upt_Suc)
  also have "\<dots> = take s (drop h e) @ take (sum_list ss) (drop s (drop h e))"
    using Cons by (simp add: add.commute)
  finally show ?case by (simp add: take_add)
qed

section \<open>Properties\<close>

text \<open>
  C5. Packing then unpacking is the identity: whenever the number of elements and the length
  of every element can be written as one code point, \<open>Pack\<close> succeeds, wrapping the blob it
  produced gives the same pack, and unpacking that pack gives the elements back.
\<close>

theorem pack_roundtrip:
  assumes "packable input"
  shows "\<exists>p. Pack input = Ok p \<and> Wrap (pack_Blob p) = Ok p \<and> pack_Unpack p = Ok input"
proof -
  obtain p where p: "Wrap (pack_format input) = Ok p" "bp_data p = pack_format input"
    "pack_Unpack p = Ok input"
    using Wrap_format [OF assms] by blast
  then have "Pack input = Ok p" by (simp add: Pack_eq)
  with p show ?thesis by (auto simp: pack_Blob_def)
qed

theorem pack_roundtrip_witness:
  "packable [[1, 2, 3], [], [255]] \<and>
   (\<exists>p. Pack [[1, 2, 3], [], [255]] = Ok p \<and> Wrap (pack_Blob p) = Ok p \<and>
        pack_Unpack p = Ok [[1, 2, 3], [], [255]])"
proof -
  have h: "packable [[1, 2, 3], [], [255]]" by (simp add: packable_def valid_rune_def MaxRune_def)
  show ?thesis using h pack_roundtrip [OF h] by simp
qed

text \<open>
  C17. Whatever blob \<open>Wrap\<close> accepts, all its elements can be read without an out-of-range
  access, there are \<open>Size\<close> many of them, and unless there are none they tile the blob from
  the end of the header to its last byte.
\<close>

theorem wrap_elements_in_bounds:
  assumes w: "Wrap e = Ok p"
  shows "\<exists>es. pack_Unpack p = Ok es \<and> length es = pack_Size p \<and>
    (pack_Size p = 0 \<or> (\<exists>header. e = header @ concat es))"
proof -
  let ?es = "map (\<lambda>i. take (bp_size p ! i) (drop (bp_offset p ! i) (bp_data p))) [0..<pack_Size p]"
  have u: "pack_Unpack p = Ok ?es" by (rule pack_wf_Unpack [OF Wrap_wf [OF w]])
  from w have d: "bp_data p = e" "decodeHead e = Ok (bp_size p, bp_offset p)" by (auto simp: Wrap_eq_Ok)
  have "pack_Size p = 0 \<or> (\<exists>header. e = header @ concat ?es)"
    using decodeHead_sound [OF d(2)]
  proof (elim disjE exE conjE)
    fix h
    assume off: "bp_offset p = offsets_from h (bp_size p)" and len: "h + sum_list (bp_size p) = length e"
    then have "concat ?es = drop h e"
      using concat_elements [of h "bp_size p" e] d(1) by (simp add: pack_Size_def)
    then have "e = take h e @ concat ?es" by simp
    then show ?thesis by blast
  qed (simp add: pack_Size_def)
  with u show ?thesis by (intro exI [of _ ?es]) simp
qed

theorem wrap_elements_in_bounds_witness:
  "\<exists>p. Wrap [1, 2, 7, 8] = Ok p \<and>
    (\<exists>es. pack_Unpack p = Ok es \<and> length es = pack_Size p \<and>
      (pack_Size p = 0 \<or> (\<exists>header. [1, 2, 7, 8] = header @ concat es)))"
proof -
  have "Runes [1, 2, 7, 8] = [1, 2, 7, 8]" by (simp add: Runes.simps DecodeRune_def)
  then have "Wrap [1, 2, 7, 8] = Ok \<lparr>bp_data = [1, 2, 7, 8], bp_offset = [2], bp_size = [2]\<rparr>"
    by (simp add: Wrap_def decodeHead_def headLayout_def Let_def UTFMax_def Uint_Size_def Uint_Encode_def
        EncodeRune_def MaxRune_def RuneError_def)
  from this wrap_elements_in_bounds [OF this] show ?thesis by blast
qed

text \<open>
  C19. \<open>Pack\<close> and \<open>Wrap\<close> never panic, on any input: the preallocated buffer is always large
  enough for what is encoded into it, and it holds exactly the format's header followed by
  the elements.
\<close>

theorem pack_never_panics:
  "Pack input \<noteq> Panic \<and> Wrap e \<noteq> Panic \<and> length (pack_format input) \<le> Pack_ceil input"
proof -
  have w: "Wrap x \<noteq> Panic" for x
    using decodeHead_no_panic [of x] by (auto simp: Wrap_def res_bind_eq_Panic)
  then show ?thesis by (simp add: Pack_eq length_pack_format)
qed

text \<open>
  C20. A sequence with an element whose length is a surrogate code point (0xD800 to 0xDFFF bytes)
  cannot be packed: the length is stored as U+FFFD and \<open>Pack\<close> reports the size mismatch.  The number
  of elements is a code point of its own, and no element is longer than the greatest code point:
  such an element is stored as U+FFFD too, and the differences could cancel.
\<close>

theorem pack_surrogate_length_fails:
  assumes "valid_rune (int (length input))" "\<forall>e \<in> set input. length e \<le> 0x10FFFF"
    and "\<exists>e \<in> set input. 0xD800 \<le> length e \<and> length e \<le> 0xDFFF"
  shows "\<exists>g n. Pack input = Err (SerializationFailed (SizeMismatch g n))"
proof -
  obtain g n where "decodeHead (pack_format input) = Err (SizeMismatch g n)"
    using decodeHead_surrogate [OF assms] by blast
  then show ?thesis by (simp add: Pack_eq Wrap_def)
qed

theorem pack_surrogate_length_fails_witness:
  "\<exists>g n. Pack [[1, 2], replicate 55296 0, []] = Err (SerializationFailed (SizeMismatch g n))"
  by (rule pack_surrogate_length_fails) (simp_all add: valid_rune_def MaxRune_def)

end
