(* ===== verification/Binary.thy ===== *)
theory Binary
  imports Prelude
begin

text \<open>
  Fixed-width integers in binary formats (Go's \<open>encoding/binary\<close>) and the byte strings of
  \<open>math/big\<close>.  The two byte orders are instances of one interface, whose lemmas are used by the
  chunk map header, the NBD protocol and the verity superblock.
\<close>

section \<open>Byte orders\<close>

primrec le_put :: "nat \<Rightarrow> nat \<Rightarrow> bytes" where
  "le_put 0 n = []"
| "le_put (Suc w) n = of_nat (n mod 256) # le_put w (n div 256)"

primrec le_get :: "bytes \<Rightarrow> nat" where
  "le_get [] = 0"
| "le_get (b # bs) = unat b + 256 * le_get bs"

definition be_put :: "nat \<Rightarrow> nat \<Rightarrow> bytes" where
  "be_put w n = rev (le_put w n)"

definition be_get :: "bytes \<Rightarrow> nat" where
  "be_get bs = le_get (rev bs)"

text \<open>
  The interface: \<open>put w n\<close> is the \<open>w\<close>-byte representation of \<open>n\<close>, truncated to that width
  as Go's conversions do; \<open>get\<close> reads it back.
\<close>

locale byte_order =
  fixes put :: "nat \<Rightarrow> nat \<Rightarrow> bytes" and get :: "bytes \<Rightarrow> nat"
  assumes length_put [simp]: "length (put w n) = w"
    and get_put: "get (put w n) = n mod 256 ^ w"
    and put_get: "put (length bs) (get bs) = bs"
    and get_less: "get bs < 256 ^ length bs"
begin

lemma get_put_id: "n < 256 ^ w \<Longrightarrow> get (put w n) = n"
  by (simp add: get_put)

lemma get_take: "n < 256 ^ w \<Longrightarrow> get (take w (put w n @ rest)) = n"
  by (simp add: get_put)

lemma get_field:
  "n < 256 ^ w \<Longrightarrow> length before = k \<Longrightarrow> get (take w (drop k (before @ put w n @ rest))) = n"
  by (auto simp: get_put)

lemma put_inject: "m < 256 ^ w \<Longrightarrow> n < 256 ^ w \<Longrightarrow> put w m = put w n \<Longrightarrow> m = n"
  by (metis get_put_id)

end

lemma unat_byte_of_nat: "unat (of_nat (n mod 256) :: byte) = n mod 256"
  by (simp add: unat_of_nat)

lemma length_le_put [simp]: "length (le_put w n) = w"
  by (induction w arbitrary: n) simp_all

lemma le_get_put: "le_get (le_put w n) = n mod 256 ^ w"
  by (induction w arbitrary: n) (simp_all add: unat_byte_of_nat mod_mult2_eq del: of_nat_mod)

lemma le_get_less: "le_get bs < 256 ^ length bs"
proof (induction bs)
  case Nil
  then show ?case by simp
next
  case (Cons b bs)
  have "unat b + 256 * x < 256 * y" if "x < y" for x y using unat_byte_less [of b] that by linarith
  with Cons show ?case by simp
qed

lemma le_put_get: "le_put (length bs) (le_get bs) = bs"
proof (induction bs)
  case Nil
  then show ?case by simp
next
  case (Cons b bs)
  have b: "unat b < 256" by simp
  have "(unat b + 256 * le_get bs) mod 256 = unat b" "(unat b + 256 * le_get bs) div 256 = le_get bs"
    using b by simp_all
  with Cons show ?case by (simp del: of_nat_mod)
qed

interpretation le: byte_order le_put le_get
  by unfold_locales (simp_all add: le_get_put le_put_get le_get_less)

interpretation be: byte_order be_put be_get
  by unfold_locales
     (use le_put_get [of "rev bs" for bs] le_get_less [of "rev bs" for bs] in
       \<open>simp_all add: be_put_def be_get_def le_get_put rev_swap\<close>)

section \<open>Natural numbers as byte strings (math/big)\<close>

text \<open>\<open>(*big.Int).Bytes\<close>: big-endian, without leading zeros; \<open>SetBytes\<close> is \<open>be_get\<close>.\<close>

fun big_le :: "nat \<Rightarrow> bytes" where
  "big_le n = (if n = 0 then [] else of_nat (n mod 256) # big_le (n div 256))"

declare big_le.simps [simp del]

definition big_Bytes :: "nat \<Rightarrow> bytes" where
  "big_Bytes n = rev (big_le n)"

definition big_SetBytes :: "bytes \<Rightarrow> nat" where
  "big_SetBytes bs = be_get bs"

lemma le_get_big_le: "le_get (big_le n) = n"
proof (induction n rule: big_le.induct)
  case (1 n)
  then show ?case by (subst big_le.simps) (simp add: unat_byte_of_nat del: of_nat_mod)
qed

lemma big_SetBytes_Bytes [simp]: "big_SetBytes (big_Bytes n) = n"
  by (simp add: big_SetBytes_def big_Bytes_def be_get_def le_get_big_le)

lemma length_big_Bytes: "n < 256 ^ k \<Longrightarrow> length (big_Bytes n) \<le> k"
proof (induction k arbitrary: n)
  case 0
  then show ?case by (simp add: big_Bytes_def big_le.simps)
next
  case (Suc k)
  show ?case
  proof (cases "n = 0")
    case True
    then show ?thesis by (simp add: big_Bytes_def big_le.simps)
  next
    case False
    have "n div 256 < 256 ^ k" using Suc.prems by (simp add: less_mult_imp_div_less mult.commute)
    from Suc.IH [OF this] False show ?thesis by (simp add: big_Bytes_def big_le.simps [of n])
  qed
qed

text \<open>\<open>(*big.Int).BitLen\<close>\<close>

fun BitLen :: "nat \<Rightarrow> nat" where
  "BitLen n = (if n = 0 then 0 else Suc (BitLen (n div 2)))"

declare BitLen.simps [simp del]

lemma bit_less_BitLen: "bit n i \<Longrightarrow> i < BitLen n"
proof (induction n arbitrary: i rule: BitLen.induct)
  case (1 n)
  from "1.prems" have "n \<noteq> 0" by (cases "n = 0") simp_all
  with 1 show ?case by (subst BitLen.simps) (cases i; auto simp: bit_Suc)
qed

lemma less_BitLen: "n < 2 ^ BitLen n"
proof (induction n rule: BitLen.induct)
  case (1 n)
  show ?case
  proof (cases "n = 0")
    case False
    with 1 have "n div 2 < 2 ^ BitLen (n div 2)" by simp
    then have "n < 2 ^ Suc (BitLen (n div 2))" by simp
    with False show ?thesis by (subst BitLen.simps) simp
  qed simp
qed

end
