(* ===== verification/Chunkmap.thy ===== *)
theory Chunkmap
  imports Binary
begin

text \<open>
  The availability map of the S3 cache (\<open>src/nbd/s3/chunk.go\<close>): which chunks of the remote
  object are in the local file, who waits for them, and how the map is saved and opened.

  The bitmap is a \<open>big.Int\<close>, here a natural number read bit by bit.  A Go channel that is only
  ever closed is a number; \<open>cm_closed\<close> lists the channels that have been closed, and channel 0
  is the package variable \<open>closed\<close>.  The mutexes make every operation atomic.
\<close>

section \<open>Chunks\<close>

definition chunkSize :: int where "chunkSize = 8 * 2 ^ 20"
definition chunkVersion :: string where "chunkVersion = ''ChunkMapV02''"

lemma chunkSize_pos [simp]: "0 < chunkSize" by (simp add: chunkSize_def)

type_synonym chunk = int

record chunkMap =
  cm_path :: string
  cm_size :: nat
  cm_bitmap :: nat
  cm_running :: "chunk \<Rightarrow> nat option"
  cm_chans :: nat
  cm_closed :: "nat list"
  cm_modified :: int
  cm_saved :: int

datatype chunk_error = HeaderError | InvalidVersion bytes | TooLarge int

definition Offset :: "chunkMap \<Rightarrow> chunk \<Rightarrow> int \<times> int" where
  "Offset m c =
     (let size = chunkSize;
          offset = int64 (size * c);
          total = int64 (int (cm_size m))
      in if offset > total \<or> offset < 0 then (0, 0)
         else if int64 (offset + size) > total then (offset, total - offset)
         else (offset, size))"

section \<open>Operations\<close>

text \<open>\<open>big.Int\<close> panics on a negative bit index.\<close>

definition Done :: "int \<Rightarrow> chunk \<Rightarrow> chunkMap \<Rightarrow> (chunk_error, chunkMap) res" where
  "Done now c m =
     (if c < 0 then Panic
      else let m = m\<lparr>cm_bitmap := set_bit (nat c) (cm_bitmap m)\<rparr>;
               m = (case cm_running m c of
                      Some ch \<Rightarrow> m\<lparr>cm_closed := ch # cm_closed m, cm_running := (cm_running m)(c := None)\<rparr>
                    | None \<Rightarrow> m)
           in Ok (m\<lparr>cm_modified := now\<rparr>))"

definition Lost :: "int \<Rightarrow> chunk \<Rightarrow> chunkMap \<Rightarrow> (chunk_error, chunkMap) res" where
  "Lost now c m =
     (if c < 0 then Panic
      else Ok (m\<lparr>cm_bitmap := unset_bit (nat c) (cm_bitmap m), cm_modified := now\<rparr>))"

text \<open>\<open>Check\<close>: the channel to wait on, and whether the chunk is there.\<close>

definition chunk_check :: "chunk \<Rightarrow> chunkMap \<Rightarrow> (chunk_error, (nat \<times> bool) \<times> chunkMap) res" where
  "chunk_check c m =
     (if snd (Offset m c) = 0 then Ok ((0, True), m)
      else if c < 0 then Panic
      else if bit (cm_bitmap m) (nat c) then Ok ((0, True), m)
      else case cm_running m c of
          Some ch \<Rightarrow> Ok ((ch, False), m)
        | None \<Rightarrow> Ok ((cm_chans m, False),
            m\<lparr>cm_running := (cm_running m)(c := Some (cm_chans m)), cm_chans := Suc (cm_chans m)\<rparr>))"

function After_loop :: "nat \<Rightarrow> chunk \<Rightarrow> (chunk_error, chunk option) res" where
  "After_loop bitmap next =
     (if next < int (BitLen bitmap)
      then if next < 0 then Panic
        else if bit bitmap (nat next) then Ok (Some next)
        else After_loop bitmap (next + 1)
      else Ok None)"
  by pat_completeness auto
termination
  by (relation "measure (\<lambda>(bitmap, next). nat (int (BitLen bitmap) - next))") auto

declare After_loop.simps [simp del]

definition After :: "chunk \<Rightarrow> chunkMap \<Rightarrow> (chunk_error, chunk option) res" where
  "After current m = After_loop (cm_bitmap m) (current + 1)"

section \<open>Persistence\<close>

definition header_size :: nat where "header_size = 16 + 8 + 8"

definition export_header :: "chunkMap \<Rightarrow> bytes" where
  "export_header m =
     overwrite (replicate 16 0) 0 (take 16 (bytes_of chunkVersion)) @
     be_put 8 (nat chunkSize) @ be_put 8 (cm_size m)"

text \<open>
  \<open>openChunkMap\<close> on the content of the file (a file that did not exist is created empty).
\<close>

definition fresh_map :: "string \<Rightarrow> int \<Rightarrow> chunkMap" where
  "fresh_map path sz =
     \<lparr>cm_path = path, cm_size = uint64 sz, cm_bitmap = 0, cm_running = Map.empty, cm_chans = 1,
      cm_closed = [0], cm_modified = 0, cm_saved = 0\<rparr>"

definition safeChunkByteCeiling :: int where "safeChunkByteCeiling = 10 * 2 ^ 20 div 8"

definition openChunkMap :: "int \<Rightarrow> string \<Rightarrow> bytes \<Rightarrow> int \<Rightarrow> (chunk_error, chunkMap) res" where
  "openChunkMap now path file sz =
     (let c = fresh_map path sz in
      if length file < header_size then (if length file = 0 then Ok c else Err HeaderError)
      else
        let version = take 16 file;
            ChunkSize = be_get (take 8 (drop 16 file));
            TotalSize = be_get (take 8 (drop 24 file));
            prefixLen = 9
        in if length version < prefixLen \<or> take prefixLen version \<noteq> bytes_of (take prefixLen chunkVersion)
           then Err (InvalidVersion version)
           else if take (length chunkVersion) version \<noteq> bytes_of chunkVersion then Ok c
           else if int ChunkSize \<noteq> chunkSize \<or> TotalSize \<noteq> cm_size c then Ok c
           else
             let chunkByteCount = int (length file) - int header_size in
             if chunkByteCount > go_div (go_div sz chunkSize) 8 + 1 \<or> chunkByteCount > safeChunkByteCeiling
             then Err (TooLarge (int (length file)))
             else Ok (c\<lparr>cm_bitmap := big_SetBytes (drop header_size file), cm_saved := now\<rparr>))"

text \<open>
  \<open>Save\<close> on a file system; \<open>fails\<close> tells which of its system calls fail, \<open>temp\<close> is the name
  \<open>os.CreateTemp\<close> picks.  The deferred \<open>os.Remove\<close> runs on every way out; it is taken
  to succeed (if it fails, the temporary file stays behind, its error is ignored).
\<close>

type_synonym file_system = "string \<Rightarrow> bytes option"

datatype save_step = CreateTemp | WriteHeader | WriteBitmap | SyncTemp | CloseTemp | RenameTemp

definition chunkMap_Save ::
    "(save_step \<Rightarrow> bool) \<Rightarrow> string \<Rightarrow> int \<Rightarrow> chunkMap \<Rightarrow> file_system \<Rightarrow> (save_step, chunkMap) res \<times> file_system" where
  "chunkMap_Save fails temp now m fs =
     (if fails CreateTemp then (Err CreateTemp, fs)
      else if min 16 (length chunkVersion) < length chunkVersion then (Panic, fs(temp := None))
      else if fails WriteHeader then (Err WriteHeader, fs(temp := None))
      else let fs = fs(temp \<mapsto> export_header m) in
        if fails WriteBitmap then (Err WriteBitmap, fs(temp := None))
        else let fs = fs(temp \<mapsto> export_header m @ big_Bytes (cm_bitmap m)) in
          if fails SyncTemp then (Err SyncTemp, fs(temp := None))
          else if fails CloseTemp then (Err CloseTemp, fs(temp := None))
          else if fails RenameTemp then (Err RenameTemp, fs(temp := None))
          else let fs = fs(cm_path m := fs temp, temp := None)
            in (Ok (m\<lparr>cm_saved := now\<rparr>), fs(temp := None)))"

text \<open>The two conditions under which \<open>AutoSave\<close> skips a round; times in nanoseconds.\<close>

definition autoSaveInterval :: int where "autoSaveInterval = 9 * 60 * 1000000000"

definition autosave_skips :: "int \<Rightarrow> chunkMap \<Rightarrow> bool" where
  "autosave_skips now m \<longleftrightarrow>
     cm_saved m > cm_modified m \<or>
     cm_modified m + autoSaveInterval div 4 > now \<and> cm_modified m - cm_saved m < autoSaveInterval"

section \<open>Offsets\<close>

lemma Offset_eq:
  assumes "cm_size m < 2 ^ 62" and "0 \<le> c" and "c < 2 ^ 40"
  shows "Offset m c =
    (if c * chunkSize > int (cm_size m) then (0, 0)
     else (c * chunkSize, min chunkSize (int (cm_size m) - c * chunkSize)))"
proof -
  have sz: "int (cm_size m) < 2 ^ 62" using assms(1) by simp
  have pos: "0 \<le> chunkSize * c" "chunkSize * c < 2 ^ 63" using assms(2,3) by (simp_all add: chunkSize_def)
  with sz have i: "int64 (chunkSize * c) = chunkSize * c" "int64 (int (cm_size m)) = int (cm_size m)"
    by (auto intro!: int64_id)
  show ?thesis
  proof (cases "chunkSize * c > int (cm_size m)")
    case True
    with i show ?thesis by (simp add: Offset_def Let_def mult.commute)
  next
    case False
    with sz pos have "int64 (chunkSize * c + chunkSize) = chunkSize * c + chunkSize"
      by (auto intro!: int64_id simp: chunkSize_def)
    with False i pos show ?thesis by (auto simp: Offset_def Let_def mult.commute min_def)
  qed
qed

lemma Offset_negative: "- (2 ^ 40) \<le> c \<Longrightarrow> c < 0 \<Longrightarrow> Offset m c = (0, 0)"
  by (simp add: Offset_def Let_def chunkSize_def)

lemma Offset_nonempty:
  assumes "cm_size m < 2 ^ 62" and "0 \<le> c" and "c < 2 ^ 40"
  shows "snd (Offset m c) \<noteq> 0 \<longleftrightarrow> c * chunkSize < int (cm_size m)"
  unfolding Offset_eq [OF assms] by (auto simp: chunkSize_def min_def split: if_splits)

section \<open>The bitmap\<close>

lemma bit_Done:
  "Done now c m = Ok m' \<Longrightarrow> bit (cm_bitmap m') i \<longleftrightarrow> bit (cm_bitmap m) i \<or> i = nat c"
  by (auto simp: Done_def Let_def bit_set_bit_iff split: if_splits option.splits)

lemma bit_Lost:
  "Lost now c m = Ok m' \<Longrightarrow> bit (cm_bitmap m') i \<longleftrightarrow> bit (cm_bitmap m) i \<and> i \<noteq> nat c"
  by (auto simp: Lost_def bit_unset_bit_iff split: if_splits)

lemma After_loop_Ok:
  assumes "0 \<le> c"
  shows "(\<forall>n. After_loop b c = Ok (Some n) \<longleftrightarrow> c \<le> n \<and> bit b (nat n) \<and> (\<forall>k. c \<le> k \<and> k < n \<longrightarrow> \<not> bit b (nat k))) \<and>
    (After_loop b c = Ok None \<longleftrightarrow> (\<forall>k\<ge>c. \<not> bit b (nat k)))"
  using assms
proof (induction b c rule: After_loop.induct)
  case (1 b c)
  show ?case
  proof (cases "c < int (BitLen b)")
    case False
    have none: "\<not> bit b (nat k)" if "c \<le> k" for k
      using bit_less_BitLen [of b "nat k"] that False "1.prems" by auto
    with False show ?thesis by (subst (1 2) After_loop.simps) auto
  next
    case True
    show ?thesis
    proof (cases "bit b (nat c)")
      case True
      with \<open>c < int (BitLen b)\<close> "1.prems" show ?thesis
        by (subst (1 2) After_loop.simps) (auto intro: order.antisym simp: not_less [symmetric])
    next
      case False
      have step: "(\<forall>k. c + 1 \<le> k \<and> P k \<longrightarrow> \<not> bit b (nat k)) \<longleftrightarrow> (\<forall>k. c \<le> k \<and> P k \<longrightarrow> \<not> bit b (nat k))" for P
        using False by (metis add1_zle_eq order_le_less)
      have "(\<forall>n. After_loop b (c + 1) = Ok (Some n) \<longleftrightarrow>
          c + 1 \<le> n \<and> bit b (nat n) \<and> (\<forall>k. c + 1 \<le> k \<and> k < n \<longrightarrow> \<not> bit b (nat k))) \<and>
        (After_loop b (c + 1) = Ok None \<longleftrightarrow> (\<forall>k\<ge>c + 1. \<not> bit b (nat k)))"
        using 1 True False by simp
      moreover have "After_loop b c = After_loop b (c + 1)"
        using True False "1.prems" by (subst After_loop.simps) simp
      moreover have "c + 1 \<le> n \<longleftrightarrow> c \<le> n" if "bit b (nat n)" for n using that False by (metis add1_zle_eq order_le_less)
      ultimately show ?thesis using step [of "\<lambda>_. True"] step [of "\<lambda>k. k < n" for n] by auto
    qed
  qed
qed

section \<open>Saving and opening\<close>

text \<open>Only bits of chunks that exist are set.\<close>

definition bits_in_range :: "chunkMap \<Rightarrow> bool" where
  "bits_in_range m \<longleftrightarrow> (\<forall>i. bit (cm_bitmap m) i \<longrightarrow> int i * chunkSize < int (cm_size m))"

lemma bitmap_bytes:
  assumes "bits_in_range m"
  shows "int (length (big_Bytes (cm_bitmap m))) \<le> int (cm_size m) div chunkSize div 8 + 1"
proof -
  let ?n = "nat (int (cm_size m) div chunkSize)"
  have "\<not> bit (cm_bitmap m) i" if "?n < i" for i
  proof
    assume "bit (cm_bitmap m) i"
    with assms have "int i * chunkSize < int (cm_size m)" by (simp add: bits_in_range_def)
    then have "int i \<le> int (cm_size m) div chunkSize" by (simp add: chunkSize_def)
    with that show False by linarith
  qed
  then have "take_bit (Suc ?n) (cm_bitmap m) = cm_bitmap m"
    by (intro bit_eqI) (auto simp: bit_take_bit_iff not_less intro: ccontr)
  then have lt: "cm_bitmap m < 2 ^ Suc ?n" by (metis take_bit_nat_less_exp)
  have "Suc k \<le> 8 * (k div 8 + 1)" for k :: nat by presburger
  then have le: "(2 :: nat) ^ Suc ?n \<le> 2 ^ (8 * (?n div 8 + 1))" by (rule power_increasing) simp
  have "(2 :: nat) ^ (8 * k) = 256 ^ k" for k by (simp add: power_mult)
  with lt le have "cm_bitmap m < 256 ^ (?n div 8 + 1)" by (metis less_le_trans)
  then have "length (big_Bytes (cm_bitmap m)) \<le> ?n div 8 + 1" by (rule length_big_Bytes)
  moreover have "int (?n div 8 + 1) = int (cm_size m) div chunkSize div 8 + 1"
    by (simp add: zdiv_int chunkSize_def)
  ultimately show ?thesis by linarith
qed

lemma length_export_header: "length (export_header m) = header_size"
  by (simp add: export_header_def header_size_def chunkVersion_def overwrite_def)

lemma export_header_fields:
  assumes "cm_size m < 2 ^ 64"
  shows "take 16 (export_header m @ rest) = bytes_of chunkVersion @ replicate 5 0"
    and "be_get (take 8 (drop 16 (export_header m @ rest))) = nat chunkSize"
    and "be_get (take 8 (drop 24 (export_header m @ rest))) = cm_size m"
proof -
  let ?v = "bytes_of chunkVersion @ replicate 5 0"
  have h: "export_header m = ?v @ be_put 8 (nat chunkSize) @ be_put 8 (cm_size m)" and v: "length ?v = 16"
    by (simp_all add: export_header_def chunkVersion_def overwrite_def)
  show "take 16 (export_header m @ rest) = ?v" using v by (simp add: h)
  show "be_get (take 8 (drop 16 (export_header m @ rest))) = nat chunkSize"
    using be.get_field [of "nat chunkSize" 8 ?v 16 "be_put 8 (cm_size m) @ rest"] v
    by (simp add: h chunkSize_def)
  show "be_get (take 8 (drop 24 (export_header m @ rest))) = cm_size m"
    using be.get_field [of "cm_size m" 8 "?v @ be_put 8 (nat chunkSize)" 24 rest] v assms
    by (simp add: h)
qed

lemma open_export:
  assumes "cm_size m < 2 ^ 63" and "bits_in_range m" and "int (cm_size m) < 10 * 2 ^ 20 * chunkSize"
  shows "openChunkMap now path (export_header m @ big_Bytes (cm_bitmap m)) (int (cm_size m)) =
    Ok ((fresh_map path (int (cm_size m)))\<lparr>cm_bitmap := cm_bitmap m, cm_saved := now\<rparr>)"
proof -
  have sz: "cm_size m < 2 ^ 64" "int (cm_size m) < 2 ^ 64" using assms(1) by simp_all
  define f where "f = export_header m @ big_Bytes (cm_bitmap m)"
  have fs: "take 16 f = bytes_of chunkVersion @ replicate 5 0" "be_get (take 8 (drop 16 f)) = nat chunkSize"
    "be_get (take 8 (drop 24 f)) = cm_size m"
    by (simp_all only: f_def export_header_fields [OF sz(1)])
  have len: "length f = header_size + length (big_Bytes (cm_bitmap m))"
    and bm: "drop header_size f = big_Bytes (cm_bitmap m)"
    by (simp_all add: f_def length_export_header)
  have v: "take 9 (bytes_of chunkVersion @ replicate 5 0) = bytes_of (take 9 chunkVersion)"
    "take (length chunkVersion) (bytes_of chunkVersion @ replicate 5 0) = bytes_of chunkVersion"
    by (simp_all add: bytes_of_def chunkVersion_def)
  have c: "cm_size (fresh_map path (int (cm_size m))) = cm_size m" using sz by (simp add: fresh_map_def)
  have b1: "int (length (big_Bytes (cm_bitmap m))) \<le> go_div (go_div (int (cm_size m)) chunkSize) 8 + 1"
    using bitmap_bytes [OF assms(2)] by (simp add: chunkSize_def)
  moreover have "int (cm_size m) div chunkSize div 8 + 1 \<le> safeChunkByteCeiling"
    using assms(3) by (simp add: chunkSize_def safeChunkByteCeiling_def)
  ultimately have b2: "int (length (big_Bytes (cm_bitmap m))) \<le> safeChunkByteCeiling"
    using bitmap_bytes [OF assms(2)] by linarith
  show ?thesis
    unfolding f_def [symmetric] openChunkMap_def Let_def fs v len bm c
    using b1 b2 by (simp add: order_less_imp_le chunkVersion_def)
qed

section \<open>Waiting for a chunk\<close>

datatype chunk_op = OpDone int chunk | OpLost int chunk | OpCheck chunk

fun run_op :: "chunk_op \<Rightarrow> chunkMap \<Rightarrow> (chunk_error, chunkMap) res" where
  "run_op (OpDone now c) m = Done now c m"
| "run_op (OpLost now c) m = Lost now c m"
| "run_op (OpCheck c) m = res_bind (chunk_check c m) (\<lambda>(_, m). Ok m)"

fun is_done_of :: "chunk \<Rightarrow> chunk_op \<Rightarrow> bool" where
  "is_done_of c (OpDone _ c') = (c' = c)"
| "is_done_of c _ = False"

text \<open>Channels handed out are numbered, pending ones are open and belong to one chunk.\<close>

definition channels_ok :: "chunkMap \<Rightarrow> bool" where
  "channels_ok m \<longleftrightarrow>
     (\<forall>c ch. cm_running m c = Some ch \<longrightarrow> ch < cm_chans m \<and> ch \<notin> set (cm_closed m)) \<and>
     (\<forall>c c' ch. cm_running m c = Some ch \<longrightarrow> cm_running m c' = Some ch \<longrightarrow> c = c') \<and>
     (\<forall>ch \<in> set (cm_closed m). ch < cm_chans m)"

lemma channels_ok_fresh: "channels_ok (fresh_map path sz)"
  by (simp add: channels_ok_def fresh_map_def)

lemma channels_ok_run_op: "channels_ok m \<Longrightarrow> run_op op m = Ok m' \<Longrightarrow> channels_ok m'"
proof (cases op)
  case (OpDone now c)
  assume "channels_ok m" "run_op op m = Ok m'"
  with OpDone show ?thesis
    by (auto simp: channels_ok_def Done_def Let_def split: if_splits option.splits)
next
  case (OpLost now c)
  assume "channels_ok m" "run_op op m = Ok m'"
  with OpLost show ?thesis by (auto simp: channels_ok_def Lost_def split: if_splits)
next
  case (OpCheck c)
  assume "channels_ok m" "run_op op m = Ok m'"
  with OpCheck show ?thesis
    by (fastforce simp: channels_ok_def chunk_check_def less_Suc_eq split: if_splits option.splits)
qed

lemma running_run_op:
  assumes "channels_ok m" "run_op op m = Ok m'" "cm_running m c = Some ch"
  shows "if is_done_of c op then ch \<in> set (cm_closed m') else cm_running m' c = Some ch"
  using assms by (cases op) (auto simp: Done_def Lost_def chunk_check_def Let_def split: if_splits option.splits)

lemma closed_run_op:
  "run_op op m = Ok m' \<Longrightarrow> ch \<in> set (cm_closed m) \<Longrightarrow> ch \<in> set (cm_closed m')"
  by (cases op) (auto simp: Done_def Lost_def chunk_check_def Let_def split: if_splits option.splits)

lemma closed_each: "each run_op ops m = Ok m' \<Longrightarrow> ch \<in> set (cm_closed m) \<Longrightarrow> ch \<in> set (cm_closed m')"
  by (induction ops arbitrary: m) (auto dest: closed_run_op)

lemma channels_ok_each: "each run_op ops m = Ok m' \<Longrightarrow> channels_ok m \<Longrightarrow> channels_ok m'"
  by (induction ops arbitrary: m) (auto dest: channels_ok_run_op)

lemma each_wakes:
  "each run_op ops m = Ok m' \<Longrightarrow> channels_ok m \<Longrightarrow> cm_running m c = Some ch \<Longrightarrow>
   ch \<in> set (cm_closed m') \<longleftrightarrow> list_ex (is_done_of c) ops"
proof (induction ops arbitrary: m)
  case Nil
  then show ?case by (auto simp: channels_ok_def)
next
  case (Cons op ops)
  then obtain m1 where m1: "run_op op m = Ok m1" "each run_op ops m1 = Ok m'" by auto
  have ok: "channels_ok m1" using channels_ok_run_op Cons.prems m1 by blast
  show ?case
  proof (cases "is_done_of c op")
    case True
    then have "ch \<in> set (cm_closed m1)" using running_run_op [OF Cons.prems(2) m1(1) Cons.prems(3)] by simp
    then show ?thesis using closed_each [OF m1(2)] True by simp
  next
    case False
    then have "cm_running m1 c = Some ch" using running_run_op [OF Cons.prems(2) m1(1) Cons.prems(3)] by simp
    then show ?thesis using Cons.IH [OF m1(2) ok] False by simp
  qed
qed

section \<open>Properties\<close>

text \<open>
  C25. The chunks tile the object: a chunk that \<open>Offset\<close> does not report as empty starts at a
  multiple of the chunk size and lies inside the object, and every byte of the object is in
  exactly one chunk, the one at its position divided by the chunk size.
\<close>

theorem offsets_tile:
  assumes "cm_size m < 2 ^ 62" and "0 \<le> pos" and "pos < int (cm_size m)"
  shows "\<exists>!c. 0 \<le> c \<and> c < 2 ^ 40 \<and> fst (Offset m c) \<le> pos \<and> pos < fst (Offset m c) + snd (Offset m c)"
    (is "\<exists>!c. ?in c")
proof (rule ex1I [of _ "pos div chunkSize"])
  have c: "0 \<le> pos div chunkSize" "pos div chunkSize < 2 ^ 40" "pos div chunkSize * chunkSize \<le> pos"
    "pos < pos div chunkSize * chunkSize + chunkSize"
    using assms by (simp_all add: chunkSize_def)
  then show "?in (pos div chunkSize)" using assms(3) by (simp add: Offset_eq [OF assms(1)] min_def)
next
  fix c
  assume c: "?in c"
  then have "c * chunkSize \<le> pos \<and> pos < c * chunkSize + chunkSize"
    using assms(2) by (auto simp: Offset_eq [OF assms(1)] split: if_splits)
  then show "c = pos div chunkSize" by (simp add: chunkSize_def) linarith
qed

theorem offsets_tile_witness:
  "\<exists>!c. 0 \<le> c \<and> c < 2 ^ 40 \<and> fst (Offset (fresh_map ''m'' 10000000) c) \<le> 9999999 \<and>
     9999999 < fst (Offset (fresh_map ''m'' 10000000) c) + snd (Offset (fresh_map ''m'' 10000000) c)"
  by (rule offsets_tile) (simp_all add: fresh_map_def)

text \<open>
  C24. No wake-up is lost and none is spurious: a reader that was told to wait for a chunk
  holds a channel that is closed, after any sequence of operations by anyone, exactly if that
  chunk has been marked as done in between.
\<close>

theorem waiters_woken_exactly:
  assumes "channels_ok m" and "chunk_check c m = Ok ((ch, False), m1)" and "each run_op ops m1 = Ok m2"
  shows "ch \<in> set (cm_closed m2) \<longleftrightarrow> list_ex (is_done_of c) ops"
proof -
  have "run_op (OpCheck c) m = Ok m1" using assms(2) by simp
  then have "channels_ok m1" by (rule channels_ok_run_op [OF assms(1)])
  moreover have "cm_running m1 c = Some ch"
    using assms(2) by (auto simp: chunk_check_def split: if_splits option.splits)
  ultimately show ?thesis using each_wakes [OF assms(3)] by blast
qed

theorem waiters_woken_exactly_witness:
  "\<exists>m2. each run_op [OpCheck 1, OpDone 5 1, OpLost 6 1, OpDone 7 0]
      ((fresh_map ''m'' 10000000)\<lparr>cm_running := [0 \<mapsto> 1], cm_chans := 2\<rparr>) = Ok m2 \<and> 1 \<in> set (cm_closed m2)"
proof -
  let ?m = "fresh_map ''m'' 10000000"
  have c: "chunk_check 0 ?m = Ok ((1, False), ?m\<lparr>cm_running := [0 \<mapsto> 1], cm_chans := 2\<rparr>)"
    by (simp add: chunk_check_def Offset_def fresh_map_def Let_def chunkSize_def)
  obtain m2 where m2: "each run_op [OpCheck 1, OpDone 5 1, OpLost 6 1, OpDone 7 0]
      (?m\<lparr>cm_running := [0 \<mapsto> 1], cm_chans := 2\<rparr>) = Ok m2"
    by (simp add: chunk_check_def Offset_def fresh_map_def Let_def chunkSize_def Done_def Lost_def)
  then show ?thesis using waiters_woken_exactly [OF channels_ok_fresh c m2] by auto
qed

text \<open>
  \<open>After\<close> finds the next available chunk: the least one greater than the current one, or
  none if there is none.
\<close>

theorem after_finds_next:
  assumes "0 \<le> current"
  shows "(\<forall>next. After current m = Ok (Some next) \<longleftrightarrow> current < next \<and> bit (cm_bitmap m) (nat next) \<and>
      (\<forall>k. current < k \<and> k < next \<longrightarrow> \<not> bit (cm_bitmap m) (nat k))) \<and>
    (After current m = Ok None \<longleftrightarrow> (\<forall>k > current. \<not> bit (cm_bitmap m) (nat k)))"
  using After_loop_Ok [of "current + 1" "cm_bitmap m"] assms unfolding After_def
  by (simp add: add1_zle_eq)

theorem after_finds_next_witness:
  "After 0 ((fresh_map ''m'' 100000000)\<lparr>cm_bitmap := 9\<rparr>) = Ok (Some 3)"
proof -
  have n: "nat k = 1 \<or> nat k = 2" if "0 < k" "k < 3" for k :: int using that by linarith
  have "\<not> bit (9 :: nat) (nat k)" if "0 < k" "k < 3" for k using n [OF that] by (auto simp: bit_iff_odd)
  then show ?thesis
    using after_finds_next [of 0 "(fresh_map ''m'' 100000000)\<lparr>cm_bitmap := 9\<rparr>"] by (auto simp: bit_iff_odd)
qed

text \<open>
  C16. Saving is atomic and reading back restores the map: whichever system calls fail, either
  \<open>Save\<close> reports an error and the file system is as before, or it succeeds and opening the
  saved file gives a map with the same bitmap.
\<close>

theorem save_atomic_and_durable:
  assumes "cm_size m < 2 ^ 63" and "bits_in_range m" and "int (cm_size m) < 10 * 2 ^ 20 * chunkSize"
    and "fs temp = None" and "temp \<noteq> cm_path m" and "chunkMap_Save fails temp now m fs = (r, fs')"
  shows "case r of
      Ok m' \<Rightarrow> \<not> list_ex fails [CreateTemp, WriteHeader, WriteBitmap, SyncTemp, CloseTemp, RenameTemp] \<and>
        (\<exists>content. fs' = fs(cm_path m \<mapsto> content) \<and>
          openChunkMap now' (cm_path m) content (int (cm_size m)) =
            Ok ((fresh_map (cm_path m) (int (cm_size m)))\<lparr>cm_bitmap := cm_bitmap m, cm_saved := now'\<rparr>))
    | Err e \<Rightarrow> fails e \<and> fs' = fs
    | Panic \<Rightarrow> False"
proof (cases "list_ex fails [CreateTemp, WriteHeader, WriteBitmap, SyncTemp, CloseTemp, RenameTemp]")
  case True
  then show ?thesis
    using assms(4,6) unfolding chunkMap_Save_def Let_def
    by (auto simp: chunkVersion_def fun_upd_idem_iff split: if_splits)
next
  case False
  then have "r = Ok (m\<lparr>cm_saved := now\<rparr>)" "fs' = fs(cm_path m \<mapsto> export_header m @ big_Bytes (cm_bitmap m))"
    using assms(4-6) by (auto simp: chunkMap_Save_def Let_def chunkVersion_def)
  with False show ?thesis using open_export [OF assms(1-3)] by auto
qed

theorem save_atomic_and_durable_witness:
  "\<exists>content. openChunkMap 7 ''m'' content 100000000 = Ok ((fresh_map ''m'' 100000000)\<lparr>cm_bitmap := 9, cm_saved := 7\<rparr>)"
proof -
  let ?m = "(fresh_map ''m'' 100000000)\<lparr>cm_bitmap := 9\<rparr>"
  have "bit (9 :: nat) i \<longleftrightarrow> i = 0 \<or> i = 3" for i
  proof -
    have "(9 :: nat) = set_bit 0 (set_bit 3 0)" by (simp add: set_bit_eq)
    then show ?thesis by (simp only: bit_set_bit_iff) auto
  qed
  then have r: "bits_in_range ?m" by (auto simp: bits_in_range_def fresh_map_def chunkSize_def)
  obtain s fs' where s: "chunkMap_Save (\<lambda>_. False) ''t'' 5 ?m Map.empty = (s, fs')" by fastforce
  have "s = Ok (?m\<lparr>cm_saved := 5\<rparr>)" using s by (simp add: chunkMap_Save_def chunkVersion_def Let_def)
  then show ?thesis
    using save_atomic_and_durable [OF _ r _ _ _ s, of 7] by (auto simp: fresh_map_def chunkSize_def)
qed

end
