(* ===== verification/Cache.thy ===== *)
theory Cache
  imports Chunkmap
begin

text \<open>
  The read cache in front of an immutable S3 object (\<open>src/nbd/s3/cache.go\<close>, \<open>remote.go\<close>):
  goroutines fetch chunks from the remote object into a local file and mark them in the chunk
  map; readers wait for a chunk and read the local file.

  The state holds the chunk map, the content of the local file, the file the map was last
  saved to, and the fetchers that are running.  Each atomic action of the code is one operation;
  \<open>cache_step\<close> interleaves them arbitrarily.  The remote object is a byte string, the S3
  service a function from an HTTP range to a body.
\<close>

section \<open>The remote object (remote.go)\<close>

definition minioRemote_Reader :: "(int \<Rightarrow> int \<Rightarrow> bytes) \<Rightarrow> int \<Rightarrow> int \<Rightarrow> int \<Rightarrow> bytes" where
  "minioRemote_Reader get_object sz offset len =
     (if offset > sz \<or> len \<le> 0 \<or> offset < 0 then []
      else let stop = offset + len - 1;
               stop = (if stop > sz then sz else stop)
           in get_object offset stop)"

text \<open>What the cache relies on: a range inside the object yields exactly its bytes.\<close>

locale remote_object =
  fixes Reader :: "int \<Rightarrow> int \<Rightarrow> bytes" and object :: bytes
  assumes Reader_range: "0 \<le> offset \<Longrightarrow> 0 < len \<Longrightarrow> offset + len \<le> int (length object) \<Longrightarrow>
    Reader offset len = take (nat len) (drop (nat offset) object)"

text \<open>
  HTTP range requests: both ends inclusive, cut at the end of the object.
\<close>

definition range_get :: "bytes \<Rightarrow> int \<Rightarrow> int \<Rightarrow> bytes" where
  "range_get object first stop = take (nat (stop - first + 1)) (drop (nat first) object)"

definition serves_ranges :: "(int \<Rightarrow> int \<Rightarrow> bytes) \<Rightarrow> bytes \<Rightarrow> bool" where
  "serves_ranges get_object object \<longleftrightarrow>
     (\<forall>first stop. 0 \<le> first \<longrightarrow> first \<le> stop \<longrightarrow> get_object first stop = range_get object first stop)"

lemma minioRemote_object:
  assumes "serves_ranges get_object object"
  shows "remote_object (minioRemote_Reader get_object (int (length object))) object"
proof
  fix offset len :: int
  assume a: "0 \<le> offset" "0 < len" "offset + len \<le> int (length object)"
  then have "get_object offset (offset + len - 1) = range_get object offset (offset + len - 1)"
    using assms by (simp add: serves_ranges_def)
  then show "minioRemote_Reader get_object (int (length object)) offset len =
      take (nat len) (drop (nat offset) object)"
    using a by (simp add: minioRemote_Reader_def range_get_def Let_def)
qed

interpretation mr: remote_object "minioRemote_Reader (range_get object) (int (length object))" object for object
  by (rule minioRemote_object) (simp add: serves_ranges_def)

section \<open>State and atomic actions\<close>

datatype fetcher = Acquiring chunk | Copying chunk nat

record cache =
  ca_chunk :: chunkMap
  ca_local :: bytes
  ca_saved :: bytes
  ca_fetchers :: "fetcher list"

text \<open>
  \<open>fetch\<close> up to the connection queue: nothing is done for a chunk that is empty or already
  there; otherwise the fetcher registers for the chunk and asks for a connection.
\<close>

definition fetch_start :: "chunk \<Rightarrow> cache \<Rightarrow> (chunk_error, cache) res" where
  "fetch_start part ca =
     (if snd (Offset (ca_chunk ca) part) = 0 then Ok ca
      else res_bind (chunk_check part (ca_chunk ca)) (\<lambda>((_, ok), m).
        if ok then Ok (ca\<lparr>ca_chunk := m\<rparr>)
        else Ok (ca\<lparr>ca_chunk := m, ca_fetchers := ca_fetchers ca @ [Acquiring part]\<rparr>)))"

text \<open>A connection has been acquired: the remote reader is opened.\<close>

definition fetch_acquired :: "nat \<Rightarrow> cache \<Rightarrow> cache" where
  "fetch_acquired i ca =
     (case ca_fetchers ca ! i of
        Acquiring part \<Rightarrow> ca\<lparr>ca_fetchers := (ca_fetchers ca)[i := Copying part 0]\<rparr>
      | Copying _ _ \<Rightarrow> ca)"

text \<open>\<open>io.CopyBuffer\<close> writes the next \<open>j\<close> bytes of the body at the chunk's offset in the local file.\<close>

definition fetch_copy :: "(int \<Rightarrow> int \<Rightarrow> bytes) \<Rightarrow> nat \<Rightarrow> nat \<Rightarrow> cache \<Rightarrow> cache" where
  "fetch_copy Reader i j ca =
     (case ca_fetchers ca ! i of
        Acquiring _ \<Rightarrow> ca
      | Copying part k \<Rightarrow>
          let (offset, len) = Offset (ca_chunk ca) part;
              buf = take j (drop k (Reader offset len))
          in ca\<lparr>ca_local := overwrite (ca_local ca) (nat offset + k) buf,
                ca_fetchers := (ca_fetchers ca)[i := Copying part (k + length buf)]\<rparr>)"

text \<open>
  Copying has ended without an error: the chunk is marked as done if all of it was written;
  otherwise \<open>fetch\<close> returns \<open>io.ErrShortWrite\<close>.
\<close>

definition fetch_finish :: "int \<Rightarrow> nat \<Rightarrow> cache \<Rightarrow> (chunk_error, cache) res" where
  "fetch_finish now i ca =
     (case ca_fetchers ca ! i of
        Acquiring _ \<Rightarrow> Ok ca
      | Copying part n \<Rightarrow>
          let (_, len) = Offset (ca_chunk ca) part;
              ca = ca\<lparr>ca_fetchers := take i (ca_fetchers ca) @ drop (Suc i) (ca_fetchers ca)\<rparr>
          in if int n \<noteq> len then Ok ca
             else res_bind (Done now part (ca_chunk ca)) (\<lambda>m. Ok (ca\<lparr>ca_chunk := m\<rparr>)))"

text \<open>Any error on the way (no connection, closed cache, failing read or write) ends the fetcher.\<close>

definition fetch_fail :: "nat \<Rightarrow> cache \<Rightarrow> cache" where
  "fetch_fail i ca = ca\<lparr>ca_fetchers := take i (ca_fetchers ca) @ drop (Suc i) (ca_fetchers ca)\<rparr>"

section \<open>Reading\<close>

text \<open>The chunks \<open>ReadAt\<close> schedules: one for every started chunk size of the buffer's length.\<close>

function ReadAt_parts :: "chunk \<Rightarrow> int \<Rightarrow> chunk list" where
  "ReadAt_parts part remain =
     (if remain > 0 then part # ReadAt_parts (part + 1) (remain - chunkSize) else [])"
  by pat_completeness auto
termination
  by (relation "measure (\<lambda>(part, remain). nat remain)") (auto simp: chunkSize_def)

declare ReadAt_parts.simps [simp del]

definition ReadAt_schedule :: "int \<Rightarrow> int \<Rightarrow> chunk list" where
  "ReadAt_schedule len offset = ReadAt_parts (go_div offset chunkSize) len"

text \<open>
  The channel \<open>ReadAt\<close> waits on, and what it returns once the channel is closed: the bytes of
  the local file (\<open>os.File.ReadAt\<close> stops at the end of the file; a negative offset is an
  error).
\<close>

definition ReadAt_wait :: "int \<Rightarrow> cache \<Rightarrow> (chunk_error, nat \<times> cache) res" where
  "ReadAt_wait offset ca =
     res_bind (chunk_check (go_div offset chunkSize) (ca_chunk ca)) (\<lambda>((ready, _), m).
       Ok (ready, ca\<lparr>ca_chunk := m\<rparr>))"

definition ReadAt_data :: "int \<Rightarrow> int \<Rightarrow> cache \<Rightarrow> bytes option" where
  "ReadAt_data len offset ca =
     (if offset < 0 then None
      else Some (take (nat (min len chunkSize)) (drop (nat offset) (ca_local ca))))"

section \<open>Background tasks\<close>

text \<open>
  \<open>bgFetchAll\<close>, by the rounds of its loop: the context is done, there was activity less than
  \<open>idleDelay\<close> ago, or an attempt is made, with its outcome.  The result lists the attempts (chunk,
  retries before it, outcome) and tells whether the loop is still running when the rounds are used
  up, has been left for the context, or has finished.
\<close>

definition retryLimit :: nat where "retryLimit = 5"

datatype bg_round = BgDone | BgBusy | BgAttempt bool

datatype bg_result = BgRunning | BgAborted | BgFinished

fun bgFetchAll :: "bg_round list \<Rightarrow> chunkMap \<Rightarrow> nat \<Rightarrow> nat \<Rightarrow> (nat \<times> nat \<times> bool) list \<times> bg_result" where
  "bgFetchAll rounds m part retry =
     (if int part * chunkSize < int (cm_size m)
      then case rounds of
          [] \<Rightarrow> ([], BgRunning)
        | BgDone # _ \<Rightarrow> ([], BgAborted)
        | BgBusy # rs \<Rightarrow> bgFetchAll rs m part retry
        | BgAttempt ok # rs \<Rightarrow>
            let (attempts, r) =
                  (if \<not> ok \<and> retry < retryLimit then bgFetchAll rs m part (retry + 1) else bgFetchAll rs m (part + 1) 0)
            in ((part, retry, ok) # attempts, r)
      else ([], BgFinished))"

declare bgFetchAll.simps [simp del]

text \<open>
  \<open>bgIntegrity\<close>, by what happens to it: the context is done, another goroutine marks a chunk as done,
  or the timer \<open>sleep\<close> elapses and the current chunk is verified.  The verification reads through the
  cache and thereby may have chunks fetched; it has an outcome.  A channel of \<open>time.After\<close> delivers
  once: after it has been received from, the \<open>select\<close> waits for the context only, until the timer is
  set again.  The result lists the verified chunks with their outcomes.
\<close>

datatype integrity_event = IntegrityClosed | FetchedElsewhere chunk | TimerElapsed "chunk list" bool

fun bgIntegrity ::
    "int \<Rightarrow> integrity_event list \<Rightarrow> chunk \<Rightarrow> bool \<Rightarrow> chunkMap \<Rightarrow> (chunk_error, (chunk \<times> bool) list \<times> chunkMap) res" where
  "bgIntegrity now [] part sleep m = Ok ([], m)"
| "bgIntegrity now (IntegrityClosed # es) part sleep m = Ok ([], m)"
| "bgIntegrity now (FetchedElsewhere c # es) part sleep m = res_bind (Done now c m) (bgIntegrity now es part sleep)"
| "bgIntegrity now (TimerElapsed fetched ok # es) part sleep m =
     (if \<not> sleep then bgIntegrity now es part sleep m
      else res_bind (each (Done now) fetched m) (\<lambda>m.
           res_bind (if ok then Ok m else Lost now part m) (\<lambda>m.
           res_bind (After part m) (\<lambda>next.
           res_bind (case next of None \<Rightarrow> bgIntegrity now es 0 True m | Some p \<Rightarrow> bgIntegrity now es p False m) (\<lambda>(checks, m).
             Ok ((part, ok) # checks, m))))))"

section \<open>Interleavings\<close>

text \<open>
  Everything the goroutines do, in any order.  A chunk number comes from an \<open>int64\<close> offset, so
  it is smaller than \<open>2 ^ 40\<close>.
\<close>

inductive cache_step :: "(int \<Rightarrow> int \<Rightarrow> bytes) \<Rightarrow> cache \<Rightarrow> cache \<Rightarrow> bool" for Reader where
  start: "- (2 ^ 40) \<le> part \<Longrightarrow> part < 2 ^ 40 \<Longrightarrow> fetch_start part ca = Ok ca' \<Longrightarrow> cache_step Reader ca ca'"
| acquired: "i < length (ca_fetchers ca) \<Longrightarrow> cache_step Reader ca (fetch_acquired i ca)"
| copy: "i < length (ca_fetchers ca) \<Longrightarrow> cache_step Reader ca (fetch_copy Reader i j ca)"
| finish: "i < length (ca_fetchers ca) \<Longrightarrow> fetch_finish now i ca = Ok ca' \<Longrightarrow> cache_step Reader ca ca'"
| fail: "cache_step Reader ca (fetch_fail i ca)"
| wait: "- (2 ^ 63) \<le> offset \<Longrightarrow> offset < 2 ^ 63 \<Longrightarrow> ReadAt_wait offset ca = Ok (ready, ca') \<Longrightarrow> cache_step Reader ca ca'"
| lost: "0 \<le> part \<Longrightarrow> Lost now part (ca_chunk ca) = Ok m \<Longrightarrow> cache_step Reader ca (ca\<lparr>ca_chunk := m\<rparr>)"
| save: "chunkMap_Save fails temp now (ca_chunk ca) fs = (Ok m, fs') \<Longrightarrow> fs temp = None \<Longrightarrow>
    temp \<noteq> cm_path (ca_chunk ca) \<Longrightarrow> fs' (cm_path (ca_chunk ca)) = Some content \<Longrightarrow>
    cache_step Reader ca (ca\<lparr>ca_chunk := m, ca_saved := content\<rparr>)"

text \<open>The process ends, at any moment, and is started again on the files it left.\<close>

inductive cache_restart :: "bytes \<Rightarrow> cache \<Rightarrow> cache \<Rightarrow> bool" for object where
  restart: "openChunkMap now path (ca_saved ca) (int (length object)) = Ok m \<Longrightarrow>
    cache_restart object ca (ca\<lparr>ca_chunk := m, ca_fetchers := []\<rparr>)"

text \<open>A cache that was opened for the first time: the local file has the object's length and any content.\<close>

definition cache_init :: "bytes \<Rightarrow> cache \<Rightarrow> bool" where
  "cache_init object ca \<longleftrightarrow>
     (\<exists>path. ca_chunk ca = fresh_map path (int (length object))) \<and>
     length (ca_local ca) = length object \<and> ca_saved ca = [] \<and> ca_fetchers ca = []"

definition cache_next :: "(int \<Rightarrow> int \<Rightarrow> bytes) \<Rightarrow> bytes \<Rightarrow> cache \<Rightarrow> cache \<Rightarrow> bool" where
  "cache_next Reader object ca ca' \<longleftrightarrow> cache_step Reader ca ca' \<or> cache_restart object ca ca'"

section \<open>The invariant\<close>

definition object_fits :: "bytes \<Rightarrow> bool" where
  "object_fits object \<longleftrightarrow> int (length object) < 10 * 2 ^ 20 * chunkSize"

text \<open>The first \<open>k\<close> bytes of a chunk are in the local file.\<close>

definition holds_upto :: "bytes \<Rightarrow> bytes \<Rightarrow> chunk \<Rightarrow> int \<Rightarrow> bool" where
  "holds_upto object loc part k \<longleftrightarrow>
     0 \<le> part \<and> part * chunkSize < int (length object) \<and>
     (\<forall>p < length object. part * chunkSize \<le> int p \<and> int p < part * chunkSize + k \<longrightarrow> loc ! p = object ! p)"

fun fetcher_ok :: "bytes \<Rightarrow> bytes \<Rightarrow> fetcher \<Rightarrow> bool" where
  "fetcher_ok object loc (Acquiring part) = holds_upto object loc part 0"
| "fetcher_ok object loc (Copying part k) = holds_upto object loc part (int k)"

definition bits_ok :: "bytes \<Rightarrow> bytes \<Rightarrow> chunkMap \<Rightarrow> bool" where
  "bits_ok object loc m \<longleftrightarrow>
     cm_size m = length object \<and> channels_ok m \<and>
     (\<forall>i. bit (cm_bitmap m) i \<longrightarrow> holds_upto object loc (int i) chunkSize)"

definition cache_ok :: "bytes \<Rightarrow> cache \<Rightarrow> bool" where
  "cache_ok object ca \<longleftrightarrow>
     length (ca_local ca) = length object \<and>
     bits_ok object (ca_local ca) (ca_chunk ca) \<and>
     (\<forall>f \<in> set (ca_fetchers ca). fetcher_ok object (ca_local ca) f) \<and>
     (\<forall>now path m. openChunkMap now path (ca_saved ca) (int (length object)) = Ok m \<longrightarrow>
        bits_ok object (ca_local ca) m)"

text \<open>The local file only gets better: a byte that is right stays right.\<close>

definition improves :: "bytes \<Rightarrow> bytes \<Rightarrow> bytes \<Rightarrow> bool" where
  "improves object loc loc' \<longleftrightarrow>
     length loc' = length loc \<and> (\<forall>p < length object. loc ! p = object ! p \<longrightarrow> loc' ! p = object ! p)"

lemma improves_refl [simp]: "improves object loc loc"
  by (simp add: improves_def)

lemma holds_upto_improves: "holds_upto object loc part k \<Longrightarrow> improves object loc loc' \<Longrightarrow> holds_upto object loc' part k"
  by (auto simp: holds_upto_def improves_def)

lemma fetcher_ok_improves: "fetcher_ok object loc f \<Longrightarrow> improves object loc loc' \<Longrightarrow> fetcher_ok object loc' f"
  by (cases f) (auto intro: holds_upto_improves)

lemma bits_ok_improves: "bits_ok object loc m \<Longrightarrow> improves object loc loc' \<Longrightarrow> bits_ok object loc' m"
  by (auto simp: bits_ok_def intro: holds_upto_improves)

lemma cache_ok_change:
  assumes "cache_ok object ca" and "improves object (ca_local ca) (ca_local ca')"
    and "bits_ok object (ca_local ca') (ca_chunk ca')"
    and "\<And>f. f \<in> set (ca_fetchers ca') \<Longrightarrow> fetcher_ok object (ca_local ca') f"
    and "ca_saved ca' = ca_saved ca"
  shows "cache_ok object ca'"
  using assms bits_ok_improves [of object "ca_local ca" _ "ca_local ca'"]
  unfolding cache_ok_def improves_def by auto

lemma overwrite_improves:
  assumes "length loc = length object" and "buf = take j (drop off object)" and "off \<le> length object"
  shows "improves object loc (overwrite loc off buf)"
    and "\<And>p. off \<le> p \<Longrightarrow> p < off + length buf \<Longrightarrow> overwrite loc off buf ! p = object ! p"
proof -
  have len: "off + length buf \<le> length loc" using assms by auto
  show nth: "overwrite loc off buf ! p = object ! p" if "off \<le> p" "p < off + length buf" for p
    using that assms len by (auto simp: overwrite_def nth_append less_diff_conv2)
  have "overwrite loc off buf ! p = loc ! p" if "p < length object" "\<not> (off \<le> p \<and> p < off + length buf)" for p
    using that assms(1) len by (auto simp: overwrite_def nth_append)
  then show "improves object loc (overwrite loc off buf)"
    using nth len unfolding improves_def by (metis length_overwrite)
qed

lemma bits_ok_fresh: "length object < 2 ^ 62 \<Longrightarrow> bits_ok object loc (fresh_map path (int (length object)))"
  using channels_ok_fresh [of path "int (length object)"] by (simp add: bits_ok_def) (simp add: fresh_map_def)

lemma bits_ok_op:
  assumes "bits_ok object loc m" and "run_op op m = Ok m'"
    and "\<And>now c. op = OpDone now c \<Longrightarrow> holds_upto object loc c chunkSize"
  shows "bits_ok object loc m'"
proof -
  have ch: "channels_ok m'" using assms(1,2) channels_ok_run_op by (auto simp: bits_ok_def)
  show ?thesis
  proof (cases op)
    case (OpDone now c)
    then have h: "holds_upto object loc c chunkSize" using assms(3) by blast
    have d: "Done now c m = Ok m'" using assms(2) OpDone by simp
    then have "cm_size m' = cm_size m" by (auto simp: Done_def Let_def split: if_splits option.splits)
    with h d ch assms(1) show ?thesis by (auto simp: bits_ok_def bit_Done holds_upto_def)
  next
    case (OpLost now c)
    then have d: "Lost now c m = Ok m'" using assms(2) by simp
    then have "cm_size m' = cm_size m" by (auto simp: Lost_def split: if_splits)
    with d ch assms(1) show ?thesis by (auto simp: bits_ok_def bit_Lost)
  next
    case (OpCheck c)
    then have "cm_size m' = cm_size m \<and> cm_bitmap m' = cm_bitmap m"
      using assms(2) by (auto simp: chunk_check_def split: if_splits option.splits)
    with ch assms(1) show ?thesis by (auto simp: bits_ok_def)
  qed
qed

lemma fits_bounds:
  assumes "object_fits object"
  shows "length object < 2 ^ 62" and "part * chunkSize < int (length object) \<Longrightarrow> part < 2 ^ 40"
proof -
  have "int (length object) < 2 ^ 62" using assms by (simp add: object_fits_def chunkSize_def)
  then show "length object < 2 ^ 62" by (metis of_nat_less_iff of_nat_numeral of_nat_power)
  show "part < 2 ^ 40" if "part * chunkSize < int (length object)"
    using that assms by (simp add: object_fits_def chunkSize_def)
qed

lemma Offset_held:
  assumes "object_fits object" and "cm_size m = length object" and "holds_upto object loc part k"
  shows "Offset m part = (part * chunkSize, min chunkSize (int (length object) - part * chunkSize))"
proof -
  have p: "0 \<le> part" "part * chunkSize < int (length object)" using assms(3) by (simp_all add: holds_upto_def)
  have "cm_size m < 2 ^ 62" using assms(2) fits_bounds(1) [OF assms(1)] by simp
  from Offset_eq [OF this p(1) fits_bounds(2) [OF assms(1) p(2)]] p(2) assms(2) show ?thesis by simp
qed

lemma holds_upto_all:
  "holds_upto object loc part k \<Longrightarrow> k = min chunkSize (int (length object) - part * chunkSize) \<Longrightarrow>
   holds_upto object loc part chunkSize"
  by (auto simp: holds_upto_def min_def split: if_splits)

lemma fetch_start_ok:
  assumes fits: "object_fits object" and ok: "cache_ok object ca" and start: "fetch_start part ca = Ok ca'"
    and part: "- (2 ^ 40) \<le> part" "part < 2 ^ 40"
  shows "cache_ok object ca'"
proof (cases "snd (Offset (ca_chunk ca) part) = 0")
  case True
  with start ok show ?thesis by (simp add: fetch_start_def)
next
  case False
  have sz: "cm_size (ca_chunk ca) = length object" using ok by (simp add: cache_ok_def bits_ok_def)
  from False have p0: "0 \<le> part" using Offset_negative [OF part(1), of "ca_chunk ca"] by (metis not_le snd_conv)
  have "cm_size (ca_chunk ca) < 2 ^ 62" using fits_bounds(1) [OF fits] sz by simp
  from Offset_nonempty [OF this p0 part(2)] False sz have lt: "part * chunkSize < int (length object)" by simp
  from start False obtain r m where r: "chunk_check part (ca_chunk ca) = Ok (r, m)"
    by (auto simp: fetch_start_def)
  then have run: "run_op (OpCheck part) (ca_chunk ca) = Ok m" by (cases r) simp
  have "bits_ok object (ca_local ca) (ca_chunk ca)" using ok by (simp add: cache_ok_def)
  from bits_ok_op [OF this run] have bits: "bits_ok object (ca_local ca) m" by simp
  have new: "fetcher_ok object (ca_local ca) (Acquiring part)" using p0 lt by (auto simp: holds_upto_def)
  obtain ch b where rb: "r = (ch, b)" by (cases r)
  have ca': "ca' = (if b then ca\<lparr>ca_chunk := m\<rparr>
      else ca\<lparr>ca_chunk := m, ca_fetchers := ca_fetchers ca @ [Acquiring part]\<rparr>)"
    using start False r unfolding fetch_start_def rb by (simp split: if_splits)
  show ?thesis
  proof (rule cache_ok_change [OF ok])
    show "fetcher_ok object (ca_local ca') f" if "f \<in> set (ca_fetchers ca')" for f
      using that new ok unfolding ca' by (cases b) (auto simp: cache_ok_def)
  qed (simp_all add: ca' bits)
qed

lemma fetch_acquired_ok:
  assumes "cache_ok object ca" and "i < length (ca_fetchers ca)"
  shows "cache_ok object (fetch_acquired i ca)"
proof (cases "ca_fetchers ca ! i")
  case (Acquiring part)
  with assms have "fetcher_ok object (ca_local ca) (Acquiring part)" by (metis cache_ok_def nth_mem)
  with Acquiring assms show ?thesis
    by (intro cache_ok_change [OF assms(1)]) (auto simp: fetch_acquired_def cache_ok_def dest!: set_update_subset_insert [THEN subsetD])
next
  case (Copying part k)
  with assms show ?thesis by (simp add: fetch_acquired_def)
qed

lemma holds_upto_extend:
  assumes "holds_upto object loc part k" and "int off = part * chunkSize + k"
    and "\<And>p. off \<le> p \<Longrightarrow> p < off + n \<Longrightarrow> loc ! p = object ! p"
  shows "holds_upto object loc part (k + int n)"
proof -
  have "loc ! p = object ! p" if "p < length object" "part * chunkSize \<le> int p" "int p < part * chunkSize + (k + int n)" for p
  proof (cases "off \<le> p")
    case True
    with that assms(2,3) show ?thesis by simp
  next
    case False
    with that assms(1,2) show ?thesis by (simp add: holds_upto_def)
  qed
  with assms(1) show ?thesis by (simp add: holds_upto_def)
qed

context remote_object
begin

lemma fetch_copy_ok:
  assumes fits: "object_fits object" and ok: "cache_ok object ca" and i: "i < length (ca_fetchers ca)"
  shows "cache_ok object (fetch_copy Reader i j ca) \<and>
    improves object (ca_local ca) (ca_local (fetch_copy Reader i j ca))"
proof (cases "ca_fetchers ca ! i")
  case (Acquiring part)
  with ok show ?thesis by (simp add: fetch_copy_def)
next
  case (Copying part k)
  have sz: "cm_size (ca_chunk ca) = length object" and ll: "length (ca_local ca) = length object"
    using ok by (simp_all add: cache_ok_def bits_ok_def)
  have h: "holds_upto object (ca_local ca) part (int k)"
    using ok i Copying by (metis cache_ok_def fetcher_ok.simps(2) nth_mem)
  define off where "off = nat (part * chunkSize)"
  define len where "len = min chunkSize (int (length object) - part * chunkSize)"
  have off: "Offset (ca_chunk ca) part = (int off, len)" and p: "0 \<le> part" "off < length object"
      "int off = part * chunkSize" "0 < len" "int off + len \<le> int (length object)"
    using Offset_held [OF fits sz h] h by (auto simp: off_def len_def holds_upto_def chunkSize_def)
  define buf where "buf = take j (drop k (Reader (int off) len))"
  have "Reader (int off) len = take (nat len) (drop off object)"
    using Reader_range [of "int off" len] p(4,5) by (metis nat_int of_nat_0_le_iff)
  then have buf: "buf = take (min j (nat len - k)) (drop (off + k) object)"
    by (simp add: buf_def drop_take min.commute add.commute)
  have ca': "fetch_copy Reader i j ca = ca\<lparr>ca_local := overwrite (ca_local ca) (off + k) buf,
      ca_fetchers := (ca_fetchers ca)[i := Copying part (k + length buf)]\<rparr>"
    using Copying off by (simp add: fetch_copy_def buf_def)
  show ?thesis
  proof (cases "buf = []")
    case True
    have "overwrite (ca_local ca) (off + k) [] = ca_local ca" by (simp add: overwrite_def)
    with True Copying ok i show ?thesis unfolding ca' by (simp add: list_update_same_conv [THEN iffD2])
  next
    case False
    then have le: "off + k \<le> length object" using buf by auto
    note imp = overwrite_improves [OF ll buf le]
    have "holds_upto object (overwrite (ca_local ca) (off + k) buf) part (int k + int (length buf))"
    proof (rule holds_upto_extend [OF holds_upto_improves [OF h imp(1)]])
      show "int (off + k) = part * chunkSize + int k" using p(3) by simp
    qed (rule imp(2))
    then have new: "fetcher_ok object (overwrite (ca_local ca) (off + k) buf) (Copying part (k + length buf))"
      by simp
    have "fetcher_ok object (ca_local (fetch_copy Reader i j ca)) f"
      if "f \<in> set (ca_fetchers (fetch_copy Reader i j ca))" for f
      using that new ok imp(1) unfolding ca'
      by (auto simp: cache_ok_def intro: fetcher_ok_improves dest!: set_update_subset_insert [THEN subsetD])
    with imp(1) show ?thesis
      by (intro conjI cache_ok_change [OF ok]) (use ok in \<open>auto simp: ca' cache_ok_def intro: bits_ok_improves\<close>)
  qed
qed

end

lemma fetch_finish_ok:
  assumes fits: "object_fits object" and ok: "cache_ok object ca" and i: "i < length (ca_fetchers ca)"
    and fin: "fetch_finish now i ca = Ok ca'"
  shows "cache_ok object ca'"
proof (cases "ca_fetchers ca ! i")
  case (Acquiring part)
  with ok fin show ?thesis by (simp add: fetch_finish_def)
next
  case (Copying part n)
  have bits: "bits_ok object (ca_local ca) (ca_chunk ca)" and sz: "cm_size (ca_chunk ca) = length object"
    using ok by (simp_all add: cache_ok_def bits_ok_def)
  have h: "holds_upto object (ca_local ca) part (int n)"
    using ok i Copying by (metis cache_ok_def fetcher_ok.simps(2) nth_mem)
  define rest where "rest = take i (ca_fetchers ca) @ drop (Suc i) (ca_fetchers ca)"
  define len where "len = min chunkSize (int (length object) - part * chunkSize)"
  have off: "Offset (ca_chunk ca) part = (part * chunkSize, len)"
    using Offset_held [OF fits sz h] by (simp add: len_def)
  have rest: "f \<in> set (ca_fetchers ca)" if "f \<in> set rest" for f
    using that by (auto simp: rest_def dest: in_set_takeD in_set_dropD)
  have old: "fetcher_ok object (ca_local ca) f" if "f \<in> set rest" for f
    using rest [OF that] ok by (simp add: cache_ok_def)
  show ?thesis
  proof (cases "int n = len")
    case False
    then have "ca' = ca\<lparr>ca_fetchers := rest\<rparr>"
      using fin Copying off by (simp add: fetch_finish_def rest_def)
    with old bits show ?thesis by (intro cache_ok_change [OF ok]) simp_all
  next
    case True
    then obtain m where m: "Done now part (ca_chunk ca) = Ok m" "ca' = ca\<lparr>ca_fetchers := rest, ca_chunk := m\<rparr>"
      using fin Copying off by (auto simp: fetch_finish_def rest_def)
    have "holds_upto object (ca_local ca) part chunkSize"
      by (rule holds_upto_all [OF h]) (use True in \<open>simp add: len_def\<close>)
    then have "bits_ok object (ca_local ca) m"
      using bits_ok_op [OF bits, of "OpDone now part" m] m(1) by simp
    with old m(2) show ?thesis by (intro cache_ok_change [OF ok]) simp_all
  qed
qed

lemma fetch_fail_ok: "cache_ok object ca \<Longrightarrow> cache_ok object (fetch_fail i ca)"
  by (rule cache_ok_change) (auto simp: fetch_fail_def cache_ok_def dest: in_set_takeD in_set_dropD)

lemma cache_chunk_ok:
  assumes "cache_ok object ca" and "bits_ok object (ca_local ca) m"
  shows "cache_ok object (ca\<lparr>ca_chunk := m\<rparr>)"
  using assms by (intro cache_ok_change [OF assms(1)]) (simp_all add: cache_ok_def)

lemma ReadAt_wait_ok:
  assumes ok: "cache_ok object ca" and w: "ReadAt_wait offset ca = Ok (ready, ca')"
  shows "cache_ok object ca'"
proof -
  from w obtain b m where m: "chunk_check (go_div offset chunkSize) (ca_chunk ca) = Ok ((ready, b), m)"
    "ca' = ca\<lparr>ca_chunk := m\<rparr>" by (auto simp: ReadAt_wait_def)
  have "run_op (OpCheck (go_div offset chunkSize)) (ca_chunk ca) = Ok m" using m(1) by simp
  from bits_ok_op [OF _ this] ok m(2) show ?thesis by (simp add: cache_chunk_ok cache_ok_def)
qed

lemma lost_ok:
  assumes ok: "cache_ok object ca" and l: "Lost now part (ca_chunk ca) = Ok m"
  shows "cache_ok object (ca\<lparr>ca_chunk := m\<rparr>)"
  using bits_ok_op [of object "ca_local ca" "ca_chunk ca" "OpLost now part" m] ok l
  by (simp add: cache_chunk_ok cache_ok_def)

lemma bits_ok_in_range: "bits_ok object loc m \<Longrightarrow> bits_in_range m"
  by (auto simp: bits_ok_def bits_in_range_def holds_upto_def)

lemma save_ok:
  assumes fits: "object_fits object" and ok: "cache_ok object ca"
    and save: "chunkMap_Save fails temp now (ca_chunk ca) fs = (Ok m, fs')" "temp \<noteq> cm_path (ca_chunk ca)"
      "fs' (cm_path (ca_chunk ca)) = Some content"
  shows "cache_ok object (ca\<lparr>ca_chunk := m, ca_saved := content\<rparr>)"
proof -
  let ?m = "ca_chunk ca"
  have bits: "bits_ok object (ca_local ca) ?m" and sz: "cm_size ?m = length object"
    using ok by (simp_all add: cache_ok_def bits_ok_def)
  have m: "m = ?m\<lparr>cm_saved := now\<rparr>" and content: "content = export_header ?m @ big_Bytes (cm_bitmap ?m)"
    using save by (auto simp: chunkMap_Save_def Let_def split: if_splits)
  have bounds: "cm_size ?m < 2 ^ 63" "int (cm_size ?m) < 10 * 2 ^ 20 * chunkSize"
    using fits sz fits_bounds(1) [OF fits] by (simp_all add: object_fits_def)
  have "bits_ok object (ca_local ca) m'"
    if "openChunkMap now' path content (int (length object)) = Ok m'" for now' path m'
  proof -
    have "m' = (fresh_map path (int (length object)))\<lparr>cm_bitmap := cm_bitmap ?m, cm_saved := now'\<rparr>"
      using that open_export [OF bounds(1) bits_ok_in_range [OF bits] bounds(2), of now' path]
      by (simp add: content sz)
    with bits bits_ok_fresh [OF fits_bounds(1) [OF fits], of "ca_local ca" path] show ?thesis
      by (simp add: bits_ok_def channels_ok_def)
  qed
  moreover have "bits_ok object (ca_local ca) m" using bits by (simp add: m bits_ok_def channels_ok_def)
  ultimately show ?thesis using ok by (simp add: cache_ok_def)
qed

lemma restart_ok: "cache_ok object ca \<Longrightarrow> cache_restart object ca ca' \<Longrightarrow> cache_ok object ca'"
  by (auto simp: cache_ok_def elim: cache_restart.cases)

lemma cache_init_ok: "object_fits object \<Longrightarrow> cache_init object ca \<Longrightarrow> cache_ok object ca"
  using bits_ok_fresh [OF fits_bounds(1)]
  by (auto simp: cache_init_def cache_ok_def openChunkMap_def Let_def header_size_def)

context remote_object
begin

lemma cache_step_ok:
  assumes "object_fits object" and "cache_ok object ca" and "cache_step Reader ca ca'"
  shows "cache_ok object ca'"
  using assms(3,2)
proof (cases rule: cache_step.cases)
  case (start part)
  then show ?thesis using fetch_start_ok assms(1,2) by blast
next
  case (acquired i)
  then show ?thesis using fetch_acquired_ok assms(2) by blast
next
  case (copy i j)
  then show ?thesis using fetch_copy_ok assms(1,2) by blast
next
  case (finish i now)
  then show ?thesis using fetch_finish_ok assms(1,2) by blast
next
  case (fail i)
  then show ?thesis using fetch_fail_ok assms(2) by blast
next
  case (wait offset ready)
  then show ?thesis using ReadAt_wait_ok assms(2) by blast
next
  case (lost part now m)
  then show ?thesis using lost_ok assms(2) by blast
next
  case (save fails temp now fs m fs' content)
  then show ?thesis using save_ok assms(1,2) by blast
qed

lemma cache_invariant:
  assumes "object_fits object"
  shows "invariant_system (cache_init object) (cache_next Reader object) (cache_ok object)"
proof unfold_locales
  show "cache_ok object s" if "cache_init object s" for s using cache_init_ok [OF assms that] .
  show "cache_ok object s'" if "cache_ok object s" "cache_next Reader object s s'" for s s'
    using that(2) cache_step_ok [OF assms that(1)] restart_ok [OF that(1)] unfolding cache_next_def by blast
qed

lemma cache_reach_ok:
  "object_fits object \<Longrightarrow> reach (cache_init object) (cache_next Reader object) ca \<Longrightarrow> cache_ok object ca"
  by (rule invariant_system.reach_inv [OF cache_invariant])

end

section \<open>A waiting reader\<close>

lemma running_check:
  "chunk_check c' m = Ok (r, m') \<Longrightarrow> cm_running m c = Some ch \<Longrightarrow> cm_running m' c = Some ch"
  by (auto simp: chunk_check_def split: if_splits option.splits)

lemma running_finish:
  assumes "fetch_finish now i ca = Ok ca'" and "cm_running (ca_chunk ca) c = Some ch"
  shows "cm_running (ca_chunk ca') c = Some ch \<or> 0 \<le> c \<and> bit (cm_bitmap (ca_chunk ca')) (nat c)"
proof (cases "\<exists>m. Done now c (ca_chunk ca) = Ok m \<and> ca_chunk ca' = m")
  case True
  then show ?thesis using bit_Done by (auto simp: Done_def split: if_splits)
next
  case False
  with assms show ?thesis
    by (auto simp: fetch_finish_def Done_def Let_def split: fetcher.splits prod.splits if_splits option.splits)
qed

lemma running_step:
  assumes "cache_step Reader ca ca'" and "cm_running (ca_chunk ca) c = Some ch"
  shows "cm_running (ca_chunk ca') c = Some ch \<or> 0 \<le> c \<and> bit (cm_bitmap (ca_chunk ca')) (nat c)"
  using assms(1)
proof (cases rule: cache_step.cases)
  case (start part)
  then show ?thesis using assms(2) running_check
    by (auto simp: fetch_start_def split: if_splits)
next
  case (finish i now)
  then show ?thesis using running_finish assms(2) by blast
next
  case (wait offset ready)
  then show ?thesis using assms(2) running_check by (auto simp: ReadAt_wait_def)
qed (use assms(2) in \<open>auto simp: fetch_acquired_def fetch_copy_def fetch_fail_def Lost_def chunkMap_Save_def Let_def
       split: fetcher.splits prod.splits if_splits\<close>)

context remote_object
begin

lemma step_improves:
  assumes "object_fits object" and "cache_ok object ca" and "cache_step Reader ca ca'"
  shows "improves object (ca_local ca) (ca_local ca')"
  using assms(3)
proof (cases rule: cache_step.cases)
  case (copy i j)
  then show ?thesis using fetch_copy_ok assms(1,2) by blast
qed (auto simp: fetch_start_def fetch_acquired_def fetch_finish_def fetch_fail_def ReadAt_wait_def Let_def
       split: fetcher.splits prod.splits if_splits)

lemma waiting_reader:
  assumes "object_fits object" and "reach ((=) ca1) (cache_step Reader) ca2" and "cache_ok object ca1"
    and "cm_running (ca_chunk ca1) c = Some ch \<or> holds_upto object (ca_local ca1) c chunkSize"
  shows "cache_ok object ca2 \<and>
    (cm_running (ca_chunk ca2) c = Some ch \<or> holds_upto object (ca_local ca2) c chunkSize)"
  using assms(2)
proof (induction rule: reach.induct)
  case (reach_start ca)
  then show ?case using assms(3,4) by simp
next
  case (reach_step ca ca')
  then have ok: "cache_ok object ca" and ok': "cache_ok object ca'"
    using cache_step_ok [OF assms(1)] by blast+
  show ?case
  proof (cases "holds_upto object (ca_local ca) c chunkSize")
    case True
    then show ?thesis using ok' holds_upto_improves step_improves [OF assms(1) ok reach_step(2)] by blast
  next
    case False
    then consider "cm_running (ca_chunk ca') c = Some ch" | "0 \<le> c" "bit (cm_bitmap (ca_chunk ca')) (nat c)"
      using running_step [OF reach_step(2)] reach_step(3) by blast
    then show ?thesis
    proof cases
      case 2
      then have "holds_upto object (ca_local ca') (int (nat c)) chunkSize"
        using ok' unfolding cache_ok_def bits_ok_def by blast
      with 2(1) ok' show ?thesis by simp
    qed (use ok' in blast)
  qed
qed

lemma ready_reader:
  assumes fits: "object_fits object" and ok: "cache_ok object ca"
    and w: "ReadAt_wait offset ca = Ok (ready, ca1)" and off: "0 \<le> offset" "offset < int (length object)"
    and r: "reach ((=) ca1) (cache_step Reader) ca2" and ready: "ready \<in> set (cm_closed (ca_chunk ca2))"
  shows "cache_ok object ca2 \<and> holds_upto object (ca_local ca2) (offset div chunkSize) chunkSize"
proof -
  let ?c = "offset div chunkSize"
  have c: "0 \<le> ?c" "?c * chunkSize < int (length object)" using off by (simp_all add: chunkSize_def)
  have sz: "cm_size (ca_chunk ca) = length object" using ok by (simp add: cache_ok_def bits_ok_def)
  have nonempty: "snd (Offset (ca_chunk ca) ?c) \<noteq> 0"
    using Offset_nonempty [of "ca_chunk ca" ?c] c fits_bounds [OF fits] sz by simp
  from w obtain b m where m: "chunk_check ?c (ca_chunk ca) = Ok ((ready, b), m)" "ca1 = ca\<lparr>ca_chunk := m\<rparr>"
    using off by (auto simp: ReadAt_wait_def chunkSize_def)
  have ok1: "cache_ok object ca1" by (rule ReadAt_wait_ok [OF ok w])
  have "cm_running m ?c = Some ready \<or> bit (cm_bitmap m) (nat ?c)"
    using m(1) nonempty c(1) by (auto simp: chunk_check_def split: if_splits option.splits)
  moreover have "holds_upto object (ca_local ca1) (int (nat ?c)) chunkSize" if "bit (cm_bitmap m) (nat ?c)"
    using that ok1 m(2) unfolding cache_ok_def bits_ok_def by (metis cache.select_convs(1) cache.surjective cache.update_convs(1))
  ultimately have "cm_running (ca_chunk ca1) ?c = Some ready \<or> holds_upto object (ca_local ca1) ?c chunkSize"
    using m(2) c(1) by auto
  from waiting_reader [OF fits r ok1 this]
  show ?thesis using ready unfolding cache_ok_def bits_ok_def channels_ok_def by blast
qed

end

lemma within_chunk_read:
  assumes "serves_ranges get_object object" and "object_fits object"
    and "reach (cache_init object) (cache_next (minioRemote_Reader get_object (int (length object))) object) ca"
    and "ReadAt_wait offset ca = Ok (ready, ca1)"
    and "reach ((=) ca1) (cache_step (minioRemote_Reader get_object (int (length object)))) ca2"
    and "ready \<in> set (cm_closed (ca_chunk ca2))"
    and "0 \<le> offset" and "offset < int (length object)" and "0 \<le> len" and "offset mod chunkSize + len \<le> chunkSize"
  shows "ReadAt_data len offset ca2 = Some (take (nat len) (drop (nat offset) object))"
proof -
  note ro = minioRemote_object [OF assms(1)]
  have "cache_ok object ca" by (rule remote_object.cache_reach_ok [OF ro assms(2,3)])
  from remote_object.ready_reader [OF ro assms(2) this assms(4,7,8,5,6)]
  have l: "length (ca_local ca2) = length object" and
    h: "holds_upto object (ca_local ca2) (offset div chunkSize) chunkSize" by (simp_all add: cache_ok_def)
  have "ca_local ca2 ! p = object ! p" if "nat offset \<le> p" "p < nat offset + nat len" "p < length object" for p
  proof -
    have "offset div chunkSize * chunkSize + offset mod chunkSize = offset" by (rule div_mult_mod_eq)
    moreover have "0 \<le> offset mod chunkSize" by (simp add: chunkSize_def)
    ultimately have "offset div chunkSize * chunkSize \<le> int p \<and> int p < offset div chunkSize * chunkSize + chunkSize"
      using that assms(7,9,10) by linarith
    with h that(3) show ?thesis by (simp add: holds_upto_def)
  qed
  then have "take (nat len) (drop (nat offset) (ca_local ca2)) = take (nat len) (drop (nat offset) object)"
    using l by (intro nth_equalityI) auto
  moreover have "min len chunkSize = len" using assms(10) by (simp add: chunkSize_def min_def)
  ultimately show ?thesis using assms(7) by (simp add: ReadAt_data_def)
qed

section \<open>Properties\<close>

text \<open>
  C4. The chunk map tells the truth: in every state that any interleaving of fetches, failures,
  integrity checks, saves and restarts can reach, every byte of a chunk that is marked as done
  is, in the local file, the byte of the remote object.  The S3 service is assumed to serve
  ranges as HTTP defines them.
\<close>

theorem done_chunks_hold_object:
  assumes "serves_ranges get_object object" and "object_fits object"
    and "reach (cache_init object) (cache_next (minioRemote_Reader get_object (int (length object))) object) ca"
    and "bit (cm_bitmap (ca_chunk ca)) (nat (int pos div chunkSize))" and "pos < length object"
  shows "ca_local ca ! pos = object ! pos"
proof -
  have "cache_ok object ca" by (rule remote_object.cache_reach_ok [OF minioRemote_object [OF assms(1)] assms(2,3)])
  then have "holds_upto object (ca_local ca) (int (nat (int pos div chunkSize))) chunkSize"
    using assms(4) unfolding cache_ok_def bits_ok_def by blast
  moreover have "int (nat (int pos div chunkSize)) = int pos div chunkSize" by (simp add: chunkSize_def)
  ultimately have "holds_upto object (ca_local ca) (int pos div chunkSize) chunkSize" by metis
  moreover have "int pos div chunkSize * chunkSize \<le> int pos \<and> int pos < int pos div chunkSize * chunkSize + chunkSize"
    unfolding chunkSize_def by simp linarith
  ultimately show ?thesis using assms(5) by (simp add: holds_upto_def)
qed

text \<open>
  C10. A read inside one chunk returns the object's bytes: whatever happens between the call of
  \<open>ReadAt\<close> and the moment its channel is closed, the bytes it then reads from the local file
  are those of the remote object.
\<close>

theorem read_within_chunk_correct:
  assumes "serves_ranges get_object object" and "object_fits object"
    and "reach (cache_init object) (cache_next (minioRemote_Reader get_object (int (length object))) object) ca"
    and "ReadAt_wait offset ca = Ok (ready, ca1)"
    and "reach ((=) ca1) (cache_step (minioRemote_Reader get_object (int (length object)))) ca2"
    and "ready \<in> set (cm_closed (ca_chunk ca2))"
    and "0 \<le> offset" and "offset < int (length object)" and "0 \<le> len" and "offset mod chunkSize + len \<le> chunkSize"
  shows "ReadAt_data len offset ca2 = Some (take (nat len) (drop (nat offset) object))"
  by (rule within_chunk_read [OF assms])

section \<open>A fetch from start to end\<close>

text \<open>
  The state after a newly opened cache has fetched its first chunk: an execution for the
  examples below.
\<close>

abbreviation demo_Reader :: "bytes \<Rightarrow> int \<Rightarrow> int \<Rightarrow> bytes" where
  "demo_Reader object \<equiv> minioRemote_Reader (range_get object) (int (length object))"

definition demo_open :: "bytes \<Rightarrow> cache" where
  "demo_open object =
     \<lparr>ca_chunk = fresh_map ''m'' (int (length object)), ca_local = replicate (length object) 0,
      ca_saved = [], ca_fetchers = []\<rparr>"

definition demo_fetched :: "bytes \<Rightarrow> cache" where
  "demo_fetched object =
     \<lparr>ca_chunk = (fresh_map ''m'' (int (length object)))
        \<lparr>cm_bitmap := 1, cm_chans := 2, cm_closed := [1, 0], cm_modified := 9\<rparr>,
      ca_local = overwrite (replicate (length object) 0) 0 (take (nat chunkSize) object),
      ca_saved = [], ca_fetchers = []\<rparr>"

lemma demo_reach:
  assumes "object_fits object" and "object \<noteq> []"
  shows "reach (cache_init object) (cache_next (demo_Reader object) object) (demo_fetched object)"
proof -
  let ?R = "demo_Reader object" and ?m = "fresh_map ''m'' (int (length object))"
  define len where "len = min chunkSize (int (length object))"
  define w where "w = ?m\<lparr>cm_running := [0 \<mapsto> 1], cm_chans := 2\<rparr>"
  have sz: "cm_size ?m = length object" using fits_bounds(1) [OF assms(1)] by (simp add: fresh_map_def)
  have l: "0 < len" using assms(2) by (simp add: len_def)
  have off: "Offset m 0 = (0, len)" if "cm_size m = length object" for m
    using Offset_eq [of m 0] that fits_bounds(1) [OF assms(1)] by (simp add: len_def)
  have data: "?R 0 len = take (nat chunkSize) object"
    using mr.Reader_range [of 0 len object] l by (auto simp: len_def min_def)
  have eq: "length (take (nat chunkSize) object) = nat len" by (auto simp: len_def chunkSize_def)
  have s1: "fetch_start 0 (demo_open object) = Ok ((demo_open object)\<lparr>ca_chunk := w, ca_fetchers := [Acquiring 0]\<rparr>)"
    using off [OF sz] l by (simp add: fetch_start_def demo_open_def chunk_check_def) (auto simp: fresh_map_def w_def)
  let ?s1 = "(demo_open object)\<lparr>ca_chunk := w, ca_fetchers := [Acquiring 0]\<rparr>"
  let ?s2 = "(demo_open object)\<lparr>ca_chunk := w, ca_fetchers := [Copying 0 0]\<rparr>"
  let ?s3 = "(demo_open object)\<lparr>ca_chunk := w, ca_fetchers := [Copying 0 (nat len)],
    ca_local := overwrite (replicate (length object) 0) 0 (take (nat chunkSize) object)\<rparr>"
  have offw: "Offset w 0 = (0, len)" using off sz by (simp add: w_def)
  have s2: "fetch_acquired 0 ?s1 = ?s2" by (simp add: fetch_acquired_def)
  have s3: "fetch_copy ?R 0 (nat chunkSize) ?s2 = ?s3"
    using offw data eq by (simp add: fetch_copy_def demo_open_def)
  have s4: "fetch_finish 9 0 ?s3 = Ok (demo_fetched object)"
    using offw l by (simp add: fetch_finish_def Done_def w_def demo_open_def demo_fetched_def set_bit_eq)
      (simp add: fresh_map_def)
  have "reach (cache_init object) (cache_next ?R object) (demo_open object)"
    by (rule reach_start) (auto simp: cache_init_def demo_open_def)
  then have "reach (cache_init object) (cache_next ?R object) ?s1"
    by (rule reach_step) (auto simp: cache_next_def intro: cache_step.start [OF _ _ s1])
  then have "reach (cache_init object) (cache_next ?R object) ?s2"
    by (rule reach_step) (use cache_step.acquired [of 0 ?s1 ?R] s2 in \<open>simp add: cache_next_def\<close>)
  moreover have "cache_step ?R ?s2 ?s3"
    using cache_step.copy [of 0 ?s2 ?R "nat chunkSize"] unfolding s3 by simp
  ultimately have "reach (cache_init object) (cache_next ?R object) ?s3"
    by (auto intro: reach_step simp: cache_next_def)
  then show ?thesis
    by (rule reach_step) (use cache_step.finish [OF _ s4, of ?R] in \<open>simp add: cache_next_def\<close>)
qed

lemma demo_fits: "length object \<le> 2 * nat chunkSize \<Longrightarrow> object_fits object"
  by (simp add: object_fits_def chunkSize_def)

lemma demo_done: "bit (cm_bitmap (ca_chunk (demo_fetched object))) 0" "1 \<in> set (cm_closed (ca_chunk (demo_fetched object)))"
  by (simp_all add: demo_fetched_def bit_0)

theorem done_chunks_hold_object_witness:
  "ca_local (demo_fetched [7, 8]) ! 1 = [7, 8] ! 1"
proof (rule done_chunks_hold_object [of "range_get [7, 8]"])
  show f: "object_fits [7, 8]" by (rule demo_fits) (simp add: chunkSize_def)
  show "reach (cache_init [7, 8]) (cache_next (demo_Reader [7, 8]) [7, 8]) (demo_fetched [7, 8])"
    by (rule demo_reach [OF f]) simp
  show "bit (cm_bitmap (ca_chunk (demo_fetched [7, 8]))) (nat (int 1 div chunkSize))"
    using demo_done(1) by (simp add: chunkSize_def)
qed (simp_all add: serves_ranges_def)

theorem read_within_chunk_correct_witness:
  "ReadAt_data 1 1 (demo_fetched [7, 8]) = Some [8]"
proof -
  have f: "object_fits [7, 8]" by (rule demo_fits) (simp add: chunkSize_def)
  have r: "reach (cache_init [7, 8]) (cache_next (demo_Reader [7, 8]) [7, 8]) (demo_fetched [7, 8])"
    by (rule demo_reach [OF f]) simp
  have w: "ReadAt_wait 1 (demo_fetched [7, 8]) = Ok (0, demo_fetched [7, 8])"
    using demo_done(1) by (simp add: ReadAt_wait_def chunk_check_def Offset_def Let_def chunkSize_def)
      (auto simp: demo_fetched_def)
  have "ReadAt_data 1 1 (demo_fetched [7, 8]) = Some (take (nat 1) (drop (nat 1) [7, 8]))"
    by (rule read_within_chunk_correct [OF _ f r w reach_start])
       (simp_all add: serves_ranges_def chunkSize_def, simp add: demo_fetched_def)
  then show ?thesis by simp
qed

text \<open>
  C26. A read that crosses a chunk boundary can return bytes that were never fetched: \<open>ReadAt\<close>
  counts the chunks to fetch from the buffer's length alone and waits for the first one only,
  but reads up to a whole chunk size from its offset.  In a reachable state in which only the
  first chunk has been fetched, a two-byte read at the end of that chunk schedules and waits for
  the first chunk only, does not have to wait, and returns one byte of the object and one byte of
  the unwritten rest of the local file.
\<close>

theorem read_across_chunks_unfetched:
  "\<exists>object ca offset. object_fits object \<and>
     reach (cache_init object) (cache_next (demo_Reader object) object) ca \<and>
     ReadAt_schedule 2 offset = [0] \<and> ReadAt_wait offset ca = Ok (0, ca) \<and> 0 \<in> set (cm_closed (ca_chunk ca)) \<and>
     \<not> bit (cm_bitmap (ca_chunk ca)) 1 \<and>
     ReadAt_data 2 offset ca = Some [1, 0] \<and> take 2 (drop (nat offset) object) = [1, 1]"
proof -
  define N where "N = nat chunkSize"
  have N: "chunkSize = int N" "0 < N" by (simp_all add: N_def chunkSize_def)
  define object :: bytes where "object = replicate N 1 @ [1]"
  let ?ca = "demo_fetched object" and ?off = "chunkSize - 1"
  have f: "object_fits object" by (rule demo_fits) (use N in \<open>simp add: object_def\<close>)
  have zeros: "replicate (length object) (0 :: byte) = replicate N 0 @ [0]"
    by (simp add: object_def replicate_append_same)
  have loc: "ca_local ?ca = replicate N 1 @ [0]"
    by (simp add: demo_fetched_def overwrite_def zeros N) (simp add: object_def)
  have drop: "drop (N - 1) (replicate N x @ [y]) = [x, y]" for x y :: byte
    using N(2) by (cases N) (simp_all flip: replicate_append_same)
  have off: "nat ?off = N - 1" using N by simp
  have c0: "go_div ?off chunkSize = 0" by (simp add: chunkSize_def)
  have "ReadAt_schedule 2 ?off = [0]"
    by (simp add: ReadAt_schedule_def c0 ReadAt_parts.simps [of 0] ReadAt_parts.simps [of 1]) (simp add: chunkSize_def)
  moreover have "snd (Offset (ca_chunk ?ca) 0) \<noteq> 0 \<or> snd (Offset (ca_chunk ?ca) 0) = 0" by blast
  then have "ReadAt_wait ?off ?ca = Ok (0, ?ca)"
    using demo_done(1) [of object] by (auto simp: ReadAt_wait_def c0 chunk_check_def)
  moreover have "ReadAt_data 2 ?off ?ca = Some [1, 0]"
    using N drop [of 1 0] by (simp add: ReadAt_data_def loc nat_diff_distrib) (simp add: N_def chunkSize_def)
  moreover have "take 2 (drop (nat ?off) object) = [1, 1]"
    unfolding off object_def drop by simp
  ultimately show ?thesis
    using f demo_reach [OF f] by (intro exI [of _ object] exI [of _ ?ca] exI [of _ ?off])
      (auto simp: object_def demo_fetched_def fresh_map_def bit_1_iff)
qed

section \<open>The background tasks\<close>

definition chunk_count :: "chunkMap \<Rightarrow> nat" where
  "chunk_count m = nat ((int (cm_size m) + chunkSize - 1) div chunkSize)"

lemma chunk_count_iff: "int p * chunkSize < int (cm_size m) \<longleftrightarrow> p < chunk_count m"
  by (simp add: chunk_count_def chunkSize_def) linarith

definition attempts_of :: "bg_round list \<Rightarrow> nat" where
  "attempts_of rounds = length (filter (\<lambda>r. \<exists>ok. r = BgAttempt ok) rounds)"

text \<open>The attempts made from a chunk and a number of retries on.\<close>

definition attempts_ok :: "chunkMap \<Rightarrow> nat \<Rightarrow> nat \<Rightarrow> (nat \<times> nat \<times> bool) list \<Rightarrow> bool" where
  "attempts_ok m part retry as \<longleftrightarrow>
     distinct (map (\<lambda>(p, r, _). (p, r)) as) \<and>
     (\<forall>(p, r, _) \<in> set as. p < chunk_count m \<and> r \<le> retryLimit \<and> (p = part \<and> retry \<le> r \<or> part < p) \<and>
        (\<forall>k < r. (p = part \<longrightarrow> retry \<le> k) \<longrightarrow> (p, k, False) \<in> set as))"

lemma attempts_ok_Nil [simp]: "attempts_ok m part retry []"
  by (simp add: attempts_ok_def)

lemma attempts_ok_retry:
  assumes a: "attempts_ok m part (Suc retry) as" and "part < chunk_count m" "retry < retryLimit"
  shows "attempts_ok m part retry ((part, retry, False) # as)"
proof -
  have k: "k = retry \<or> Suc retry \<le> k" if "retry \<le> k" for k using that by auto
  have "(part, retry) \<notin> set (map (\<lambda>(p, r, _). (p, r)) as)" using a by (auto simp: attempts_ok_def)
  moreover have rest: "p < chunk_count m \<and> r \<le> retryLimit \<and> (p = part \<and> retry \<le> r \<or> part < p) \<and>
      (\<forall>k < r. (p = part \<longrightarrow> retry \<le> k) \<longrightarrow> (p, k, False) \<in> set ((part, retry, False) # as))"
    if "(p, r, b) \<in> set as" for p r b
  proof -
    have "p < chunk_count m \<and> r \<le> retryLimit \<and> (p = part \<and> Suc retry \<le> r \<or> part < p) \<and>
      (\<forall>k < r. (p = part \<longrightarrow> Suc retry \<le> k) \<longrightarrow> (p, k, False) \<in> set as)"
      using a that unfolding attempts_ok_def by blast
    then show ?thesis using k by auto
  qed
  moreover have "distinct (map (\<lambda>(p, r, _). (p, r)) as)" using a by (simp add: attempts_ok_def)
  ultimately have d: "distinct (map (\<lambda>(p, r, _). (p, r)) ((part, retry, False) # as))" by simp
  show ?thesis
    unfolding attempts_ok_def
  proof (intro conjI d ballI, clarify)
    fix p r b
    assume "(p, r, b) \<in> set ((part, retry, False) # as)"
    then consider "p = part" "r = retry" | "(p, r, b) \<in> set as" by auto
    then show "p < chunk_count m \<and> r \<le> retryLimit \<and> (p = part \<and> retry \<le> r \<or> part < p) \<and>
        (\<forall>k < r. (p = part \<longrightarrow> retry \<le> k) \<longrightarrow> (p, k, False) \<in> set ((part, retry, False) # as))"
      by cases (use assms(2,3) in simp, rule rest)
  qed
qed

lemma attempts_ok_next:
  "attempts_ok m (Suc part) 0 as \<Longrightarrow> part < chunk_count m \<Longrightarrow> retry \<le> retryLimit \<Longrightarrow>
   attempts_ok m part retry ((part, retry, ok) # as)"
  unfolding attempts_ok_def by (force simp: Suc_le_eq)

lemma bgFetchAll_ok: "retry \<le> retryLimit \<Longrightarrow> attempts_ok m part retry (fst (bgFetchAll rounds m part retry))"
proof (induction rounds m part retry rule: bgFetchAll.induct)
  case (1 rounds m part retry)
  show ?case
  proof (cases "part < chunk_count m")
    case False
    then show ?thesis by (subst bgFetchAll.simps) (simp add: chunk_count_iff)
  next
    case c: True
    show ?thesis
    proof (cases rounds)
      case (Cons r rs)
      then show ?thesis
        using 1 c attempts_ok_retry [of m part retry] attempts_ok_next [of m part _ retry]
        by (subst bgFetchAll.simps) (cases r; auto simp: chunk_count_iff split: prod.splits bool.splits)
    qed (use c in \<open>subst bgFetchAll.simps, simp add: chunk_count_iff\<close>)
  qed
qed

lemma bgFetchAll_complete:
  "bgFetchAll rounds m part retry = (as, BgFinished) \<Longrightarrow> part \<le> p \<Longrightarrow> p < chunk_count m \<Longrightarrow>
   \<exists>r. (p, r, True) \<in> set as \<or> (p, r, False) \<in> set as \<and> retryLimit \<le> r"
proof (induction rounds m part retry arbitrary: as rule: bgFetchAll.induct)
  case (1 rounds m part retry)
  have c: "int part * chunkSize < int (cm_size m)" using "1.prems" by (simp add: chunk_count_iff)
  then obtain r rs where r: "rounds = r # rs" using "1.prems"(1) by (cases rounds) (auto simp: bgFetchAll.simps [of "[]"])
  show ?case
  proof (cases r)
    case BgDone
    with "1.prems"(1) c r show ?thesis by (subst (asm) bgFetchAll.simps) simp
  next
    case BgBusy
    with 1 c r show ?thesis by (subst (asm) (3) bgFetchAll.simps) simp
  next
    case (BgAttempt ok)
    let ?next = "if \<not> ok \<and> retry < retryLimit then bgFetchAll rs m part (retry + 1) else bgFetchAll rs m (part + 1) 0"
    obtain as' where as': "as = (part, retry, ok) # as'" "?next = (as', BgFinished)"
      using "1.prems"(1) c r BgAttempt by (subst (asm) bgFetchAll.simps) (auto split: prod.splits)
    show ?thesis
    proof (cases "\<not> ok \<and> retry < retryLimit")
      case True
      with "1.IH"(2) [OF c r BgAttempt] as' "1.prems"(2,3) show ?thesis by fastforce
    next
      case False
      show ?thesis
      proof (cases "p = part")
        case True
        then show ?thesis using as'(1) False by (cases ok) auto
      next
        case p: False
        with "1.IH"(3) [OF c r BgAttempt False, of as'] as' "1.prems"(2,3) False show ?thesis by fastforce
      qed
    qed
  qed
qed

lemma bgFetchAll_finishes:
  "BgDone \<notin> set rounds \<Longrightarrow> 6 * (chunk_count m - part) \<le> attempts_of rounds + retry \<Longrightarrow> retry \<le> retryLimit \<Longrightarrow>
   snd (bgFetchAll rounds m part retry) = BgFinished"
proof (induction rounds m part retry rule: bgFetchAll.induct)
  case (1 rounds m part retry)
  show ?case
  proof (cases "int part * chunkSize < int (cm_size m)")
    case False
    then show ?thesis by (subst bgFetchAll.simps) simp
  next
    case c: True
    then have p: "part < chunk_count m" by (simp add: chunk_count_iff)
    then have n: "6 * (chunk_count m - part) = 6 * (chunk_count m - Suc part) + 6" by simp
    from p "1.prems" obtain r rs where r: "rounds = r # rs" by (cases rounds) (auto simp: attempts_of_def retryLimit_def)
    show ?thesis
    proof (cases r)
      case BgBusy
      then show ?thesis using "1.IH"(1) [OF c r BgBusy] "1.prems" r c by (subst bgFetchAll.simps) (simp add: attempts_of_def)
    next
      case (BgAttempt ok)
      have a: "attempts_of rounds = Suc (attempts_of rs)" using r BgAttempt by (simp add: attempts_of_def)
      have "snd (if \<not> ok \<and> retry < retryLimit then bgFetchAll rs m part (retry + 1) else bgFetchAll rs m (part + 1) 0) = BgFinished"
        using "1.IH"(2,3) [OF c r BgAttempt] "1.prems" r n a by (auto simp: retryLimit_def)
      then show ?thesis using c r BgAttempt by (subst bgFetchAll.simps) (auto split: prod.splits)
    qed (use "1.prems"(1) r in simp)
  qed
qed

lemma bgFetchAll_busy:
  "set rounds \<subseteq> {BgBusy} \<Longrightarrow> part < chunk_count m \<Longrightarrow> bgFetchAll rounds m part retry = ([], BgRunning)"
proof (induction rounds)
  case Nil
  then show ?case by (subst bgFetchAll.simps) (simp add: chunk_count_iff)
next
  case (Cons r rs)
  then show ?case by (subst bgFetchAll.simps) (simp add: chunk_count_iff)
qed

text \<open>
  C27. The background fetch is bounded, and exhaustive unless it is stopped or starved: an attempt is
  made for a chunk of the object, at most six for each and each further one only after a failure;
  with the context not done and six rounds without client activity for each chunk the loop ends, and
  then every chunk has been attempted until a success or six failures.  While there is activity in
  every round it makes no attempt at all.
\<close>

theorem bg_fetch_attempts:
  assumes "bgFetchAll rounds m 0 0 = (as, result)"
  shows "distinct (map (\<lambda>(p, r, _). (p, r)) as) \<and>
    (\<forall>(p, r, _) \<in> set as. int p * chunkSize < int (cm_size m) \<and> r \<le> 5 \<and> (\<forall>k < r. (p, k, False) \<in> set as)) \<and>
    (BgDone \<notin> set rounds \<and> 6 * chunk_count m \<le> attempts_of rounds \<longrightarrow> result = BgFinished) \<and>
    (result = BgFinished \<longrightarrow> (\<forall>p. int p * chunkSize < int (cm_size m) \<longrightarrow> (\<exists>r. (p, r, True) \<in> set as) \<or> (p, 5, False) \<in> set as)) \<and>
    (set rounds \<subseteq> {BgBusy} \<and> 0 < cm_size m \<longrightarrow> as = [] \<and> result = BgRunning)"
proof -
  have ok: "attempts_ok m 0 0 as" using bgFetchAll_ok [of 0 m 0 rounds] assms by simp
  have bound: "p < chunk_count m \<and> r \<le> 5 \<and> (\<forall>k < r. (p, k, False) \<in> set as)" if "(p, r, b) \<in> set as" for p r b
    using ok that unfolding attempts_ok_def retryLimit_def by fastforce
  have "(\<exists>r. (p, r, True) \<in> set as) \<or> (p, 5, False) \<in> set as" if "result = BgFinished" "p < chunk_count m" for p
    using bgFetchAll_complete [of rounds m 0 0 as p] assms that bound by (fastforce simp: retryLimit_def)
  moreover have "0 < chunk_count m" if "0 < cm_size m" using that chunk_count_iff [of 0 m] by simp
  ultimately show ?thesis
    using ok bound bgFetchAll_finishes [of rounds m 0 0] bgFetchAll_busy [of rounds 0 m 0] assms
    by (auto simp: attempts_ok_def chunk_count_iff)
qed

theorem bg_fetch_attempts_witness:
  "bgFetchAll [BgBusy, BgAttempt False, BgAttempt True] (fresh_map ''m'' 1) 0 0 = ([(0, 0, False), (0, 1, True)], BgFinished) \<and>
   distinct (map (\<lambda>(p, r, _). (p, r)) [(0 :: nat, 0 :: nat, False), (0, 1, True)])"
proof -
  have "bgFetchAll [BgBusy, BgAttempt False, BgAttempt True] (fresh_map ''m'' 1) 0 0 = ([(0, 0, False), (0, 1, True)], BgFinished)"
    by (simp add: bgFetchAll.simps fresh_map_def uint64_def chunkSize_def retryLimit_def)
  from this bg_fetch_attempts [OF this] show ?thesis by blast
qed

lemma Done_keeps: "Done now c m = Ok m' \<Longrightarrow> bit (cm_bitmap m) i \<Longrightarrow> bit (cm_bitmap m') i"
  by (simp add: bit_Done)

lemma each_Done_keeps: "each (Done now) cs m = Ok m' \<Longrightarrow> bit (cm_bitmap m) i \<Longrightarrow> bit (cm_bitmap m') i"
proof (induction cs arbitrary: m)
  case (Cons c cs)
  then show ?case using Done_keeps by (cases "Done now c m") fastforce+
qed simp

lemma bgIntegrity_waits: "bgIntegrity now es part False m = Ok (checks, m') \<Longrightarrow> checks = []"
proof (induction now es part "False" m rule: bgIntegrity.induct)
  case (3 now c es part m)
  then show ?case by (cases "Done now c m") simp_all
qed simp_all

lemma After_none: "After 0 m = Ok None \<Longrightarrow> 0 < i \<Longrightarrow> \<not> bit (cm_bitmap m) i"
  using After_loop_Ok [of 1 "cm_bitmap m"] by (auto simp: After_def dest!: spec [of _ "int i"])

text \<open>The rounds of one verification.\<close>

lemma bgIntegrity_round:
  assumes "bgIntegrity now (TimerElapsed fetched ok # es) 0 True m = Ok (checks, m')"
  obtains m1 rest where "\<And>i. 0 < i \<Longrightarrow> bit (cm_bitmap m) i \<Longrightarrow> bit (cm_bitmap m1) i" "checks = (0, ok) # rest"
    "After 0 m1 = Ok None \<and> bgIntegrity now es 0 True m1 = Ok (rest, m') \<or> After 0 m1 \<noteq> Ok None \<and> rest = []"
proof -
  obtain m0 where m0: "each (Done now) fetched m = Ok m0" using assms by (cases "each (Done now) fetched m") simp_all
  obtain m1 where m1: "(if ok then Ok m0 else Lost now 0 m0) = Ok m1" using assms m0 by (cases ok) (simp_all add: Lost_def)
  obtain n where n: "After 0 m1 = Ok n" using assms m0 m1 by (cases "After 0 m1") simp_all
  have keep: "bit (cm_bitmap m1) i" if "0 < i" "bit (cm_bitmap m) i" for i
    using each_Done_keeps [OF m0 that(2)] m1 bit_Lost [of now 0 m0 m1 i] that(1) by (auto split: if_splits)
  show thesis
  proof (cases n)
    case None
    then obtain rest where "bgIntegrity now es 0 True m1 = Ok (rest, m')" "checks = (0, ok) # rest"
      using assms m0 m1 n by (cases "bgIntegrity now es 0 True m1") (auto split: prod.splits)
    then show thesis using n None by (intro that [OF keep]) simp_all
  next
    case (Some p)
    then obtain rest where "bgIntegrity now es p False m1 = Ok (rest, m')" "checks = (0, ok) # rest"
      using assms m0 m1 n by (cases "bgIntegrity now es p False m1") (auto split: prod.splits)
    moreover from this(1) have "rest = []" by (rule bgIntegrity_waits)
    ultimately show thesis using n Some by (intro that [OF keep]) simp_all
  qed
qed

lemma bgIntegrity_first:
  "bgIntegrity now es 0 True m = Ok (checks, m') \<Longrightarrow>
   (\<forall>x \<in> set checks. fst x = 0) \<and> (\<forall>i > 0. bit (cm_bitmap m) i \<longrightarrow> length checks \<le> 1)"
proof (induction es arbitrary: m checks)
  case (Cons e es)
  show ?case
  proof (cases e)
    case (FetchedElsewhere c)
    then obtain m1 where "Done now c m = Ok m1" "bgIntegrity now es 0 True m1 = Ok (checks, m')"
      using Cons.prems by (cases "Done now c m") simp_all
    with Cons.IH Done_keeps show ?thesis by blast
  next
    case (TimerElapsed fetched ok)
    from bgIntegrity_round [OF Cons.prems [unfolded this]] obtain m1 rest where
      m1: "\<And>i. 0 < i \<Longrightarrow> bit (cm_bitmap m) i \<Longrightarrow> bit (cm_bitmap m1) i" "checks = (0, ok) # rest"
        "After 0 m1 = Ok None \<and> bgIntegrity now es 0 True m1 = Ok (rest, m') \<or> After 0 m1 \<noteq> Ok None \<and> rest = []" by blast
    from m1(3) show ?thesis
    proof
      assume a: "After 0 m1 = Ok None \<and> bgIntegrity now es 0 True m1 = Ok (rest, m')"
      then have "\<not> bit (cm_bitmap m) i" if "0 < i" for i using After_none [of m1 i] m1(1) that by blast
      with Cons.IH [of m1 rest] a m1(2) show ?thesis by auto
    qed (use m1(2) in simp)
  qed (use Cons.prems in simp)
qed simp

text \<open>
  C28. The background scrub never checks more than the first chunk: whatever is fetched and whatever
  the verifications say, every chunk that is verified is chunk 0; and once another chunk is
  available, at most one more verification takes place until the cache is closed, because the timer
  is set again only when no further chunk is found.
\<close>

theorem scrub_stalls_after_first_chunk:
  assumes "bgIntegrity now es 0 True m = Ok (checks, m')"
  shows "(\<forall>x \<in> set checks. fst x = 0) \<and> (\<forall>i > 0. bit (cm_bitmap m) i \<longrightarrow> length checks \<le> 1)"
  using assms by (rule bgIntegrity_first)

theorem scrub_stalls_after_first_chunk_witness:
  "\<exists>m'. bgIntegrity 0 [TimerElapsed [1] True, TimerElapsed [] True, TimerElapsed [] True] 0 True
      ((fresh_map ''m'' 100000000)\<lparr>cm_bitmap := 3\<rparr>) = Ok ([(0, True)], m') \<and> length [(0 :: chunk, True)] \<le> 1"
proof -
  let ?m = "(fresh_map ''m'' 100000000)\<lparr>cm_bitmap := 3\<rparr>"
  obtain m' where r: "bgIntegrity 0 [TimerElapsed [1] True, TimerElapsed [] True, TimerElapsed [] True] 0 True ?m = Ok ([(0, True)], m')"
  proof -
    have "After 0 ?m = Ok (Some 1)" using After_loop_Ok [of 1 3] by (auto simp: After_def bit_iff_odd)
    then show thesis using that by (simp add: Done_def fresh_map_def set_bit_nat_def numeral_3_eq_3 [symmetric])
  qed
  from scrub_stalls_after_first_chunk [OF this] have "length [(0 :: chunk, True)] \<le> 1"
    by (auto simp: bit_iff_odd dest!: spec [of _ 1])
  with r show ?thesis by blast
qed

end
