(* ===== verification/ConnQueue.thy ===== *)
theory ConnQueue
  imports Prelude
begin

text \<open>
  The two-level connection queue of the S3 cache (\<open>src/nbd/s3/queue.go\<close>).  A buffered channel
  is the number of tokens in it; a \<open>select\<close> is one atomic step per branch, and every step that
  can block is a partial operation.  \<open>queue_step\<close> interleaves any number of clients.
\<close>

section \<open>State\<close>

definition connLimitPerObject :: nat where "connLimitPerObject = 16"
definition connLimitGlobal :: nat where "connLimitGlobal = 64"

record queue =
  q_size :: nat
  q_global :: nat
  q_normal :: nat
  q_low :: nat
  q_closed :: bool

definition NewQueue :: "nat \<Rightarrow> queue" where
  "NewQueue n = \<lparr>q_size = n, q_global = 0, q_normal = 0, q_low = 0, q_closed = False\<rparr>"

definition queue_Close :: "queue \<Rightarrow> queue" where
  "queue_Close q = q\<lparr>q_closed := True\<rparr>"

section \<open>The steps of Acquire, AcquireLowPriority and Release\<close>

text \<open>\<open>None\<close>: the channel operation of this branch cannot proceed now.\<close>

definition send_normal :: "queue \<Rightarrow> queue option" where
  "send_normal q = (if q_normal q < q_size q then Some (q\<lparr>q_normal := q_normal q + 1\<rparr>) else None)"

definition send_low :: "queue \<Rightarrow> queue option" where
  "send_low q = (if q_low q < q_size q then Some (q\<lparr>q_low := q_low q + 1\<rparr>) else None)"

definition send_global :: "queue \<Rightarrow> queue option" where
  "send_global q = (if q_global q < q_size q then Some (q\<lparr>q_global := q_global q + 1\<rparr>) else None)"

definition recv_global :: "queue \<Rightarrow> queue option" where
  "recv_global q = (if 0 < q_global q then Some (q\<lparr>q_global := q_global q - 1\<rparr>) else None)"

definition recv_normal :: "queue \<Rightarrow> queue option" where
  "recv_normal q = (if 0 < q_normal q then Some (q\<lparr>q_normal := q_normal q - 1\<rparr>) else None)"

definition recv_low :: "queue \<Rightarrow> queue option" where
  "recv_low q = (if 0 < q_low q then Some (q\<lparr>q_low := q_low q - 1\<rparr>) else None)"

text \<open>Where a client stands: before the first and before the second select of \<open>Acquire\<close> or
  \<open>AcquireLowPriority\<close>, between the calls, and before the second and the third select of
  \<open>Release\<close>.\<close>

datatype client = WantNormal | WantLow | Have | Holding | Releasing | Blocked

text \<open>
  \<open>advance client q\<close>: the successful branches of the select a client stands at.  A client
  that has released its last token is gone (\<open>None\<close>).  The default branch of the second select
  of \<open>Release\<close> is taken when no normal token is there.
\<close>

definition opt_list :: "'a option \<Rightarrow> 'a list" where
  "opt_list x = (case x of None \<Rightarrow> [] | Some y \<Rightarrow> [y])"

lemma set_opt_list [simp]: "y \<in> set (opt_list x) \<longleftrightarrow> x = Some y"
  by (auto simp: opt_list_def split: option.splits)

fun advance :: "client \<Rightarrow> queue \<Rightarrow> (client option \<times> queue) list" where
  "advance WantNormal q = map (Pair (Some Have)) (opt_list (send_normal q))"
| "advance WantLow q = map (Pair (Some Have)) (opt_list (send_low q))"
| "advance Have q = map (Pair (Some Holding)) (opt_list (send_global q))"
| "advance Holding q = map (Pair (Some Releasing)) (opt_list (recv_global q))"
| "advance Releasing q =
     (case recv_normal q of Some q' \<Rightarrow> [(None, q')] | None \<Rightarrow> [(Some Blocked, q)])"
| "advance Blocked q = map (Pair None) (opt_list (recv_normal q) @ opt_list (recv_low q))"

text \<open>
  The \<open>ctx.Done()\<close> branches: a client whose context is cancelled leaves \<open>Acquire\<close> at either
  select; when the queue is closed a client leaves at any select, whatever it holds.
\<close>

definition may_leave :: "client \<Rightarrow> queue \<Rightarrow> bool" where
  "may_leave c q \<longleftrightarrow> c = WantNormal \<or> c = WantLow \<or> c = Have \<or> q_closed q \<and> (c = Holding \<or> c = Blocked)"

definition leave :: "nat \<Rightarrow> client list \<Rightarrow> client list" where
  "leave i cs = take i cs @ drop (Suc i) cs"

inductive queue_step :: "queue \<times> client list \<Rightarrow> queue \<times> client list \<Rightarrow> bool" where
  enter: "c = WantNormal \<or> c = WantLow \<Longrightarrow> queue_step (q, cs) (q, cs @ [c])"
| move: "i < length cs \<Longrightarrow> (Some c, q') \<in> set (advance (cs ! i) q) \<Longrightarrow> queue_step (q, cs) (q', cs[i := c])"
| gone: "i < length cs \<Longrightarrow> (None, q') \<in> set (advance (cs ! i) q) \<Longrightarrow> queue_step (q, cs) (q', leave i cs)"
| cancel: "i < length cs \<Longrightarrow> may_leave (cs ! i) q \<Longrightarrow> queue_step (q, cs) (q, leave i cs)"
| close: "queue_step (q, cs) (queue_Close q, cs)"

inductive_cases queue_stepE: "queue_step (q, cs) s'"

section \<open>Several queues\<close>

text \<open>
  \<open>Acquire(ctx, queues...)\<close> and its low-priority twin: \<open>ok i\<close> tells whether acquiring queue
  \<open>i\<close> succeeds; the result lists what happened.
\<close>

datatype queue_event = Acquired nat | Released nat

function Acquire_from :: "(nat \<Rightarrow> bool) \<Rightarrow> nat \<Rightarrow> nat \<Rightarrow> bool \<times> queue_event list" where
  "Acquire_from ok n i =
     (if i < n
      then if ok i then (let (r, evs) = Acquire_from ok n (i + 1) in (r, Acquired i # evs))
        else (False, map Released [0..<i])
      else (True, []))"
  by pat_completeness auto
termination
  by (relation "measure (\<lambda>(ok, n, i). n - i)") auto

declare Acquire_from.simps [simp del]

definition Acquire_queues :: "(nat \<Rightarrow> bool) \<Rightarrow> nat \<Rightarrow> bool \<times> queue_event list" where
  "Acquire_queues ok n = Acquire_from ok n 0"

definition Release_queues :: "nat \<Rightarrow> queue_event list" where
  "Release_queues n = map Released [0..<n]"

section \<open>The invariant\<close>

definition clients :: "client list \<Rightarrow> client \<Rightarrow> nat" where
  "clients cs c = count_list cs c"

text \<open>
  Every client that may still give a token back is covered by one.  Equality does not hold: a
  client that is cancelled between its two selects leaves its first token behind.
\<close>

definition queue_ok :: "queue \<times> client list \<Rightarrow> bool" where
  "queue_ok s = (case s of (q, cs) \<Rightarrow>
     q_global q \<le> q_size q \<and> clients cs Holding \<le> q_global q \<and>
     clients cs Have + clients cs Holding + clients cs Releasing + clients cs Blocked \<le> q_normal q + q_low q)"

lemma count_list_replace:
  "i < length cs \<Longrightarrow> count_list (cs[i := c]) x + (if cs ! i = x then 1 else 0) =
     count_list cs x + (if c = x then 1 else 0)"
proof (induction cs arbitrary: i)
  case (Cons a cs)
  then show ?case by (cases i) force+
qed simp

lemma count_list_leave:
  "i < length cs \<Longrightarrow> count_list (leave i cs) x + (if cs ! i = x then 1 else 0) = count_list cs x"
  unfolding leave_def by (subst (3) id_take_nth_drop [of i cs]) (simp_all add: count_list_append)

lemmas channel_defs = send_normal_def send_low_def send_global_def recv_global_def recv_normal_def recv_low_def

lemma advance_tokens:
  assumes "(c', q') \<in> set (advance c q)"
  shows "q_size q' = q_size q \<and>
    q_global q' + (if c = Holding then 1 else 0) = q_global q + (if c' = Some Holding then 1 else 0) \<and>
    (q_global q \<le> q_size q \<longrightarrow> q_global q' \<le> q_size q) \<and>
    q_normal q' + q_low q' + (if c' = None then 1 else 0) =
      q_normal q + q_low q + (if c = WantNormal \<or> c = WantLow then 1 else 0) \<and>
    (c' = None \<longrightarrow> c = Releasing \<or> c = Blocked) \<and>
    (c = WantNormal \<or> c = WantLow \<longleftrightarrow> c' = Some Have) \<and> c' \<noteq> Some WantNormal \<and> c' \<noteq> Some WantLow"
  using assms by (cases c) (auto simp: channel_defs split: if_splits option.splits)

lemma clients_simps [simp]:
  "clients (cs @ [c]) x = clients cs x + (if c = x then 1 else 0)"
  by (simp add: clients_def)

lemma queue_ok_replace:
  assumes "queue_ok (q, cs)" and i: "i < length cs" and a: "(Some c, q') \<in> set (advance (cs ! i) q)"
  shows "queue_ok (q', cs[i := c])"
proof -
  note n = count_list_replace [OF i, of c Have] count_list_replace [OF i, of c Holding]
    count_list_replace [OF i, of c Releasing] count_list_replace [OF i, of c Blocked]
  note t = advance_tokens [OF a]
  show ?thesis
    using assms(1) n t unfolding queue_ok_def clients_def
    by (cases c; cases "cs ! i") (simp_all del: count_list.simps)
qed

lemma queue_ok_gone:
  assumes "queue_ok (q, cs)" and i: "i < length cs" and a: "(None, q') \<in> set (advance (cs ! i) q)"
  shows "queue_ok (q', leave i cs)"
proof -
  note n = count_list_leave [OF i, of Have] count_list_leave [OF i, of Holding]
    count_list_leave [OF i, of Releasing] count_list_leave [OF i, of Blocked]
  note t = advance_tokens [OF a]
  show ?thesis
    using assms(1) n t unfolding queue_ok_def clients_def
    by (cases "cs ! i") (simp_all del: count_list.simps)
qed

lemma queue_ok_leave: "queue_ok (q, cs) \<Longrightarrow> i < length cs \<Longrightarrow> queue_ok (q, leave i cs)"
  using count_list_leave [of i cs Have] count_list_leave [of i cs Holding]
    count_list_leave [of i cs Releasing] count_list_leave [of i cs Blocked]
  unfolding queue_ok_def clients_def by (auto split: if_splits)

lemma queue_ok_step: "queue_ok s \<Longrightarrow> queue_step s s' \<Longrightarrow> queue_ok s'"
proof (cases s)
  case (Pair q cs)
  assume ok: "queue_ok s" and step: "queue_step s s'"
  from step [unfolded Pair] show ?thesis
  proof (rule queue_stepE)
    show ?thesis if "s' = (q, cs @ [c])" "c = WantNormal \<or> c = WantLow" for c
      using ok that unfolding Pair queue_ok_def by auto
    show ?thesis if "s' = (q', cs[i := c])" "i < length cs" "(Some c, q') \<in> set (advance (cs ! i) q)" for i c q'
      using ok that unfolding Pair by (simp add: queue_ok_replace)
    show ?thesis if "s' = (q', leave i cs)" "i < length cs" "(None, q') \<in> set (advance (cs ! i) q)" for i q'
      using ok that unfolding Pair by (simp add: queue_ok_gone)
    show ?thesis if "s' = (q, leave i cs)" "i < length cs" "may_leave (cs ! i) q" for i
      using ok that unfolding Pair by (simp add: queue_ok_leave)
    show ?thesis if "s' = (queue_Close q, cs)"
      using ok that unfolding Pair by (simp add: queue_ok_def queue_Close_def)
  qed
qed

definition queue_init :: "nat \<Rightarrow> queue \<times> client list \<Rightarrow> bool" where
  "queue_init n s \<longleftrightarrow> s = (NewQueue n, [])"

lemma queue_step_size: "queue_step s s' \<Longrightarrow> q_size (fst s') = q_size (fst s)"
  by (induction rule: queue_step.induct) (auto dest: advance_tokens simp: queue_Close_def)

interpretation cq: invariant_system "queue_init n" queue_step "\<lambda>s. queue_ok s \<and> q_size (fst s) = n" for n
proof unfold_locales
  show "queue_ok s \<and> q_size (fst s) = n" if "queue_init n s" for s
    using that by (simp add: queue_init_def queue_ok_def NewQueue_def clients_def)
  show "queue_ok s' \<and> q_size (fst s') = n" if "queue_ok s \<and> q_size (fst s) = n" "queue_step s s'" for s s'
    using that queue_ok_step [of s s'] queue_step_size [of s s'] by simp
qed

section \<open>Properties\<close>

text \<open>
  C11. The queue limits concurrency and a release never gets stuck: in every reachable state at
  most \<open>size\<close> clients hold a connection, a client that holds one finds a global token to take
  back, and a client at the last select of \<open>Release\<close> finds a normal or a low priority token.
\<close>

theorem queue_limits_and_releases:
  assumes "reach (queue_init n) queue_step (q, cs)"
  shows "clients cs Holding \<le> n \<and>
    (\<forall>c \<in> set cs. c = Holding \<or> c = Releasing \<or> c = Blocked \<longrightarrow> advance c q \<noteq> [])"
proof -
  have ok: "queue_ok (q, cs)" "q_size q = n" using cq.reach_inv [OF assms] by simp_all
  have pos: "0 < clients cs c" if "c \<in> set cs" for c using that by (metis clients_def count_list_0_iff gr0I)
  have "advance c q \<noteq> []" if "c \<in> set cs" "c = Holding \<or> c = Releasing \<or> c = Blocked" for c
    using ok(1) pos [OF that(1)] that(2)
    by (auto simp: queue_ok_def opt_list_def channel_defs split: option.splits if_splits)
  with ok show ?thesis by (auto simp: queue_ok_def)
qed

theorem queue_limits_and_releases_witness:
  "\<exists>q. reach (queue_init 1) queue_step (q, [Holding]) \<and> clients [Holding] Holding \<le> 1 \<and> advance Holding q \<noteq> []"
proof -
  let ?q1 = "(NewQueue 1)\<lparr>q_normal := 1\<rparr>" and ?q2 = "(NewQueue 1)\<lparr>q_normal := 1, q_global := 1\<rparr>"
  have r: "reach (queue_init 1) queue_step (NewQueue 1, [])" by (rule reach_start) (simp add: queue_init_def)
  have s1: "queue_step (NewQueue 1, []) (NewQueue 1, [WantNormal])" using queue_step.enter [of WantNormal _ "[]"] by simp
  have s2: "queue_step (NewQueue 1, [WantNormal]) (?q1, [Have])"
    using queue_step.move [of 0 "[WantNormal]" Have ?q1] by (simp add: send_normal_def NewQueue_def)
  have s3: "queue_step (?q1, [Have]) (?q2, [Holding])"
    using queue_step.move [of 0 "[Have]" Holding ?q2] by (simp add: send_global_def NewQueue_def)
  have h: "reach (queue_init 1) queue_step (?q2, [Holding])"
    by (rule reach_step [OF reach_step [OF reach_step [OF r s1] s2] s3])
  with queue_limits_and_releases [OF h] show ?thesis by auto
qed

text \<open>A client that enters, takes its first token and is cancelled leaves the token behind.\<close>

lemma leak_one:
  assumes c: "c = WantNormal \<or> c = WantLow" and a: "(Some Have, q') \<in> set (advance c q)"
  shows "reach ((=) (q, [])) queue_step (q', [])"
proof -
  have r: "reach ((=) (q, [])) queue_step (q, [])" by (rule reach_start) simp
  have s1: "queue_step (q, []) (q, [c])" using queue_step.enter [OF c, of q "[]"] by simp
  have s2: "queue_step (q, [c]) (q', [Have])" using queue_step.move [of 0 "[c]" Have q' q] a by simp
  have s3: "queue_step (q', [Have]) (q', [])"
    using queue_step.cancel [of 0 "[Have]" q'] by (simp add: may_leave_def leave_def)
  show ?thesis by (rule reach_step [OF reach_step [OF reach_step [OF r s1] s2] s3])
qed

definition leaked :: "nat \<Rightarrow> nat \<Rightarrow> nat \<Rightarrow> queue" where
  "leaked n k l = (NewQueue n)\<lparr>q_normal := k, q_low := l\<rparr>"

lemma leak_normal: "k \<le> n \<Longrightarrow> reach (queue_init n) queue_step (leaked n k 0, [])"
proof (induction k)
  case 0
  then show ?case by (auto simp: queue_init_def NewQueue_def leaked_def)
next
  case (Suc k)
  have "reach ((=) (leaked n k 0, [])) queue_step (leaked n (Suc k) 0, [])"
    by (rule leak_one [of WantNormal]) (use Suc.prems in \<open>simp_all add: leaked_def NewQueue_def send_normal_def\<close>)
  with Suc show ?case using reach_trans [OF Suc.IH] by simp
qed

lemma leak_both: "l \<le> n \<Longrightarrow> reach (queue_init n) queue_step (leaked n n l, [])"
proof (induction l)
  case 0
  then show ?case using leak_normal [of n n] by simp
next
  case (Suc l)
  have "reach ((=) (leaked n n l, [])) queue_step (leaked n n (Suc l), [])"
    by (rule leak_one [of WantLow]) (use Suc.prems in \<open>simp_all add: leaked_def NewQueue_def send_low_def\<close>)
  with Suc show ?case using reach_trans [OF Suc.IH] by simp
qed

text \<open>Both channels are full and nobody is left who could take a token out of them.\<close>

definition stuck :: "queue \<times> client list \<Rightarrow> bool" where
  "stuck s = (case s of (q, cs) \<Rightarrow> q_normal q = q_size q \<and> q_low q = q_size q \<and> set cs \<subseteq> {WantNormal, WantLow})"

lemma stuck_advance: "stuck (q, cs) \<Longrightarrow> c = WantNormal \<or> c = WantLow \<Longrightarrow> advance c q = []"
  by (auto simp: stuck_def channel_defs opt_list_def)

lemma stuck_step: "queue_step s s' \<Longrightarrow> stuck s \<Longrightarrow> stuck s'"
proof (induction rule: queue_step.induct)
  case (move i cs c q' q)
  then have "cs ! i = WantNormal \<or> cs ! i = WantLow" using nth_mem by (fastforce simp: stuck_def)
  with move stuck_advance show ?case by fastforce
next
  case (gone i cs q' q)
  then have "cs ! i = WantNormal \<or> cs ! i = WantLow" using nth_mem by (fastforce simp: stuck_def)
  with gone stuck_advance show ?case by fastforce
next
  case (cancel i cs q)
  then show ?case by (auto simp: stuck_def leave_def dest: in_set_takeD in_set_dropD)
qed (auto simp: stuck_def queue_Close_def)

interpretation sq: invariant_system "(=) (leaked n n n, [])" queue_step stuck for n
proof
  show "stuck s" if "(leaked n n n, []) = s" for s using that by (auto simp: stuck_def leaked_def NewQueue_def)
qed (rule stuck_step)

text \<open>
  C29. Cancelled clients use the queue up for good: for every size the queue can reach, by clients
  whose context is cancelled between the two selects of \<open>Acquire\<close> and of \<open>AcquireLowPriority\<close>, a
  state in which nobody holds or waits for anything and the queue is not closed, and from which no
  client gets past the first select of either call, whatever happens afterwards.
\<close>

theorem cancelled_acquire_leaks:
  "\<exists>q. reach (queue_init n) queue_step (q, []) \<and> \<not> q_closed q \<and> q_global q = 0 \<and>
     (\<forall>q' cs. reach ((=) (q, [])) queue_step (q', cs) \<longrightarrow>
        set cs \<subseteq> {WantNormal, WantLow} \<and> advance WantNormal q' = [] \<and> advance WantLow q' = [])"
proof (intro exI conjI allI impI)
  show "reach (queue_init n) queue_step (leaked n n n, [])" by (rule leak_both) simp
  show "\<not> q_closed (leaked n n n)" "q_global (leaked n n n) = 0" by (simp_all add: leaked_def NewQueue_def)
  fix q' cs
  assume "reach ((=) (leaked n n n, [])) queue_step (q', cs)"
  then have s: "stuck (q', cs)" by (rule sq.reach_inv)
  then show "set cs \<subseteq> {WantNormal, WantLow}" by (simp add: stuck_def)
  show "advance WantNormal q' = []" "advance WantLow q' = []" using stuck_advance [OF s] by blast+
qed

theorem cancelled_acquire_leaks_witness:
  "\<exists>q. reach (queue_init connLimitPerObject) queue_step (q, []) \<and> \<not> q_closed q \<and> advance WantNormal q = [] \<and> advance WantLow q = []"
proof -
  obtain q where q: "reach (queue_init connLimitPerObject) queue_step (q, [])" "\<not> q_closed q"
    "\<forall>q' cs. reach ((=) (q, [])) queue_step (q', cs) \<longrightarrow>
        set cs \<subseteq> {WantNormal, WantLow} \<and> advance WantNormal q' = [] \<and> advance WantLow q' = []"
    using cancelled_acquire_leaks [of connLimitPerObject] by blast
  have "reach ((=) (q, [])) queue_step (q, [])" by (rule reach_self)
  with q show ?thesis by blast
qed

lemma Acquire_from_eq:
  "Acquire_from ok n i =
     (case filter (\<lambda>k. \<not> ok k) [i..<n] of
        [] \<Rightarrow> (True, map Acquired [i..<n])
      | k # _ \<Rightarrow> (False, map Acquired [i..<k] @ map Released [0..<k]))"
proof (induction ok n i rule: Acquire_from.induct)
  case (1 ok n i)
  show ?case
  proof (cases "i < n \<and> ok i")
    case True
    then have u: "[i..<n] = i # [Suc i..<n]" by (simp add: upt_conv_Cons)
    have f: "i < k" if "filter (\<lambda>k. \<not> ok k) [Suc i..<n] = k # ks" for k ks
    proof -
      have "k \<in> set (filter (\<lambda>k. \<not> ok k) [Suc i..<n])" unfolding that by simp
      then show ?thesis by simp
    qed
    have e: "Acquire_from ok n i = (let (r, evs) = Acquire_from ok n (Suc i) in (r, Acquired i # evs))"
      using True by (subst Acquire_from.simps) simp
    have IH: "Acquire_from ok n (Suc i) = (case filter (\<lambda>k. \<not> ok k) [Suc i..<n] of
        [] \<Rightarrow> (True, map Acquired [Suc i..<n])
      | k # _ \<Rightarrow> (False, map Acquired [Suc i..<k] @ map Released [0..<k]))"
      using 1 True unfolding Suc_eq_plus1 by blast
    show ?thesis
    proof (cases "filter (\<lambda>k. \<not> ok k) [Suc i..<n]")
      case Nil
      with True e IH u show ?thesis by simp
    next
      case (Cons k ks)
      then have "[i..<k] = i # [Suc i..<k]" using f by (simp add: upt_conv_Cons)
      with Cons True e IH u show ?thesis by simp
    qed
  next
    case False
    then show ?thesis using upt_conv_Cons [of i n] by (subst Acquire_from.simps) auto
  qed
qed

text \<open>
  C30. Acquiring several queues is all or nothing: if one of them cannot be acquired, exactly
  the queues acquired before it are released again.
\<close>

theorem acquire_queues_all_or_nothing:
  "Acquire_queues ok n =
     (case filter (\<lambda>i. \<not> ok i) [0..<n] of
        [] \<Rightarrow> (True, map Acquired [0..<n])
      | i # _ \<Rightarrow> (False, map Acquired [0..<i] @ map Released [0..<i]))"
  unfolding Acquire_queues_def by (subst Acquire_from_eq) simp

end
