(* ===== verification/Negotiate.thy ===== *)
theory Negotiate
  imports Binary
begin

text \<open>
  The NBD protocol up to the transmission phase (\<open>src/nbd/server/const.go\<close>, \<open>util.go\<close>,
  \<open>proto_negotiate.go\<close>, \<open>src/nbd/buffer\<close>): constants, the connection, handshake and option
  haggling.

  A connection is what the client has still to send and what the server has sent.  Reading past
  the end of the input is the end of the connection; writing always succeeds.
\<close>

section \<open>Constants (const.go)\<close>

definition NBDMAGIC :: nat where "NBDMAGIC = 0x4e42444d41474943"
definition IHAVEOPT :: nat where "IHAVEOPT = 0x49484156454F5054"
definition NBD_REQUEST_MAGIC :: nat where "NBD_REQUEST_MAGIC = 0x25609513"
definition NBD_SIMPLE_REPLY_MAGIC :: nat where "NBD_SIMPLE_REPLY_MAGIC = 0x67446698"

definition NBD_FLAG_FIXED_NEWSTYLE :: nat where "NBD_FLAG_FIXED_NEWSTYLE = 1"

definition NBD_FLAG_HAS_FLAGS :: nat where "NBD_FLAG_HAS_FLAGS = 1"
definition NBD_FLAG_READ_ONLY :: nat where "NBD_FLAG_READ_ONLY = 2"
definition NBD_FLAG_CAN_MULTI_CONN :: nat where "NBD_FLAG_CAN_MULTI_CONN = 2 ^ 8"
definition NBD_FLAG_SEND_CACHE :: nat where "NBD_FLAG_SEND_CACHE = 2 ^ 10"

definition NBD_OPT_EXPORT_NAME :: nat where "NBD_OPT_EXPORT_NAME = 1"
definition NBD_OPT_ABORT :: nat where "NBD_OPT_ABORT = 2"
definition NBD_OPT_INFO :: nat where "NBD_OPT_INFO = 6"
definition NBD_OPT_GO :: nat where "NBD_OPT_GO = 7"

definition nbd_rep_error :: nat where "nbd_rep_error = 2 ^ 31"
definition NBD_REP_ACK :: nat where "NBD_REP_ACK = 1"
definition NBD_REP_INFO :: nat where "NBD_REP_INFO = 3"
definition NBD_REP_ERR_UNSUP :: nat where "NBD_REP_ERR_UNSUP = nbd_rep_error + 1"
definition NBD_REP_ERR_POLICY :: nat where "NBD_REP_ERR_POLICY = nbd_rep_error + 2"
definition NBD_REP_ERR_UNKNOWN :: nat where "NBD_REP_ERR_UNKNOWN = nbd_rep_error + 6"
definition NBD_REP_ERR_SHUTDOWN :: nat where "NBD_REP_ERR_SHUTDOWN = nbd_rep_error + 7"
definition NBD_REP_ERR_TOO_BIG :: nat where "NBD_REP_ERR_TOO_BIG = nbd_rep_error + 9"

definition NBD_INFO_EXPORT :: nat where "NBD_INFO_EXPORT = 0"

lemmas nbd_consts = NBDMAGIC_def IHAVEOPT_def NBD_REQUEST_MAGIC_def NBD_SIMPLE_REPLY_MAGIC_def
  NBD_FLAG_FIXED_NEWSTYLE_def NBD_OPT_EXPORT_NAME_def NBD_OPT_ABORT_def NBD_OPT_INFO_def NBD_OPT_GO_def

section \<open>Connections\<close>

record conn =
  conn_in :: bytes
  conn_out :: bytes

datatype nbd_error =
    ConnEOF | ConnUnexpectedEOF | BadPadding nat | BadFlags nat
  | ClientTerminated | BadMagic nat | ShuttingDown | PayloadTooLarge nat | PayloadTooSmall nat
  | NoExports | ExportNotAvailable string | NotFixedNewstyle | ClientAborted
  | InvalidRequestMagic nat

definition send :: "bytes \<Rightarrow> conn \<Rightarrow> conn" where
  "send bs c = c\<lparr>conn_out := conn_out c @ bs\<rparr>"

text \<open>\<open>binary.Read\<close> of \<open>n\<close> bytes: \<open>io.EOF\<close> when nothing is left, \<open>io.ErrUnexpectedEOF\<close> on a short read.\<close>

definition receive :: "nat \<Rightarrow> conn \<Rightarrow> (nbd_error, bytes \<times> conn) res" where
  "receive n c =
     (if n \<le> length (conn_in c) then Ok (take n (conn_in c), c\<lparr>conn_in := drop n (conn_in c)\<rparr>)
      else if conn_in c = [] then Err ConnEOF
      else Err ConnUnexpectedEOF)"

lemma receive_Ok [simp]:
  "receive n c = Ok (bs, c') \<longleftrightarrow>
     n \<le> length (conn_in c) \<and> bs = take n (conn_in c) \<and> c' = c\<lparr>conn_in := drop n (conn_in c)\<rparr>"
  by (auto simp: receive_def)

text \<open>\<open>discard\<close>: reads of at most 4096 bytes until \<open>n\<close> bytes are gone.\<close>

function discard :: "nat \<Rightarrow> conn \<Rightarrow> (nbd_error, conn) res" where
  "discard n c =
     (if n > 0
      then let stop = (if n > 4096 then 4096 else n);
               k = min stop (length (conn_in c));
               c' = c\<lparr>conn_in := drop k (conn_in c)\<rparr>
           in if k = 0 then Err ConnEOF else discard (n - k) c'
      else Ok c)"
  by pat_completeness auto
termination
  by (relation "measure (\<lambda>(n, c). n)") (auto simp: Let_def)

declare discard.simps [simp del]

lemma discard_eq:
  "discard n c = (if n \<le> length (conn_in c) then Ok (c\<lparr>conn_in := drop n (conn_in c)\<rparr>) else Err ConnEOF)"
proof (induction n c rule: discard.induct)
  case (1 n c)
  define k where "k = min (if n > 4096 then 4096 else n) (length (conn_in c))"
  have step: "discard n c = (if n > 0 then if k = 0 then Err ConnEOF
      else discard (n - k) (c\<lparr>conn_in := drop k (conn_in c)\<rparr>) else Ok c)"
    by (subst discard.simps) (auto simp: k_def Let_def min_def)
  show ?case
  proof (cases "n > 0 \<and> k \<noteq> 0")
    case True
    then have "discard (n - k) (c\<lparr>conn_in := drop k (conn_in c)\<rparr>) =
        (if n - k \<le> length (drop k (conn_in c))
         then Ok (c\<lparr>conn_in := drop (n - k) (drop k (conn_in c))\<rparr>) else Err ConnEOF)"
      using 1 by (simp add: k_def Let_def)
    moreover have "k \<le> n" by (auto simp: k_def)
    ultimately show ?thesis using step True by (auto simp: k_def)
  next
    case False
    with step show ?thesis by (auto simp: k_def split: if_splits)
  qed
qed

section \<open>The buffer pool (buffer.go)\<close>

definition buffer_Size :: nat where "buffer_Size = 64 * 2 ^ 10"

text \<open>
  A buffer from the pool is its backing array of \<open>Size\<close> bytes, with whatever its last user left
  in it.  \<open>Put\<close> panics on anything of another capacity.
\<close>

definition buffer_Put :: "bytes \<Rightarrow> bytes list \<Rightarrow> (nbd_error, bytes list) res" where
  "buffer_Put buf pool = (if length buf \<noteq> buffer_Size then Panic else Ok (buf # pool))"

fun buffer_Get :: "bytes list \<Rightarrow> bytes \<times> bytes list" where
  "buffer_Get [] = (replicate buffer_Size 0, [])"
| "buffer_Get (buf # pool) = (buf, pool)"

text \<open>\<open>byteWriter.Write\<close> on a buffer with \<open>len\<close> bytes in use: \<open>copy\<close> into the rest.\<close>

definition byteWriter_Write :: "bytes \<Rightarrow> bytes \<Rightarrow> bool \<times> bytes" where
  "byteWriter_Write buf p =
     (let n = min (length p) (buffer_Size - length buf) in (n = length p, buf @ take n p))"

section \<open>Handshake\<close>

definition hello :: bytes where
  "hello = be_put 8 NBDMAGIC @ be_put 8 IHAVEOPT @ be_put 2 NBD_FLAG_FIXED_NEWSTYLE"

definition handshake :: "conn \<Rightarrow> (nbd_error, conn) res" where
  "handshake c =
     res_bind (receive 4 (send hello c)) (\<lambda>(reply, c).
       let Padding = be_get (take 2 reply); Flag = be_get (drop 2 reply)
       in if Padding \<noteq> 0 then Err (BadPadding Padding)
          else if Flag \<noteq> NBD_FLAG_FIXED_NEWSTYLE then Err (BadFlags Flag)
          else Ok c)"

section \<open>Negotiation\<close>

definition option_reply_magic :: nat where "option_reply_magic = 0x3e889045565a9"

text \<open>\<open>reply\<close>: the payload is serialised into a pooled buffer first; here it always fits.\<close>

definition reply :: "nat \<Rightarrow> nat \<Rightarrow> bytes \<Rightarrow> conn \<Rightarrow> conn" where
  "reply t r data c =
     send (be_put 8 option_reply_magic @ be_put 4 t @ be_put 4 r @ be_put 4 (length data) @ data) c"

definition export_info :: bytes where
  "export_info =
     be_put 2 NBD_INFO_EXPORT @ be_put 8 (2 ^ 60) @
     be_put 2 (NBD_FLAG_HAS_FLAGS + NBD_FLAG_READ_ONLY + NBD_FLAG_CAN_MULTI_CONN + NBD_FLAG_SEND_CACHE)"

text \<open>
  \<open>negotiateBackend\<close>: the payload is read into a pooled buffer whose other bytes are \<open>stale\<close>.
  \<open>bytes.Reader.Seek\<close> accepts any position that is not negative, so the name is cut out of the
  buffer's full capacity.
\<close>

definition negotiateBackend ::
    "bytes \<Rightarrow> (string \<Rightarrow> 'b option) option \<Rightarrow> nat \<Rightarrow> conn \<Rightarrow> (nbd_error, 'b) res \<times> conn" where
  "negotiateBackend stale export payloadLen c =
     (let dropped = (case discard payloadLen c of Ok c' \<Rightarrow> c' | _ \<Rightarrow> c\<lparr>conn_in := []\<rparr>) in
      if payloadLen > length stale then (Err (PayloadTooLarge payloadLen), dropped)
      else if payloadLen < 4 + 2 then (Err (PayloadTooSmall payloadLen), dropped)
      else case receive payloadLen c of
          Panic \<Rightarrow> (Panic, c)
        | Err e \<Rightarrow> (Err e, c\<lparr>conn_in := []\<rparr>)
        | Ok (payload, c) \<Rightarrow>
            let buf = overwrite stale 0 payload;
                nameLen = be_get (take 4 payload)
            in case export of
                 None \<Rightarrow> (Err NoExports, c)
               | Some export \<Rightarrow>
                   (case slice buf 4 (4 + nameLen) of
                      Panic \<Rightarrow> (Panic, c)
                    | Err e \<Rightarrow> (Err e, c)
                    | Ok name \<Rightarrow>
                        (case export (string_of name) of
                           None \<Rightarrow> (Err (ExportNotAvailable (string_of name)), c)
                         | Some backend \<Rightarrow> (Ok backend, c))))"

text \<open>
  One round of the loop of \<open>negotiate\<close>.  \<open>shutdown\<close> tells whether the server's context is done
  when the option arrives; \<open>Go_on\<close> continues with the next option.
\<close>

datatype 'b outcome = Return "(nbd_error, 'b) res" conn | Go_on conn

definition unavailable :: bytes where
  "unavailable = bytes_of ''requested export is not available'' @ [0]"

definition not_fixed :: bytes where
  "not_fixed = bytes_of ''this server requires fixed newstyle negotiation'' @ [0]"

definition negotiate_backend_option ::
    "bytes \<Rightarrow> (string \<Rightarrow> 'b option) option \<Rightarrow> nat \<Rightarrow> nat \<Rightarrow> conn \<Rightarrow> 'b outcome" where
  "negotiate_backend_option stale export Type Len c =
     (if Len > buffer_Size then
        (case discard Len c of
           Ok c \<Rightarrow> Go_on (reply Type NBD_REP_ERR_TOO_BIG [] c)
         | Err e \<Rightarrow> Return (Err e) c
         | Panic \<Rightarrow> Return Panic c)
      else case negotiateBackend stale export Len c of
          (Panic, c) \<Rightarrow> Return Panic c
        | (Err e, c) \<Rightarrow> Return (Err e) (reply Type NBD_REP_ERR_UNKNOWN unavailable c)
        | (Ok backend, c) \<Rightarrow>
            let c = reply Type NBD_REP_ACK [] (reply Type NBD_REP_INFO export_info c)
            in if Type = NBD_OPT_GO then Return (Ok backend) c else Go_on c)"

definition negotiate_option ::
    "bool \<Rightarrow> bytes \<Rightarrow> (string \<Rightarrow> 'b option) option \<Rightarrow> conn \<Rightarrow> 'b outcome" where
  "negotiate_option shutdown stale export c =
     (case receive 16 c of
        Panic \<Rightarrow> Return Panic c
      | Err ConnEOF \<Rightarrow> Return (Err ClientTerminated) c
      | Err e \<Rightarrow> Return (Err e) c
      | Ok (option, c) \<Rightarrow>
          let Magic = be_get (take 8 option);
              Type = be_get (take 4 (drop 8 option));
              Len = be_get (take 4 (drop 12 option))
          in if Magic \<noteq> IHAVEOPT then Return (Err (BadMagic Magic)) c
             else if shutdown then Return (Err ShuttingDown) (reply Type NBD_REP_ERR_SHUTDOWN [] c)
             else if Type = NBD_OPT_GO \<or> Type = NBD_OPT_INFO then
               negotiate_backend_option stale export Type Len c
             else if Type = NBD_OPT_EXPORT_NAME then
               Return (Err NotFixedNewstyle) (reply Type NBD_REP_ERR_POLICY not_fixed c)
             else if Type = NBD_OPT_ABORT then
               Return (Err ClientAborted) (reply Type NBD_REP_ACK [] c)
             else case discard Len c of
                 Ok c \<Rightarrow> Go_on (reply Type NBD_REP_ERR_UNSUP [] c)
               | Err e \<Rightarrow> Return (Err e) c
               | Panic \<Rightarrow> Return Panic c)"

lemma reply_in [simp]: "conn_in (reply t r d c) = conn_in c"
  by (simp add: reply_def send_def)

lemma negotiateBackend_consumes: "length (conn_in (snd (negotiateBackend stale export n c))) \<le> length (conn_in c)"
  by (auto simp: negotiateBackend_def Let_def discard_eq receive_def split: res.splits option.splits)

lemma negotiate_option_consumes:
  assumes "negotiate_option shutdown stale export c = Go_on c'"
  shows "length (conn_in c') < length (conn_in c)"
proof -
  obtain opt c1 where r: "receive 16 c = Ok (opt, c1)"
    using assms by (auto simp: negotiate_option_def split: res.splits nbd_error.splits prod.splits)
  then have lt: "length (conn_in c1) < length (conn_in c)" by auto
  have "length (conn_in c') \<le> length (conn_in c1)" if "negotiate_backend_option stale export t n c1 = Go_on c'" for t n
    using that negotiateBackend_consumes [of stale export n c1]
    by (auto simp: negotiate_backend_option_def discard_eq Let_def split: if_splits res.splits prod.splits)
  with assms r lt show ?thesis
    by (auto simp: negotiate_option_def discard_eq Let_def simp del: receive_Ok
        split: if_splits intro: le_less_trans)
qed

function negotiate ::
    "(nat \<Rightarrow> bool) \<Rightarrow> (nat \<Rightarrow> bytes) \<Rightarrow> (string \<Rightarrow> 'b option) option \<Rightarrow> nat \<Rightarrow> conn \<Rightarrow> (nbd_error, 'b) res \<times> conn" where
  "negotiate shutdown stale export i c =
     (case negotiate_option (shutdown i) (stale i) export c of
        Return r c \<Rightarrow> (r, c)
      | Go_on c \<Rightarrow> negotiate shutdown stale export (Suc i) c)"
  by pat_completeness auto
termination
  by (relation "measure (\<lambda>(_, _, _, _, c). length (conn_in c))") (auto dest: negotiate_option_consumes)

declare negotiate.simps [simp del]

section \<open>Conversations\<close>

definition client_option :: "nat \<Rightarrow> bytes \<Rightarrow> bytes" where
  "client_option t payload = be_put 8 IHAVEOPT @ be_put 4 t @ be_put 4 (length payload) @ payload"

definition option_reply :: "nat \<Rightarrow> nat \<Rightarrow> bytes \<Rightarrow> bytes" where
  "option_reply t r data =
     be_put 8 option_reply_magic @ be_put 4 t @ be_put 4 r @ be_put 4 (length data) @ data"

lemma reply_option_reply: "reply t r d c = c\<lparr>conn_out := conn_out c @ option_reply t r d\<rparr>"
  by (simp add: reply_def send_def option_reply_def)

lemma option_header:
  assumes "t < 2 ^ 32" and "length payload < 2 ^ 32"
  shows "receive 16 (c\<lparr>conn_in := client_option t payload @ rest\<rparr>) =
      Ok (take 16 (client_option t payload), c\<lparr>conn_in := payload @ rest\<rparr>)"
    and "be_get (take 8 (take 16 (client_option t payload))) = IHAVEOPT"
    and "be_get (take 4 (drop 8 (take 16 (client_option t payload)))) = t"
    and "be_get (take 4 (drop 12 (take 16 (client_option t payload)))) = length payload"
proof -
  have h: "take 16 (client_option t payload) = be_put 8 IHAVEOPT @ be_put 4 t @ be_put 4 (length payload)"
    by (simp add: client_option_def)
  show "receive 16 (c\<lparr>conn_in := client_option t payload @ rest\<rparr>) =
      Ok (take 16 (client_option t payload), c\<lparr>conn_in := payload @ rest\<rparr>)"
    by (simp add: client_option_def)
  show "be_get (take 8 (take 16 (client_option t payload))) = IHAVEOPT"
    unfolding h by (simp add: be.get_put_id IHAVEOPT_def)
  show "be_get (take 4 (drop 8 (take 16 (client_option t payload)))) = t"
    unfolding h using assms(1) by (simp add: be.get_put_id)
  show "be_get (take 4 (drop 12 (take 16 (client_option t payload)))) = length payload"
    unfolding h using assms(2) by (simp add: be.get_put_id)
qed

definition unsupported :: "nat \<Rightarrow> bool" where
  "unsupported t \<longleftrightarrow> t \<notin> {NBD_OPT_GO, NBD_OPT_INFO, NBD_OPT_EXPORT_NAME, NBD_OPT_ABORT} \<and> t < 2 ^ 32"

lemma negotiate_unsupported:
  assumes "unsupported t" and "length payload < 2 ^ 32" and "\<not> shutdown i"
  shows "negotiate shutdown stale export i (c\<lparr>conn_in := client_option t payload @ rest\<rparr>) =
    negotiate shutdown stale export (Suc i)
      (c\<lparr>conn_out := conn_out c @ option_reply t NBD_REP_ERR_UNSUP [], conn_in := rest\<rparr>)"
proof -
  have t: "t < 2 ^ 32" using assms(1) by (simp add: unsupported_def)
  note h = option_header [OF t assms(2)]
  have "negotiate_option (shutdown i) (stale i) export (c\<lparr>conn_in := client_option t payload @ rest\<rparr>) =
    Go_on (c\<lparr>conn_out := conn_out c @ option_reply t NBD_REP_ERR_UNSUP [], conn_in := rest\<rparr>)"
    unfolding negotiate_option_def h(1) res.case prod.case Let_def h(2-4)
    using assms(1,3) by (cases c) (simp add: unsupported_def discard_eq reply_option_reply)
  then show ?thesis by (subst negotiate.simps) simp
qed

definition go_payload :: "string \<Rightarrow> bytes \<Rightarrow> bytes" where
  "go_payload name infos = be_put 4 (length name) @ bytes_of name @ infos"

lemma negotiateBackend_name:
  assumes "length stale = buffer_Size" and "length (go_payload name infos) \<le> buffer_Size" and "2 \<le> length infos"
  shows "negotiateBackend stale (Some export) (length (go_payload name infos))
      (c\<lparr>conn_in := go_payload name infos @ rest\<rparr>) =
    (case export name of None \<Rightarrow> Err (ExportNotAvailable name) | Some b \<Rightarrow> Ok b, c\<lparr>conn_in := rest\<rparr>)"
proof -
  let ?p = "go_payload name infos"
  have len: "length name < 256 ^ 4" using assms(2) by (simp add: go_payload_def buffer_Size_def)
  have r: "receive (length ?p) (c\<lparr>conn_in := ?p @ rest\<rparr>) = Ok (?p, c\<lparr>conn_in := rest\<rparr>)" by simp
  have n: "be_get (take 4 ?p) = length name" using len by (simp add: go_payload_def be.get_put_id)
  have sl: "slice (overwrite stale 0 ?p) 4 (4 + length name) = (Ok (bytes_of name) :: (nbd_error, bytes) res)"
    using assms(1,2) by (simp add: go_payload_def overwrite_def)
  have "\<not> length ?p < 4 + 2" using assms(3) by (simp add: go_payload_def)
  then show ?thesis
    unfolding negotiateBackend_def Let_def r res.case prod.case n option.case sl
    using assms(1,2) by (simp split: option.splits)
qed

lemma negotiate_go:
  assumes "length (stale i) = buffer_Size" and "length (go_payload name infos) \<le> buffer_Size" and "2 \<le> length infos"
    and "\<not> shutdown i" and "export name = Some b"
  shows "negotiate shutdown stale (Some export) i
      (c\<lparr>conn_in := client_option NBD_OPT_GO (go_payload name infos) @ rest\<rparr>) =
    (Ok b, c\<lparr>conn_in := rest, conn_out := conn_out c @
       option_reply NBD_OPT_GO NBD_REP_INFO export_info @ option_reply NBD_OPT_GO NBD_REP_ACK []\<rparr>)"
proof -
  let ?p = "go_payload name infos"
  have l: "length ?p < 2 ^ 32" using assms(2) by (simp add: buffer_Size_def)
  have g: "NBD_OPT_GO < 2 ^ 32" by (simp add: NBD_OPT_GO_def)
  note h = option_header [OF g l]
  have "negotiate_option (shutdown i) (stale i) (Some export) (c\<lparr>conn_in := client_option NBD_OPT_GO ?p @ rest\<rparr>) =
    Return (Ok b) (c\<lparr>conn_in := rest, conn_out := conn_out c @
       option_reply NBD_OPT_GO NBD_REP_INFO export_info @ option_reply NBD_OPT_GO NBD_REP_ACK []\<rparr>)"
    unfolding negotiate_option_def h(1) res.case prod.case Let_def h(2-4)
    using assms(2,4,5)
    by (simp add: negotiate_backend_option_def negotiateBackend_name [OF assms(1-3)] reply_option_reply)
  then show ?thesis by (subst negotiate.simps) simp
qed

section \<open>Properties\<close>

text \<open>
  C31. The handshake succeeds exactly for a client that answers with the flag the server
  offered and nothing else; the server has then sent its greeting and consumed four bytes.
\<close>

theorem handshake_exact:
  "handshake c = Ok c' \<longleftrightarrow>
     (\<exists>rest. conn_in c = be_put 2 0 @ be_put 2 NBD_FLAG_FIXED_NEWSTYLE @ rest \<and>
        c' = \<lparr>conn_in = rest, conn_out = conn_out c @ hello\<rparr>)"
proof
  assume "\<exists>rest. conn_in c = be_put 2 0 @ be_put 2 NBD_FLAG_FIXED_NEWSTYLE @ rest \<and>
        c' = \<lparr>conn_in = rest, conn_out = conn_out c @ hello\<rparr>"
  then show "handshake c = Ok c'"
    by (auto simp: handshake_def send_def be.get_put_id NBD_FLAG_FIXED_NEWSTYLE_def)
next
  assume h: "handshake c = Ok c'"
  let ?r = "take 4 (conn_in c)"
  from h have l: "4 \<le> length (conn_in c)" and p: "be_get (take 2 ?r) = 0" "be_get (drop 2 ?r) = NBD_FLAG_FIXED_NEWSTYLE"
    and c': "c' = c\<lparr>conn_in := drop 4 (conn_in c), conn_out := conn_out c @ hello\<rparr>"
    by (auto simp: handshake_def Let_def send_def split: if_splits)
  have "?r = take 2 ?r @ drop 2 ?r" by (rule append_take_drop_id [symmetric])
  also have "take 2 ?r = be_put 2 0" using be.put_get [of "take 2 ?r"] p(1) l by simp
  also have "drop 2 ?r = be_put 2 NBD_FLAG_FIXED_NEWSTYLE" using be.put_get [of "drop 2 ?r"] p(2) l by simp
  finally have "conn_in c = be_put 2 0 @ be_put 2 NBD_FLAG_FIXED_NEWSTYLE @ drop 4 (conn_in c)"
    by (metis append.assoc append_take_drop_id)
  with c' show "\<exists>rest. conn_in c = be_put 2 0 @ be_put 2 NBD_FLAG_FIXED_NEWSTYLE @ rest \<and>
        c' = \<lparr>conn_in = rest, conn_out = conn_out c @ hello\<rparr>" by (cases c) auto
qed

text \<open>
  C32. A client that sends any options the server does not know and then \<open>NBD_OPT_GO\<close> with the
  name of an export gets that export: every unknown option is answered with \<open>ERR_UNSUP\<close>, the
  last one with the export information and an acknowledgement, and exactly the bytes of the
  negotiation have been consumed.
\<close>

theorem negotiation_reaches_export:
  assumes "\<And>k. length (stale k) = buffer_Size" and "\<And>k. \<not> shutdown k"
    and "\<forall>(t, payload) \<in> set opts. unsupported t \<and> length payload < 2 ^ 32"
    and "length (go_payload name infos) \<le> buffer_Size" and "2 \<le> length infos" and "export name = Some b"
  shows "negotiate shutdown stale (Some export) i
      (c\<lparr>conn_in := concat (map (\<lambda>(t, payload). client_option t payload) opts) @
         client_option NBD_OPT_GO (go_payload name infos) @ rest\<rparr>) =
    (Ok b, c\<lparr>conn_in := rest, conn_out := conn_out c @
       concat (map (\<lambda>(t, _). option_reply t NBD_REP_ERR_UNSUP []) opts) @
       option_reply NBD_OPT_GO NBD_REP_INFO export_info @ option_reply NBD_OPT_GO NBD_REP_ACK []\<rparr>)"
  using assms(3)
proof (induction opts arbitrary: i c)
  case Nil
  have "negotiate shutdown stale (Some export) i (c\<lparr>conn_in := client_option NBD_OPT_GO (go_payload name infos) @ rest\<rparr>) =
    (Ok b, c\<lparr>conn_in := rest, conn_out := conn_out c @
       option_reply NBD_OPT_GO NBD_REP_INFO export_info @ option_reply NBD_OPT_GO NBD_REP_ACK []\<rparr>)"
    by (rule negotiate_go) (rule assms)+
  then show ?case by simp
next
  case (Cons a opts)
  obtain t payload where o: "a = (t, payload)" by (cases a)
  let ?c = "c\<lparr>conn_out := conn_out c @ option_reply t NBD_REP_ERR_UNSUP []\<rparr>"
  have u: "unsupported t" "length payload < 2 ^ 32" using Cons.prems o by auto
  show ?case
    using Cons.IH [of "Suc i" ?c] Cons.prems o
    by (simp add: negotiate_unsupported [where shutdown = shutdown, OF u assms(2)])
qed

theorem negotiation_reaches_export_witness:
  "fst (negotiate (\<lambda>_. False) (\<lambda>_. replicate buffer_Size 0) (Some (\<lambda>name. if name = ''disk'' then Some 7 else None)) 0
     (\<lparr>conn_in = [], conn_out = []\<rparr>\<lparr>conn_in := concat (map (\<lambda>(t, payload). client_option t payload) [(8, []), (5, [1])]) @
        client_option NBD_OPT_GO (go_payload ''disk'' [0, 0]) @ []\<rparr>)) = Ok (7 :: nat)"
  by (subst negotiation_reaches_export)
     (auto simp: unsupported_def nbd_consts go_payload_def buffer_Size_def)



end
