(* ===== verification/Transmit.thy ===== *)
theory Transmit
  imports Negotiate
begin

text \<open>
  The NBD transmission phase (\<open>src/nbd/server/proto_transmit.go\<close>): how commands are received
  and dispatched, and how one read request is answered.
\<close>

section \<open>Constants and messages\<close>

definition NBD_CMD_READ :: nat where "NBD_CMD_READ = 0"
definition NBD_CMD_WRITE :: nat where "NBD_CMD_WRITE = 1"
definition NBD_CMD_DISC :: nat where "NBD_CMD_DISC = 2"

definition NBD_EIO :: nat where "NBD_EIO = 5"
definition NBD_EINVAL :: nat where "NBD_EINVAL = 22"
definition NBD_ENOTSUP :: nat where "NBD_ENOTSUP = 95"

lemmas nbd_cmds = NBD_CMD_READ_def NBD_CMD_WRITE_def NBD_CMD_DISC_def

record request =
  rq_Magic :: nat
  rq_Flag :: nat
  rq_Type :: nat
  rq_Cookie :: nat
  rq_Offset :: nat
  rq_Len :: nat

definition request_size :: nat where "request_size = 4 + 2 + 2 + 8 + 8 + 4"

definition decode_request :: "bytes \<Rightarrow> request" where
  "decode_request bs =
     \<lparr>rq_Magic = be_get (take 4 bs), rq_Flag = be_get (take 2 (drop 4 bs)),
      rq_Type = be_get (take 2 (drop 6 bs)), rq_Cookie = be_get (take 8 (drop 8 bs)),
      rq_Offset = be_get (take 8 (drop 16 bs)), rq_Len = be_get (take 4 (drop 24 bs))\<rparr>"

definition replyHeader :: "nat \<Rightarrow> nat \<Rightarrow> bytes" where
  "replyHeader err cookie = be_put 4 NBD_SIMPLE_REPLY_MAGIC @ be_put 4 err @ be_put 8 cookie"

text \<open>What a client sends.\<close>

definition encode_request :: "request \<Rightarrow> bytes" where
  "encode_request r =
     be_put 4 (rq_Magic r) @ be_put 2 (rq_Flag r) @ be_put 2 (rq_Type r) @ be_put 8 (rq_Cookie r) @
     be_put 8 (rq_Offset r) @ be_put 4 (rq_Len r)"

definition request_ok :: "request \<Rightarrow> bool" where
  "request_ok r \<longleftrightarrow> rq_Magic r < 2 ^ 32 \<and> rq_Flag r < 2 ^ 16 \<and> rq_Type r < 2 ^ 16 \<and>
     rq_Cookie r < 2 ^ 64 \<and> rq_Offset r < 2 ^ 64 \<and> rq_Len r < 2 ^ 32"

lemma length_encode_request [simp]: "length (encode_request r) = request_size"
  by (simp add: encode_request_def request_size_def)

lemma decode_encode_request: "request_ok r \<Longrightarrow> decode_request (encode_request r) = r"
  by (simp add: decode_request_def encode_request_def request_ok_def be.get_put_id)

section \<open>Answering a read request\<close>

definition bogusData :: bytes where
  "bogusData = [0xee, 0xe0, 0xe1, 0xe2, 0xe3, 0xe4, 0xe5, 0xe6, 0xe7, 0xe8, 0xe9, 0xea, 0xeb, 0xec, 0xed, 0xee]"

text \<open>\<open>for n < len(buf) { n += copy(buf[n:], bogusData[:]) }\<close> from \<open>n = 0\<close>\<close>

function bogus_fill :: "nat \<Rightarrow> bytes \<Rightarrow> bytes" where
  "bogus_fill len buf =
     (if length buf < len then bogus_fill len (buf @ take (len - length buf) bogusData) else buf)"
  by pat_completeness auto
termination
  by (relation "measure (\<lambda>(len, buf). len - length buf)") (auto simp: bogusData_def)

declare bogus_fill.simps [simp del]

definition ioErrorsThreshold :: nat where "ioErrorsThreshold = 30"

text \<open>
  The state of the handler goroutine: position, end, length of the buffer, whether the reply
  header has been sent, consecutive errors, and what it has written to the connection.
\<close>

record reader =
  rd_cur :: int
  rd_end :: int
  rd_buf :: nat
  rd_in :: bool
  rd_errs :: nat
  rd_out :: bytes

definition read_begin :: "request \<Rightarrow> reader" where
  "read_begin cmd =
     (let cur = int64 (int (rq_Offset cmd))
      in \<lparr>rd_cur = cur, rd_end = int64 (cur + int (rq_Len cmd)), rd_buf = buffer_Size, rd_in = False,
          rd_errs = 0, rd_out = []\<rparr>)"

text \<open>
  One round of the loop.  \<open>ReadAt len offset\<close> gives the bytes the backend delivers (never more
  than asked for) and whether it reports an error.  \<open>Inl\<close>: the handler has returned.
\<close>

type_synonym backend = "nat \<Rightarrow> int \<Rightarrow> bytes \<times> bool"

definition read_round :: "nat \<Rightarrow> backend \<Rightarrow> reader \<Rightarrow> bytes + reader" where
  "read_round cookie ReadAt r =
     (let buf = (if rd_end r - rd_cur r < int (rd_buf r) then nat (rd_end r - rd_cur r) else rd_buf r);
          (data, ioerr) = ReadAt buf (rd_cur r);
          ioErrors = (if ioerr then rd_errs r else 0)
      in if ioerr \<and> \<not> rd_in r \<and> data = [] then Inl (rd_out r @ replyHeader NBD_EIO cookie)
         else
           let failed = (ioerr \<and> rd_in r \<and> data = []);
               ioErrors = (if failed then ioErrors + 1 else ioErrors);
               data = (if failed \<and> ioErrors > ioErrorsThreshold then bogus_fill buf [] else data);
               starts = (\<not> rd_in r \<and> data \<noteq> [])
           in Inr \<lparr>rd_cur = rd_cur r + int (length data), rd_end = rd_end r, rd_buf = buf,
                   rd_in = (rd_in r \<or> starts), rd_errs = ioErrors,
                   rd_out = rd_out r @ (if starts then replyHeader 0 cookie else []) @ data\<rparr>)"

text \<open>
  The loop, with fuel; the backend may behave differently at every call.  \<open>None\<close>: not finished.
\<close>

fun read_loop :: "nat \<Rightarrow> nat \<Rightarrow> (nat \<Rightarrow> backend) \<Rightarrow> nat \<Rightarrow> reader \<Rightarrow> bytes option" where
  "read_loop 0 cookie ReadAt k r = None"
| "read_loop (Suc fuel) cookie ReadAt k r =
     (if rd_cur r < rd_end r
      then case read_round cookie (ReadAt k) r of
          Inl out \<Rightarrow> Some out
        | Inr r \<Rightarrow> read_loop fuel cookie ReadAt (Suc k) r
      else Some (rd_out r))"

definition handle_read :: "nat \<Rightarrow> (nat \<Rightarrow> backend) \<Rightarrow> request \<Rightarrow> bytes option" where
  "handle_read fuel ReadAt cmd = read_loop fuel (rq_Cookie cmd) ReadAt 0 (read_begin cmd)"

section \<open>Commands\<close>

text \<open>What the main loop does with a command.\<close>

datatype action = Abort nbd_error | SendError nat | StartRead | Disconnect | DiscardPayload nat

definition dispatch :: "request \<Rightarrow> action" where
  "dispatch cmd =
     (if rq_Magic cmd \<noteq> NBD_REQUEST_MAGIC then Abort (InvalidRequestMagic (rq_Magic cmd))
      else if rq_Flag cmd \<noteq> 0 then SendError NBD_EINVAL
      else if rq_Type cmd = NBD_CMD_READ then StartRead
      else if rq_Type cmd = NBD_CMD_DISC then Disconnect
      else if rq_Type cmd = NBD_CMD_WRITE then DiscardPayload (rq_Len cmd)
      else SendError NBD_ENOTSUP)"

text \<open>
  Two goroutines read from the connection: the receiver, which decodes the next command and then
  waits until the main loop takes it, and the main loop, which discards the payload of a write
  command.  The state also records the commands taken so far, the reads started and the error
  replies sent.
\<close>

datatype main_state = Waiting | Discarding nat request | Ended "nbd_error option"

record transmission =
  t_in :: bytes
  t_cmd :: "request option"
  t_main :: main_state
  t_taken :: "request list"
  t_reads :: "request list"
  t_errors :: "(nat \<times> nat) list"

definition transmission_begin :: "bytes \<Rightarrow> transmission" where
  "transmission_begin input =
     \<lparr>t_in = input, t_cmd = None, t_main = Waiting, t_taken = [], t_reads = [], t_errors = []\<rparr>"

text \<open>The receiver reads the next header, if it has handed over the last one.\<close>

definition receive_command :: "transmission \<Rightarrow> transmission option" where
  "receive_command t =
     (if t_cmd t = None \<and> request_size \<le> length (t_in t)
      then Some (t\<lparr>t_cmd := Some (decode_request (take request_size (t_in t))),
                   t_in := drop request_size (t_in t)\<rparr>)
      else None)"

text \<open>The main loop takes a command from the channel and acts on it.\<close>

definition take_command :: "transmission \<Rightarrow> transmission option" where
  "take_command t =
     (case (t_main t, t_cmd t) of
        (Waiting, Some cmd) \<Rightarrow>
          let t = t\<lparr>t_cmd := None, t_taken := t_taken t @ [cmd]\<rparr>
          in Some (case dispatch cmd of
               Abort e \<Rightarrow> t\<lparr>t_main := Ended (Some e)\<rparr>
             | SendError e \<Rightarrow> t\<lparr>t_errors := t_errors t @ [(e, rq_Cookie cmd)]\<rparr>
             | StartRead \<Rightarrow> t\<lparr>t_reads := t_reads t @ [cmd]\<rparr>
             | Disconnect \<Rightarrow> t\<lparr>t_main := Ended None\<rparr>
             | DiscardPayload n \<Rightarrow> t\<lparr>t_main := Discarding n cmd\<rparr>)
      | _ \<Rightarrow> None)"

text \<open>One \<open>Read\<close> of \<open>discard\<close>, of \<open>k\<close> bytes; after the last one the command is rejected.\<close>

definition discard_some :: "nat \<Rightarrow> transmission \<Rightarrow> transmission option" where
  "discard_some k t =
     (case t_main t of
        Discarding n cmd \<Rightarrow>
          if n = 0 then Some (t\<lparr>t_main := Waiting, t_errors := t_errors t @ [(NBD_ENOTSUP, rq_Cookie cmd)]\<rparr>)
          else if 0 < k \<and> k \<le> min (min n 4096) (length (t_in t))
          then Some (t\<lparr>t_in := drop k (t_in t), t_main := Discarding (n - k) cmd\<rparr>)
          else None
      | _ \<Rightarrow> None)"

inductive trans_step :: "transmission \<Rightarrow> transmission \<Rightarrow> bool" where
  recv: "receive_command t = Some t' \<Longrightarrow> trans_step t t'"
| handle: "take_command t = Some t' \<Longrightarrow> trans_step t t'"
| skip: "discard_some k t = Some t' \<Longrightarrow> trans_step t t'"

section \<open>Lemmas on the read loop\<close>

lemma length_bogus_fill: "length buf \<le> len \<Longrightarrow> length (bogus_fill len buf) = len"
proof (induction len buf rule: bogus_fill.induct)
  case (1 len buf)
  then show ?case by (subst bogus_fill.simps) (auto simp: bogusData_def)
qed

text \<open>The contract of \<open>io.ReaderAt\<close>: never more bytes than the buffer holds.\<close>

definition bounded :: "(nat \<Rightarrow> backend) \<Rightarrow> bool" where
  "bounded ReadAt \<longleftrightarrow> (\<forall>k len off. length (fst (ReadAt k len off)) \<le> len)"

definition framed :: "nat \<Rightarrow> int \<Rightarrow> reader \<Rightarrow> bool" where
  "framed cookie start r \<longleftrightarrow>
     start \<le> rd_cur r \<and> rd_cur r \<le> rd_end r \<and>
     (if rd_in r then \<exists>d. rd_out r = replyHeader 0 cookie @ d \<and> int (length d) = rd_cur r - start
      else rd_out r = [] \<and> rd_cur r = start)"

text \<open>A round, with its intermediate values named.\<close>

lemma read_round_cases:
  assumes "length (fst (ReadAt (min (rd_buf r) (nat (rd_end r - rd_cur r))) (rd_cur r))) \<le> min (rd_buf r) (nat (rd_end r - rd_cur r))"
    and "rd_cur r < rd_end r"
  obtains (eio) "read_round cookie ReadAt r = Inl (rd_out r @ replyHeader NBD_EIO cookie)" "\<not> rd_in r"
      "ReadAt (min (rd_buf r) (nat (rd_end r - rd_cur r))) (rd_cur r) = ([], True)"
  | (go) r' data where "read_round cookie ReadAt r = Inr r'" "rd_end r' = rd_end r"
      "rd_buf r' = min (rd_buf r) (nat (rd_end r - rd_cur r))"
      "length data \<le> min (rd_buf r) (nat (rd_end r - rd_cur r))"
      "rd_cur r' = rd_cur r + int (length data)" "rd_in r' = (rd_in r \<or> data \<noteq> [])"
      "rd_out r' = rd_out r @ (if \<not> rd_in r \<and> data \<noteq> [] then replyHeader 0 cookie else []) @ data"
      "fst (ReadAt (min (rd_buf r) (nat (rd_end r - rd_cur r))) (rd_cur r)) \<noteq> [] \<Longrightarrow>
         data = fst (ReadAt (min (rd_buf r) (nat (rd_end r - rd_cur r))) (rd_cur r))"
      "ReadAt (min (rd_buf r) (nat (rd_end r - rd_cur r))) (rd_cur r) = ([], True) \<Longrightarrow>
         rd_errs r' = rd_errs r + 1 \<and> (if rd_errs r' > ioErrorsThreshold then length data = rd_buf r' else data = [])"
      "rd_errs r' \<le> rd_errs r + 1"
proof -
  define buf where "buf = min (rd_buf r) (nat (rd_end r - rd_cur r))"
  have b: "(if rd_end r - rd_cur r < int (rd_buf r) then nat (rd_end r - rd_cur r) else rd_buf r) = buf"
    using assms(2) by (auto simp: buf_def)
  obtain d e where de: "ReadAt buf (rd_cur r) = (d, e)" by fastforce
  have ld: "length d \<le> buf" using assms(1) de by (simp add: buf_def)
  note fill = length_bogus_fill [of "[]" buf]
  show thesis
  proof (cases "e \<and> \<not> rd_in r \<and> d = []")
    case True
    then show thesis using eio de b by (simp add: read_round_def buf_def [symmetric])
  next
    case False
    define failed where "failed \<longleftrightarrow> e \<and> rd_in r \<and> d = []"
    define errs where "errs = (if failed then rd_errs r + 1 else if e then rd_errs r else 0)"
    define data where "data = (if failed \<and> errs > ioErrorsThreshold then bogus_fill buf [] else d)"
    have rr: "read_round cookie ReadAt r = Inr \<lparr>rd_cur = rd_cur r + int (length data), rd_end = rd_end r, rd_buf = buf,
        rd_in = (rd_in r \<or> \<not> rd_in r \<and> data \<noteq> []), rd_errs = errs,
        rd_out = rd_out r @ (if \<not> rd_in r \<and> data \<noteq> [] then replyHeader 0 cookie else []) @ data\<rparr>"
      unfolding read_round_def Let_def b de prod.case using False
      by (simp add: failed_def [symmetric] errs_def data_def) (auto simp: failed_def)
    show thesis
      by (rule go [OF rr, of data]) (use ld fill de False in \<open>auto simp: data_def errs_def failed_def buf_def [symmetric]\<close>)
  qed
qed

lemma read_round_framed:
  assumes "bounded ReadAt" and "framed cookie start r" and "rd_cur r < rd_end r"
  shows "case read_round cookie (ReadAt k) r of
      Inl out \<Rightarrow> out = replyHeader NBD_EIO cookie
    | Inr r' \<Rightarrow> framed cookie start r' \<and> rd_end r' = rd_end r"
proof (rule read_round_cases [of "ReadAt k" r cookie])
  show "length (fst (ReadAt k (min (rd_buf r) (nat (rd_end r - rd_cur r))) (rd_cur r))) \<le>
      min (rd_buf r) (nat (rd_end r - rd_cur r))" using assms(1) unfolding bounded_def by blast
next
  fix r' data
  assume "read_round cookie (ReadAt k) r = Inr r'" "rd_end r' = rd_end r"
    "length data \<le> min (rd_buf r) (nat (rd_end r - rd_cur r))"
    "rd_cur r' = rd_cur r + int (length data)" "rd_in r' = (rd_in r \<or> data \<noteq> [])"
    "rd_out r' = rd_out r @ (if \<not> rd_in r \<and> data \<noteq> [] then replyHeader 0 cookie else []) @ data"
  then show ?thesis using assms(2,3) by (auto simp: framed_def)
qed (use assms(2,3) in \<open>auto simp: framed_def\<close>)

lemma read_loop_framed:
  assumes "bounded ReadAt" and "framed cookie start r" and "read_loop fuel cookie ReadAt k r = Some out"
  shows "out = replyHeader NBD_EIO cookie \<or> start = rd_end r \<and> out = [] \<or>
    (\<exists>d. out = replyHeader 0 cookie @ d \<and> int (length d) = rd_end r - start)"
  using assms(2,3)
proof (induction fuel arbitrary: k r)
  case 0
  then show ?case by simp
next
  case (Suc fuel)
  show ?case
  proof (cases "rd_cur r < rd_end r")
    case False
    with Suc.prems show ?thesis by (auto simp: framed_def split: if_splits)
  next
    case True
    note f = read_round_framed [OF assms(1) Suc.prems(1) True, of k]
    show ?thesis
    proof (cases "read_round cookie (ReadAt k) r")
      case (Inl o')
      with f Suc.prems True show ?thesis by simp
    next
      case (Inr r')
      then have "framed cookie start r'" "rd_end r' = rd_end r" using f by simp_all
      with Suc.IH [of r' "Suc k"] Suc.prems(2) Inr True show ?thesis by simp
    qed
  qed
qed

text \<open>A backend that always delivers something or reports an error.\<close>

definition responsive :: "(nat \<Rightarrow> backend) \<Rightarrow> bool" where
  "responsive ReadAt \<longleftrightarrow> (\<forall>k len off. 0 < len \<longrightarrow> ReadAt k len off \<noteq> ([], False))"

definition rounds_left :: "reader \<Rightarrow> nat" where
  "rounds_left r = nat (rd_end r - rd_cur r) * 32 + (31 - rd_errs r)"

lemma read_round_progress:
  assumes "bounded ReadAt" and "responsive ReadAt" and "rd_cur r < rd_end r" and "0 < rd_buf r"
    and "read_round cookie (ReadAt k) r = Inr r'"
  shows "rounds_left r' < rounds_left r \<and> 0 < rd_buf r'"
proof -
  define buf where "buf = min (rd_buf r) (nat (rd_end r - rd_cur r))"
  have buf: "0 < buf" using assms(3,4) by (simp add: buf_def)
  have bd: "length (fst (ReadAt k buf (rd_cur r))) \<le> buf" using assms(1) unfolding bounded_def by blast
  from bd [unfolded buf_def] assms(3) show ?thesis
  proof (cases rule: read_round_cases [of "ReadAt k" r cookie])
    case (go r'' data)
    with assms(5) have r': "r'' = r'" by simp
    note g = go [unfolded buf_def [symmetric] r']
    show ?thesis
    proof (cases "data = []")
      case False
      then have "0 < length data" by simp
      moreover have "int (length data) \<le> rd_end r - rd_cur r" using g(4) assms(3) unfolding buf_def by linarith
      ultimately have "nat (rd_end r' - rd_cur r') + 1 \<le> nat (rd_end r - rd_cur r)"
        using g(2,5) by linarith
      then show ?thesis using g(3) buf by (simp add: rounds_left_def)
    next
      case True
      then have e: "ReadAt k buf (rd_cur r) = ([], True)"
        using g(8) assms(2) buf unfolding responsive_def by (metis (full_types) prod.collapse)
      then have "rd_errs r' = rd_errs r + 1" "\<not> rd_errs r' > ioErrorsThreshold"
        using g(3,9) True buf by (auto split: if_splits)
      then show ?thesis using g(2,3,5) True buf by (simp add: rounds_left_def ioErrorsThreshold_def)
    qed
  qed (use assms(5) in simp)
qed

lemma read_loop_terminates:
  assumes "bounded ReadAt" and "responsive ReadAt"
  shows "rounds_left r < fuel \<Longrightarrow> 0 < rd_buf r \<Longrightarrow> \<exists>out. read_loop fuel cookie ReadAt k r = Some out"
proof (induction fuel arbitrary: k r)
  case 0
  then show ?case by simp
next
  case (Suc fuel)
  show ?case
  proof (cases "rd_cur r < rd_end r")
    case True
    show ?thesis
    proof (cases "read_round cookie (ReadAt k) r")
      case (Inr r')
      with read_round_progress [OF assms True Suc.prems(2) Inr] Suc.prems(1) Suc.IH [of r' "Suc k"] True
      show ?thesis by simp
    qed (use True in simp)
  qed simp
qed

lemma read_begin_framed:
  "rd_cur (read_begin cmd) \<le> rd_end (read_begin cmd) \<Longrightarrow> framed cookie (rd_cur (read_begin cmd)) (read_begin cmd)"
  by (simp add: framed_def read_begin_def Let_def)

lemma read_begin_in_range:
  assumes "rq_Offset cmd + rq_Len cmd < 2 ^ 63"
  shows "rd_cur (read_begin cmd) = int (rq_Offset cmd)"
    and "rd_end (read_begin cmd) = int (rq_Offset cmd) + int (rq_Len cmd)"
proof -
  have "int (rq_Offset cmd) + int (rq_Len cmd) < 2 ^ 63" using assms by (metis of_nat_add of_nat_less_iff of_nat_numeral of_nat_power)
  then have "int64 (int (rq_Offset cmd)) = int (rq_Offset cmd)"
    "int64 (int (rq_Offset cmd) + int (rq_Len cmd)) = int (rq_Offset cmd) + int (rq_Len cmd)"
    by (simp_all add: int64_id)
  then show "rd_cur (read_begin cmd) = int (rq_Offset cmd)"
    "rd_end (read_begin cmd) = int (rq_Offset cmd) + int (rq_Len cmd)"
    by (simp_all add: read_begin_def Let_def)
qed

section \<open>The interface to the backend\<close>

definition served :: "bytes \<Rightarrow> nat \<Rightarrow> nat \<Rightarrow> reader \<Rightarrow> bool" where
  "served object cookie start r \<longleftrightarrow>
     int start \<le> rd_cur r \<and> rd_cur r \<le> rd_end r \<and> rd_end r \<le> int (length object) \<and> 0 < rd_buf r \<and>
     rd_in r = (int start < rd_cur r) \<and>
     rd_out r = (if int start < rd_cur r
       then replyHeader 0 cookie @ take (nat (rd_cur r) - start) (drop start object) else [])"

text \<open>
  What the server relies on: a read inside the object delivers a non-empty prefix of the bytes
  asked for, whatever error accompanies it, and no read delivers more than was asked for.
\<close>

locale reader_at =
  fixes ReadAt :: "nat \<Rightarrow> backend" and object :: bytes
  assumes serves: "0 < len \<Longrightarrow> 0 \<le> off \<Longrightarrow> off < int (length object) \<Longrightarrow>
      fst (ReadAt k len off) \<noteq> [] \<and> prefix (fst (ReadAt k len off)) (take len (drop (nat off) object))"
    and ReadAt_bounded: "length (fst (ReadAt k len off)) \<le> len"
begin

lemma round_served:
  assumes "served object cookie start r" and "rd_cur r < rd_end r"
  shows "\<exists>r'. read_round cookie (ReadAt k) r = Inr r' \<and> served object cookie start r' \<and>
    rd_end r' = rd_end r \<and> rd_cur r < rd_cur r'"
proof -
  define buf where "buf = min (rd_buf r) (nat (rd_end r - rd_cur r))"
  let ?cur = "nat (rd_cur r)"
  note sv = assms(1) [unfolded served_def]
  have buf: "0 < buf" using sv assms(2) by (simp add: buf_def)
  have d: "fst (ReadAt k buf (rd_cur r)) \<noteq> []" "prefix (fst (ReadAt k buf (rd_cur r))) (take buf (drop ?cur object))"
    using serves [OF buf, of "rd_cur r" k] sv assms(2) by auto
  from ReadAt_bounded assms(2) show ?thesis
  proof (cases rule: read_round_cases [of "ReadAt k" r cookie])
    case eio
    with d(1) show ?thesis by (simp add: buf_def)
  next
    case (go r' data)
    note g = go [folded buf_def]
    have data: "data \<noteq> []" "prefix data (take buf (drop ?cur object))" using g(8) d by simp_all
    then obtain n where n: "data = take n (drop ?cur object)" "n \<le> buf"
      by (metis min.cobounded1 min.commute prefix_def take_append append_eq_conv_conj take_take)
    have l: "length data = n"
      using n g(4) sv assms(2) by (auto simp: buf_def)
    have step: "take (?cur + n - start) (drop start object) =
        take (?cur - start) (drop start object) @ take n (drop ?cur object)"
    proof -
      have e: "?cur + n - start = (?cur - start) + n" "?cur - start + start = ?cur" using sv by linarith+
      show ?thesis unfolding e(1) take_add by (simp add: e(2))
    qed
    have "served object cookie start r'"
      unfolding served_def using g sv data(1) n l step buf assms(2)
      by (auto simp: buf_def nat_add_distrib)
    with g data(1) show ?thesis by auto
  qed
qed

lemma loop_served:
  "served object cookie start r \<Longrightarrow> start < nat (rd_end r) \<Longrightarrow> nat (rd_end r - rd_cur r) < fuel \<Longrightarrow>
   read_loop fuel cookie ReadAt k r = Some (replyHeader 0 cookie @ take (nat (rd_end r) - start) (drop start object))"
proof (induction fuel arbitrary: k r)
  case 0
  then show ?case by simp
next
  case (Suc fuel)
  show ?case
  proof (cases "rd_cur r < rd_end r")
    case True
    from round_served [OF Suc.prems(1) True, of k] obtain r' where r': "read_round cookie (ReadAt k) r = Inr r'"
      "served object cookie start r'" "rd_end r' = rd_end r" "rd_cur r < rd_cur r'" by blast
    moreover have "nat (rd_end r' - rd_cur r') < fuel" using r'(3,4) Suc.prems(3) True by linarith
    ultimately show ?thesis using Suc.IH [of r' "Suc k"] Suc.prems(2) True by simp
  next
    case False
    then have "rd_cur r = rd_end r" using Suc.prems(1) by (simp add: served_def)
    with Suc.prems show ?thesis by (auto simp: served_def)
  qed
qed

lemma handle_read_served:
  assumes "rq_Offset cmd + rq_Len cmd \<le> length object" and "length object < 2 ^ 63"
    and "0 < rq_Len cmd" and "rq_Len cmd < fuel"
  shows "handle_read fuel ReadAt cmd =
    Some (replyHeader 0 (rq_Cookie cmd) @ take (rq_Len cmd) (drop (rq_Offset cmd) object))"
proof -
  note b = read_begin_in_range [of cmd]
  have lt: "rq_Offset cmd + rq_Len cmd < 2 ^ 63" using assms(1,2) by linarith
  have "served object (rq_Cookie cmd) (rq_Offset cmd) (read_begin cmd)"
    using b [OF lt] assms(1) by (simp add: served_def) (simp add: read_begin_def Let_def buffer_Size_def)
  from loop_served [OF this, of fuel 0] b [OF lt] assms(3,4) show ?thesis
    by (simp add: handle_read_def nat_add_distrib)
qed

end

section \<open>Commands in order\<close>

text \<open>
  As long as no write command is sent, the commands taken, the one waiting in the channel and
  the ones still in the input are the client's commands in their order.
\<close>

definition in_order :: "request list \<Rightarrow> transmission \<Rightarrow> bool" where
  "in_order cmds t \<longleftrightarrow>
     (\<exists>rest. cmds = t_taken t @ (case t_cmd t of None \<Rightarrow> [] | Some c \<Rightarrow> [c]) @ rest \<and>
        t_in t = concat (map encode_request rest)) \<and>
     (\<forall>n c. t_main t \<noteq> Discarding n c)"

definition no_write :: "request \<Rightarrow> bool" where
  "no_write cmd \<longleftrightarrow> rq_Type cmd \<noteq> NBD_CMD_WRITE"

lemma dispatch_no_write: "no_write cmd \<Longrightarrow> dispatch cmd \<noteq> DiscardPayload n"
  by (auto simp: dispatch_def no_write_def)

lemma in_order_step:
  assumes cmds: "\<forall>c \<in> set cmds. request_ok c \<and> no_write c" and ok: "in_order cmds t" and step: "trans_step t t'"
  shows "in_order cmds t'"
proof -
  from ok obtain rest where rest: "cmds = t_taken t @ (case t_cmd t of None \<Rightarrow> [] | Some c \<Rightarrow> [c]) @ rest"
    "t_in t = concat (map encode_request rest)" and nd: "\<And>n c. t_main t \<noteq> Discarding n c"
    by (auto simp: in_order_def)
  from step show ?thesis
  proof cases
    case recv
    then have e: "t_cmd t = None" "request_size \<le> length (t_in t)"
      and t': "t' = t\<lparr>t_cmd := Some (decode_request (take request_size (t_in t))), t_in := drop request_size (t_in t)\<rparr>"
      by (auto simp: receive_command_def split: if_splits)
    from e(2) rest(2) obtain c rest' where c: "rest = c # rest'"
      by (cases rest) (auto simp: request_size_def)
    have "decode_request (take request_size (t_in t)) = c" "drop request_size (t_in t) = concat (map encode_request rest')"
      using cmds rest c by (auto simp: decode_encode_request)
    with e(1) rest c nd t' show ?thesis by (auto simp: in_order_def intro!: exI [of _ rest'])
  next
    case handle
    then obtain c where c: "t_main t = Waiting" "t_cmd t = Some c"
      by (auto simp: take_command_def split: main_state.splits option.splits)
    then have "no_write c" using rest(1) cmds by auto
    with c handle rest dispatch_no_write [of c] show ?thesis
      by (cases "dispatch c") (auto simp: in_order_def take_command_def Let_def)
  next
    case (skip k)
    then show ?thesis using nd by (auto simp: discard_some_def split: main_state.splits)
  qed
qed

lemma in_order_begin: "in_order cmds (transmission_begin (concat (map encode_request cmds)))"
  by (simp add: in_order_def transmission_begin_def)

lemma transmission_in_order:
  assumes "\<forall>c \<in> set cmds. request_ok c \<and> no_write c"
  shows "invariant_system ((=) (transmission_begin (concat (map encode_request cmds)))) trans_step (in_order cmds)"
  using in_order_begin in_order_step [OF assms] by unfold_locales auto

section \<open>Properties\<close>

text \<open>
  C13. Every read request is answered by exactly one well-framed reply: whatever a backend does
  that always delivers something or reports an error, the handler terminates, and what it has
  written is either an error reply or a success header followed by exactly as many bytes as were
  requested.
\<close>

theorem read_answered_once:
  assumes "bounded ReadAt" and "responsive ReadAt" and "rq_Offset cmd + rq_Len cmd < 2 ^ 63" and "0 < rq_Len cmd"
  shows "\<exists>out. handle_read (32 * rq_Len cmd + 32) ReadAt cmd = Some out \<and>
    (out = replyHeader NBD_EIO (rq_Cookie cmd) \<or>
     (\<exists>d. out = replyHeader 0 (rq_Cookie cmd) @ d \<and> length d = rq_Len cmd))"
proof -
  note b = read_begin_in_range [OF assms(3)]
  have "rounds_left (read_begin cmd) < 32 * rq_Len cmd + 32" "0 < rd_buf (read_begin cmd)"
    using b by (simp_all add: rounds_left_def) (simp add: read_begin_def Let_def buffer_Size_def)
  from read_loop_terminates [OF assms(1,2) this] obtain out where
    out: "handle_read (32 * rq_Len cmd + 32) ReadAt cmd = Some out" unfolding handle_read_def by blast
  have f: "framed (rq_Cookie cmd) (rd_cur (read_begin cmd)) (read_begin cmd)" by (rule read_begin_framed) (simp add: b)
  from read_loop_framed [OF assms(1) f out [unfolded handle_read_def]] b out assms(4) show ?thesis by auto
qed

theorem read_answered_once_witness:
  "\<exists>out. handle_read 96 (\<lambda>_ _ _. ([], True)) \<lparr>rq_Magic = 0, rq_Flag = 0, rq_Type = 0, rq_Cookie = 5, rq_Offset = 10, rq_Len = 2\<rparr>
      = Some out \<and> out = replyHeader NBD_EIO 5"
proof -
  let ?cmd = "\<lparr>rq_Magic = 0, rq_Flag = 0, rq_Type = 0, rq_Cookie = 5, rq_Offset = 10, rq_Len = 2\<rparr>"
  obtain out where o: "handle_read 96 (\<lambda>_ _ _. ([], True)) ?cmd = Some out"
    using read_answered_once [of "\<lambda>_ _ _. ([], True)" ?cmd] by (auto simp: bounded_def responsive_def)
  then have "out = replyHeader NBD_EIO 5"
    by (simp add: handle_read_def read_begin_def Let_def eval_nat_numeral read_round_def)
  with o show ?thesis by blast
qed

text \<open>
  C34. A read request is not answered at all when its length is zero or when its end does not fit
  into an \<open>int64\<close>: the handler then returns at once, without a reply.
\<close>

theorem read_without_reply:
  assumes "rq_Offset cmd < 2 ^ 63" and "rq_Len cmd < 2 ^ 32" and "rq_Len cmd = 0 \<or> 2 ^ 63 \<le> rq_Offset cmd + rq_Len cmd"
  shows "handle_read (Suc fuel) ReadAt cmd = Some []"
proof -
  let ?o = "int (rq_Offset cmd)" and ?l = "int (rq_Len cmd)"
  have o: "0 \<le> ?o" "?o < 2 ^ 63" "0 \<le> ?l" "?l < 2 ^ 32" "?l = 0 \<or> 2 ^ 63 \<le> ?o + ?l"
    using assms by (simp_all, linarith)
  have cur: "int64 ?o = ?o" using o by simp
  have "int64 (?o + ?l) \<le> ?o"
  proof (cases "?l = 0")
    case False
    with o have "int64 (?o + ?l) = ?o + ?l - 2 ^ 64" by (intro int64_wrap) simp_all
    then show ?thesis using o by simp
  qed (use cur in simp)
  with cur show ?thesis by (simp add: handle_read_def read_begin_def Let_def)
qed

theorem read_without_reply_witness:
  "handle_read 1 (\<lambda>_ _ _. ([1], False))
     \<lparr>rq_Magic = 0, rq_Flag = 0, rq_Type = 0, rq_Cookie = 5, rq_Offset = 2 ^ 63 - 1, rq_Len = 10\<rparr> = Some []"
  using read_without_reply [where fuel = 0 and ReadAt = "\<lambda>_ _ _. ([1], False)" and
      cmd = "\<lparr>rq_Magic = 0, rq_Flag = 0, rq_Type = 0, rq_Cookie = 5, rq_Offset = 2 ^ 63 - 1, rq_Len = 10\<rparr>"] by simp

text \<open>
  C14. Commands are handled in order: when a client sends no write command, the commands the main
  loop has taken are, at any moment and under any scheduling of the two goroutines, a prefix of
  the commands the client has sent.
\<close>

theorem commands_in_order:
  assumes "\<forall>c \<in> set cmds. request_ok c \<and> no_write c"
    and "reach ((=) (transmission_begin (concat (map encode_request cmds)))) trans_step t"
  shows "prefix (t_taken t) cmds"
  using invariant_system.reach_inv [OF transmission_in_order [OF assms(1)] assms(2)]
  by (auto simp: in_order_def)

text \<open>A client's commands for the examples.\<close>

definition demo_request :: "nat \<Rightarrow> nat \<Rightarrow> nat \<Rightarrow> request" where
  "demo_request t cookie len =
     \<lparr>rq_Magic = NBD_REQUEST_MAGIC, rq_Flag = 0, rq_Type = t, rq_Cookie = cookie, rq_Offset = 0, rq_Len = len\<rparr>"

lemma demo_request_decode:
  "t < 2 ^ 16 \<Longrightarrow> cookie < 2 ^ 64 \<Longrightarrow> len < 2 ^ 32 \<Longrightarrow>
   decode_request (encode_request (demo_request t cookie len)) = demo_request t cookie len"
  by (rule decode_encode_request) (simp add: request_ok_def demo_request_def NBD_REQUEST_MAGIC_def)

theorem commands_in_order_witness:
  "prefix (t_taken (transmission_begin (concat (map encode_request [demo_request NBD_CMD_READ 7 4]))))
     [demo_request NBD_CMD_READ 7 4]"
  by (rule commands_in_order [OF _ reach_self])
     (simp add: request_ok_def no_write_def demo_request_def NBD_REQUEST_MAGIC_def nbd_cmds)

text \<open>
  C35. The payload of a write command can be taken for commands: the receiver goes on reading
  while the main loop discards the payload, so that both read from the connection.  A client
  sends a write whose payload looks like a read request, and then a read request of its own; in
  one scheduling the server executes the request in the payload and discards the client's.
\<close>

theorem write_payload_executed:
  "\<exists>payload own t. reach ((=) (transmission_begin
       (encode_request (demo_request NBD_CMD_WRITE 1 request_size) @ payload @ encode_request own))) trans_step t \<and>
     length payload = request_size \<and> own = demo_request NBD_CMD_READ 2 4 \<and>
     t_reads t = [decode_request payload] \<and> decode_request payload \<noteq> own \<and> t_in t = []"
proof -
  define w where "w = demo_request NBD_CMD_WRITE 1 request_size"
  define evil where "evil = demo_request NBD_CMD_READ 3 9"
  define own where "own = demo_request NBD_CMD_READ 2 4"
  let ?t0 = "transmission_begin (encode_request w @ encode_request evil @ encode_request own)"
  have dec: "decode_request (encode_request w) = w" "decode_request (encode_request evil) = evil"
    unfolding w_def evil_def by (rule demo_request_decode; simp add: nbd_cmds request_size_def)+
  have disp: "dispatch w = DiscardPayload request_size" "dispatch evil = StartRead" "rq_Cookie w = 1"
    by (simp_all add: w_def evil_def dispatch_def demo_request_def nbd_cmds)
  let ?t1 = "?t0\<lparr>t_cmd := Some w, t_in := encode_request evil @ encode_request own\<rparr>"
  let ?t2 = "?t0\<lparr>t_in := encode_request evil @ encode_request own, t_taken := [w], t_main := Discarding request_size w\<rparr>"
  let ?t3 = "?t0\<lparr>t_in := encode_request own, t_cmd := Some evil, t_taken := [w], t_main := Discarding request_size w\<rparr>"
  let ?t4 = "?t0\<lparr>t_in := [], t_cmd := Some evil, t_taken := [w], t_main := Discarding 0 w\<rparr>"
  let ?t5 = "?t0\<lparr>t_in := [], t_cmd := Some evil, t_taken := [w], t_errors := [(NBD_ENOTSUP, 1)]\<rparr>"
  let ?t6 = "?t0\<lparr>t_in := [], t_taken := [w, evil], t_errors := [(NBD_ENOTSUP, 1)], t_reads := [evil]\<rparr>"
  have s1: "trans_step ?t0 ?t1" by (rule trans_step.recv) (simp add: receive_command_def transmission_begin_def dec)
  have s2: "trans_step ?t1 ?t2" by (rule trans_step.handle) (simp add: take_command_def transmission_begin_def disp)
  have s3: "trans_step ?t2 ?t3" by (rule trans_step.recv) (simp add: receive_command_def transmission_begin_def dec)
  have s4: "trans_step ?t3 ?t4"
    by (rule trans_step.skip [of request_size]) (simp add: discard_some_def transmission_begin_def, simp add: request_size_def)
  have s5: "trans_step ?t4 ?t5" by (rule trans_step.skip [of 0]) (simp add: discard_some_def transmission_begin_def disp)
  have s6: "trans_step ?t5 ?t6" by (rule trans_step.handle) (simp add: take_command_def transmission_begin_def disp)
  have r0: "reach ((=) ?t0) trans_step ?t0" by (rule reach_self)
  have "reach ((=) ?t0) trans_step ?t6"
    by (rule reach_step [OF reach_step [OF reach_step [OF reach_step [OF reach_step [OF reach_step [OF r0 s1] s2] s3] s4] s5] s6])
  moreover have "evil \<noteq> own" by (simp add: evil_def own_def demo_request_def)
  ultimately show ?thesis
    using dec(2) by (intro exI [of _ "encode_request evil"] exI [of _ own] exI [of _ ?t6])
      (simp add: w_def own_def)
qed

end
