(* ===== verification/Verity.thy ===== *)
theory Verity
  imports Binary
begin

text \<open>
  Background integrity checks (\<open>src/nbd/verity\<close>): locating the dm-verity superblock after a
  squashfs image, validating it, finding the leaf hashes and verifying data blocks.

  The partition is a byte string read with \<open>io.ReaderAt\<close>; \<open>sha256\<close> is a parameter, a function
  from byte strings to digests.
\<close>

section \<open>Reading\<close>

datatype verity_error =
    ReadSquashfs | SquashfsMagic nat | SquashfsMajor nat | SquashfsMinor nat
  | ReadSuperblock | VerityMagic bytes | VerityVersion nat | VerityType nat
  | UnsupportedHash bytes | SaltTooShort nat | EmptySalt
  | ReadHash | ReadData | HashMismatch nat

text \<open>
  \<open>len\<close> bytes at an offset, or an error (the end of the partition, or a negative offset):
  \<open>binary.Read\<close> and \<open>io.CopyN\<close> on an \<open>offsetReader\<close>, and the full reads of \<open>ReadAt\<close>.
\<close>

definition read_exact :: "bytes \<Rightarrow> int \<Rightarrow> nat \<Rightarrow> bytes option" where
  "read_exact part off len =
     (if 0 \<le> off \<and> nat off + len \<le> length part then Some (take len (drop (nat off) part)) else None)"

section \<open>Superblocks\<close>

record squashfs_superblock =
  sq_Magic :: nat
  sq_VersionMajor :: nat
  sq_VersionMinor :: nat
  sq_BytesUsed :: nat

definition squashfs_size :: nat where "squashfs_size = 5 * 4 + 6 * 2 + 8 * 8"

definition parse_squashfs :: "bytes \<Rightarrow> squashfs_superblock" where
  "parse_squashfs bs =
     \<lparr>sq_Magic = le_get (take 4 bs), sq_VersionMajor = le_get (take 2 (drop 28 bs)),
      sq_VersionMinor = le_get (take 2 (drop 30 bs)), sq_BytesUsed = le_get (take 8 (drop 40 bs))\<rparr>"

definition squashfs_Validate :: "squashfs_superblock \<Rightarrow> (verity_error, unit) res" where
  "squashfs_Validate sb =
     (if sq_Magic sb \<noteq> 0x73717368 then Err (SquashfsMagic (sq_Magic sb))
      else if sq_VersionMajor sb \<noteq> 4 then Err (SquashfsMajor (sq_VersionMajor sb))
      else if sq_VersionMinor sb \<noteq> 0 then Err (SquashfsMinor (sq_VersionMinor sb))
      else Ok ())"

record verity_superblock =
  vs_Magic :: bytes
  vs_Version :: nat
  vs_Type :: nat
  vs_Algorithm :: bytes
  vs_DataBlockSize :: nat
  vs_HashBlockSize :: nat
  vs_DataBlockCount :: nat
  vs_SaltSize :: nat
  vs_Salt :: bytes

definition superblock_size :: nat where "superblock_size = 512"

definition parse_superblock :: "bytes \<Rightarrow> verity_superblock" where
  "parse_superblock bs =
     \<lparr>vs_Magic = take 8 bs, vs_Version = le_get (take 4 (drop 8 bs)), vs_Type = le_get (take 4 (drop 12 bs)),
      vs_Algorithm = take 32 (drop 32 bs), vs_DataBlockSize = le_get (take 4 (drop 64 bs)),
      vs_HashBlockSize = le_get (take 4 (drop 68 bs)), vs_DataBlockCount = le_get (take 8 (drop 72 bs)),
      vs_SaltSize = le_get (take 2 (drop 80 bs)), vs_Salt = take 256 (drop 88 bs)\<rparr>"

definition sha256_Size :: nat where "sha256_Size = 32"

text \<open>
  \<open>sb.Algorithm[:bytes.IndexByte(sb.Algorithm[:], 0)]\<close>: without a zero byte the index is -1 and
  the slice expression panics.
\<close>

definition validate :: "verity_superblock \<Rightarrow> (verity_error, unit) res" where
  "validate sb =
     (if vs_Magic sb \<noteq> bytes_of ''verity'' @ [0, 0] then Err (VerityMagic (vs_Magic sb))
      else if vs_Version sb \<noteq> 1 then Err (VerityVersion (vs_Version sb))
      else if vs_Type sb \<noteq> 1 then Err (VerityType (vs_Type sb))
      else if 0 \<notin> set (vs_Algorithm sb) then Panic
      else if takeWhile (\<lambda>b. b \<noteq> 0) (vs_Algorithm sb) \<noteq> bytes_of ''sha256'' then Err (UnsupportedHash (vs_Algorithm sb))
      else if vs_SaltSize sb < sha256_Size then Err (SaltTooShort (vs_SaltSize sb * 8))
      else if vs_Salt sb = replicate 256 0 then Err EmptySalt
      else Ok ())"

section \<open>Locating the superblock\<close>

record verity =
  v_sb :: verity_superblock
  v_superblockOffset :: int
  v_leafHashOffset :: int

definition align :: int where "align = 4096"

definition superblock_offset :: "nat \<Rightarrow> int" where
  "superblock_offset BytesUsed =
     go_div (int64 (int BytesUsed)) align * align + (if BytesUsed mod 4096 \<noteq> 0 then align else 0)"

definition verityAfterSquashfs :: "bytes \<Rightarrow> (verity_error, verity) res" where
  "verityAfterSquashfs part =
     (case read_exact part 0 squashfs_size of
        None \<Rightarrow> Err ReadSquashfs
      | Some sq \<Rightarrow>
          let squashfs = parse_squashfs sq in
          res_bind (squashfs_Validate squashfs) (\<lambda>_.
          let off = superblock_offset (sq_BytesUsed squashfs) in
          case read_exact part off superblock_size of
            None \<Rightarrow> Err ReadSuperblock
          | Some bs \<Rightarrow>
              let sb = parse_superblock bs in
              res_bind (validate sb) (\<lambda>_.
                Ok \<lparr>v_sb = sb, v_superblockOffset = off, v_leafHashOffset = 0\<rparr>)))"

section \<open>Leaf hashes\<close>

text \<open>
  The sizes of the layers of the hash tree, from the leaves up: \<open>for blocks > 1\<close>, every layer
  has one block per \<open>hashesPerBlock\<close> blocks below, rounded up.  When a hash block holds a
  single hash the layers do not get smaller and the loop runs forever, hence the fuel; when it
  holds none, the division panics.
\<close>

definition layer_up :: "int \<Rightarrow> int \<Rightarrow> int" where
  "layer_up hashesPerBlock blocks =
     go_div blocks hashesPerBlock + (if blocks mod hashesPerBlock \<noteq> 0 then 1 else 0)"

fun layers :: "nat \<Rightarrow> int \<Rightarrow> int \<Rightarrow> int list option" where
  "layers 0 hashesPerBlock blocks = None"
| "layers (Suc fuel) hashesPerBlock blocks =
     (if blocks > 1
      then map_option (Cons (layer_up hashesPerBlock blocks)) (layers fuel hashesPerBlock (layer_up hashesPerBlock blocks))
      else Some [])"

definition findFirstLeafHash :: "nat \<Rightarrow> nat \<Rightarrow> verity \<Rightarrow> (verity_error, verity) res option" where
  "findFirstLeafHash fuel hashSize t =
     (let hb = int (vs_HashBlockSize (v_sb t));
          hashesPerBlock = go_div hb (int hashSize);
          blocks = int64 (int (vs_DataBlockCount (v_sb t)))
      in if blocks > 1 \<and> hashesPerBlock = 0 then Some Panic
         else map_option (\<lambda>layer.
           let offset = (\<Sum>l\<leftarrow>tl layer. l * hb)
           in Ok (t\<lparr>v_leafHashOffset := v_superblockOffset t + hb + offset\<rparr>))
         (layers fuel hashesPerBlock blocks))"

section \<open>Verification\<close>

definition verifyBlock :: "(bytes \<Rightarrow> bytes) \<Rightarrow> bytes \<Rightarrow> verity \<Rightarrow> nat \<Rightarrow> (verity_error, unit) res" where
  "verifyBlock sha256 part t idx =
     (case read_exact part (int64 (v_leafHashOffset t + int idx * int sha256_Size)) sha256_Size of
        None \<Rightarrow> Err ReadHash
      | Some want \<Rightarrow>
          res_bind (slice (vs_Salt (v_sb t)) 0 (vs_SaltSize (v_sb t))) (\<lambda>salt.
          case read_exact part (int64 (int idx * int (vs_DataBlockSize (v_sb t)))) (vs_DataBlockSize (v_sb t)) of
            None \<Rightarrow> Err ReadData
          | Some data \<Rightarrow> if sha256 (salt @ data) \<noteq> want then Err (HashMismatch idx) else Ok ()))"

text \<open>The loop over the blocks of a region.\<close>

function verify_blocks ::
    "(bytes \<Rightarrow> bytes) \<Rightarrow> bytes \<Rightarrow> verity \<Rightarrow> nat \<Rightarrow> int \<Rightarrow> (verity_error, unit) res" where
  "verify_blocks sha256 part t block remaining =
     (if remaining > 0 \<and> block < vs_DataBlockCount (v_sb t)
      then res_bind (verifyBlock sha256 part t block) (\<lambda>_.
        verify_blocks sha256 part t (block + 1) (remaining - int (vs_DataBlockSize (v_sb t))))
      else Ok ())"
  by pat_completeness auto
termination
  by (relation "measure (\<lambda>(_, _, t, block, _). vs_DataBlockCount (v_sb t) - block)") auto

declare verify_blocks.simps [simp del]

text \<open>A block size of zero makes the division panic.\<close>

definition Verify ::
    "nat \<Rightarrow> (bytes \<Rightarrow> bytes) \<Rightarrow> bytes \<Rightarrow> verity \<Rightarrow> nat \<Rightarrow> int \<Rightarrow> (verity_error, unit) res option" where
  "Verify fuel sha256 part t offset len =
     map_option (\<lambda>r. res_bind r (\<lambda>t.
         if vs_DataBlockSize (v_sb t) = 0 then Panic
         else verify_blocks sha256 part t (offset div vs_DataBlockSize (v_sb t)) len))
       (if v_leafHashOffset t < v_superblockOffset t then findFirstLeafHash fuel sha256_Size t else Some (Ok t))"

section \<open>The hash tree\<close>








section \<open>Properties\<close>


definition demo_verity :: verity where
  "demo_verity = \<lparr>v_sb = \<lparr>vs_Magic = [], vs_Version = 1, vs_Type = 1, vs_Algorithm = [], vs_DataBlockSize = 2,
     vs_HashBlockSize = 64, vs_DataBlockCount = 3, vs_SaltSize = 1, vs_Salt = [9]\<rparr>,
     v_superblockOffset = 8, v_leafHashOffset = 8\<rparr>"


lemma verify_blocks_Ok:
  assumes "0 < vs_DataBlockSize (v_sb t)"
  shows "verify_blocks sha256 part t b len = Ok () \<longleftrightarrow>
    (\<forall>k. b \<le> k \<and> k < vs_DataBlockCount (v_sb t) \<and> int ((k - b) * vs_DataBlockSize (v_sb t)) < len \<longrightarrow>
       verifyBlock sha256 part t k = Ok ())"
  using assms
proof (induction sha256 part t b len rule: verify_blocks.induct)
  case (1 sha256 part t b len)
  let ?bs = "vs_DataBlockSize (v_sb t)" and ?n = "vs_DataBlockCount (v_sb t)" and ?v = "verifyBlock sha256 part t"
  show ?case
  proof (cases "len > 0 \<and> b < ?n")
    case False
    then have "verify_blocks sha256 part t b len = Ok ()" by (subst verify_blocks.simps) auto
    moreover have "\<not> (b \<le> k \<and> k < ?n \<and> int ((k - b) * ?bs) < len)" for k
      using False le_less_trans [OF of_nat_0_le_iff, of "(k - b) * ?bs" len] by auto
    ultimately show ?thesis by blast
  next
    case True
    have shift: "int ((k - b) * ?bs) < len \<longleftrightarrow> int ((k - (b + 1)) * ?bs) < len - int ?bs" if "b + 1 \<le> k" for k
    proof -
      have "k - b = Suc (k - (b + 1))" using that by simp
      then show ?thesis by simp linarith
    qed
    have "verify_blocks sha256 part t b len = Ok () \<longleftrightarrow> ?v b = Ok () \<and>
        verify_blocks sha256 part t (b + 1) (len - int ?bs) = Ok ()"
      using True by (subst verify_blocks.simps) auto
    also have "\<dots> \<longleftrightarrow> ?v b = Ok () \<and> (\<forall>k. b + 1 \<le> k \<and> k < ?n \<and> int ((k - b) * ?bs) < len \<longrightarrow> ?v k = Ok ())"
      using "1.IH" [OF True _ "1.prems"] shift by (cases "?v b") auto
    also have "\<dots> \<longleftrightarrow> (\<forall>k. b \<le> k \<and> k < ?n \<and> int ((k - b) * ?bs) < len \<longrightarrow> ?v k = Ok ())"
      (is "?l \<longleftrightarrow> ?r")
    proof
      assume l: ?l
      show ?r
      proof (intro allI impI)
        fix k
        assume k: "b \<le> k \<and> k < ?n \<and> int ((k - b) * ?bs) < len"
        show "?v k = Ok ()"
        proof (cases "k = b")
          case False
          with k have "b + 1 \<le> k" by simp
          with l k show ?thesis by blast
        qed (use l in blast)
      qed
    qed (use True in auto)
    finally show ?thesis .
  qed
qed

text \<open>The block \<open>k\<close> of \<open>bs\<close> bytes has a byte in common with the region.\<close>

definition overlaps :: "nat \<Rightarrow> nat \<Rightarrow> nat \<Rightarrow> int \<Rightarrow> bool" where
  "overlaps bs k offset len \<longleftrightarrow> offset < (k + 1) * bs \<and> int (k * bs) < int offset + len"



text \<open>
  An example in which the region of two bytes at offset 1 lies in the blocks 0 and 1: only block 0 is
  checked, and the verification succeeds although the hash of block 1 cannot even be read.
\<close>

definition demo_part :: bytes where
  "demo_part = replicate 8 0 @ replicate 32 5"

lemma demo_blocks:
  "verifyBlock (\<lambda>_. replicate 32 5) demo_part demo_verity 0 = Ok ()"
  "verifyBlock (\<lambda>_. replicate 32 5) demo_part demo_verity 1 = Err ReadHash"
  by code_simp+


lemma verify_skips_last_block:
  "overlaps 2 1 1 2" "verifyBlock (\<lambda>_. replicate 32 5) demo_part demo_verity 1 \<noteq> Ok ()"
  "Verify 0 (\<lambda>_. replicate 32 5) demo_part demo_verity 1 2 = Some (Ok ())"
proof -
  have b: "vs_DataBlockSize (v_sb demo_verity) = 2" "0 < vs_DataBlockSize (v_sb demo_verity)" by (simp_all add: demo_verity_def)
  have "k = 0" if "int (k * 2) < 2" for k :: nat using that by simp
  then show "Verify 0 (\<lambda>_. replicate 32 5) demo_part demo_verity 1 2 = Some (Ok ())"
    using verify_blocks_Ok [OF b(2), of "\<lambda>_. replicate 32 5" demo_part 0 2] demo_blocks(1) b
    by (auto simp: Verify_def demo_verity_def)
qed (simp_all add: overlaps_def demo_blocks del: One_nat_def)

end
