(* ===== verification/Access.thy ===== *)
theory Access
  imports Prelude
begin

text \<open>
  Access control of the secrets repository (\<open>src/secrets/access\<close>): capabilities,
  certificates, delegation, and the access control list, an in-memory SQL table that is filled
  from certificates and queried by \<open>Check\<close>.

  Code outside the repository enters as a parameter: \<open>ssh.FingerprintSHA256\<close> (\<open>fp\<close>),
  \<open>(*ssh.CertChecker).CheckCert\<close> (\<open>check_cert\<close>), \<open>(*ssh.Certificate).SignCert\<close>
  (\<open>sign_cert\<close>), and SQLite's \<open>GLOB\<close> operator (\<open>glob\<close>).  The table's statements are the
  source's own SQL and are written as list operations on rows.
\<close>

section \<open>Capabilities (capabilities.go)\<close>

type_synonym capability = string

definition ManageWriters :: capability where "ManageWriters = ''pond/secrets: manage write access''"
definition ManageReaders :: capability where "ManageReaders = ''pond/secrets: manage read access''"
definition Read :: capability where "Read = ''pond/secrets: read secrets''"
definition Write :: capability where "Write = ''pond/secrets: write secrets''"

lemmas capability_defs = ManageWriters_def ManageReaders_def Read_def Write_def

lemma capabilities_distinct [simp]:
  "ManageWriters \<noteq> ManageReaders" "ManageReaders \<noteq> ManageWriters" "Read \<noteq> Write" "Write \<noteq> Read"
  "ManageWriters \<noteq> Read" "Read \<noteq> ManageWriters" "ManageWriters \<noteq> Write" "Write \<noteq> ManageWriters"
  "ManageReaders \<noteq> Read" "Read \<noteq> ManageReaders" "ManageReaders \<noteq> Write" "Write \<noteq> ManageReaders"
  by (simp_all add: capability_defs)

text \<open>A Go map read at a missing key gives the zero value: 0 and the empty string here.\<close>

definition short_caps :: "capability \<Rightarrow> string option" where
  "short_caps c =
     (if c = ManageWriters then Some ''wA'' else if c = ManageReaders then Some ''rA''
      else if c = Read then Some ''r'' else if c = Write then Some ''w'' else None)"

definition Required :: "capability \<Rightarrow> capability" where
  "Required c = (if c = Read then ManageReaders else if c = Write then ManageWriters else '''')"

definition caps :: "capability \<Rightarrow> nat" where
  "caps c =
     (if c = ManageReaders then 1 else if c = ManageWriters then 2
      else if c = Read then 3 else if c = Write then 4 else 0)"

definition cap_Admin :: "capability \<Rightarrow> bool" where
  "cap_Admin c \<longleftrightarrow> c = ManageWriters \<or> c = ManageReaders"

definition cap_User :: "capability \<Rightarrow> bool" where
  "cap_User c \<longleftrightarrow> c = Read \<or> c = Write"

definition cap_Valid :: "capability \<Rightarrow> bool" where
  "cap_Valid c \<longleftrightarrow> c = ManageWriters \<or> c = ManageReaders \<or> c = Read \<or> c = Write"

definition cap_Short :: "capability \<Rightarrow> string" where
  "cap_Short c = (case short_caps c of Some s \<Rightarrow> s | None \<Rightarrow> c)"

section \<open>Keys and certificates (cert.go, util/public\_key.go)\<close>

text \<open>What the code asks of an \<open>ssh.PublicKey\<close>: its \<open>Type()\<close> and its \<open>Marshal()\<close>.\<close>

record pubkey =
  key_Type :: string
  key_Marshal :: bytes

definition EqualSSH :: "pubkey \<Rightarrow> pubkey \<Rightarrow> bool" where
  "EqualSSH a b = (if key_Type a \<noteq> key_Type b then False else key_Marshal a = key_Marshal b)"

text \<open>
  The fields of \<open>ssh.Certificate\<close> the code uses.  \<open>CriticalOptions\<close> is a Go map whose
  values the code never reads; it is kept as the list of its keys in the order in which
  the map happens to be iterated.  \<open>SignatureKey\<close> is nil until the certificate is signed.
\<close>

record cert =
  cert_Key :: pubkey
  KeyId :: string
  ValidPrincipals :: "string list"
  CriticalOptions :: "string list"
  Serial :: nat
  cert_ValidAfter :: nat
  cert_ValidBefore :: nat
  cert_SignatureKey :: "pubkey option"

datatype access_error =
    NoCapabilities | NoPaths | RelativePath string | NoName
  | SelfDelegation | EmptyKeyId | NoPrincipals | InvalidCapability capability | MixedCapabilities
  | CertCheckFailed | SignFailed | MixedDelegation
  | NotSignedByMaster string | SignerNotAdmin string capability access_error
  | PermissionDenied | SqlInsert | LoadFailed string
  | AgentUnavailable | NoIdentities | NoMatchingIdentity nat | IdentityFailed

text \<open>\<open>if path[0] != '/' { ... }\<close>, in \<open>NewCertificate\<close> and in \<open>Validate\<close>\<close>

definition rooted :: "string \<Rightarrow> (access_error, unit) res" where
  "rooted p = res_bind (index p 0) (\<lambda>c. if c \<noteq> CHR ''/'' then Err (RelativePath p) else Ok ())"

lemma rooted_Ok [simp]: "rooted p = Ok () \<longleftrightarrow> p \<noteq> [] \<and> hd p = CHR ''/''"
  by (cases p) (auto simp: rooted_def index_def)

definition NewCertificate ::
    "pubkey \<Rightarrow> string \<Rightarrow> string list \<Rightarrow> capability list \<Rightarrow> (access_error, cert) res" where
  "NewCertificate recepient name paths cs =
     (if length cs = 0 then Err NoCapabilities
      else if length paths = 0 then Err NoPaths
      else res_bind
        (each (\<lambda>p _. rooted p) paths ())
        (\<lambda>_. if length name = 0 then Err NoName
             else Ok \<lparr>cert_Key = recepient, KeyId = name, ValidPrincipals = paths,
                      CriticalOptions = remdups cs, Serial = 0, cert_ValidAfter = 0,
                      cert_ValidBefore = 0, cert_SignatureKey = None\<rparr>))"

definition Capabilities :: "cert \<Rightarrow> capability list" where
  "Capabilities c = CriticalOptions c"

definition cert_Admin :: "cert \<Rightarrow> bool" where
  "cert_Admin c =
     (if cert_SignatureKey c = None then False
      else case Capabilities c of [] \<Rightarrow> False | cap # _ \<Rightarrow> cap_Admin cap)"

text \<open>The loop over the capabilities: the class of the first one is the class of all.\<close>

fun same_class :: "bool option \<Rightarrow> capability list \<Rightarrow> (access_error, bool option) res" where
  "same_class adm [] = Ok adm"
| "same_class adm (c # cs) =
     (if \<not> cap_Valid c then Err (InvalidCapability c)
      else let adm = (case adm of None \<Rightarrow> cap_Admin c | Some b \<Rightarrow> b) in
        if adm \<noteq> cap_Admin c then Err MixedCapabilities else same_class (Some adm) cs)"

definition cert_Validate ::
    "(string list \<Rightarrow> string \<Rightarrow> cert \<Rightarrow> bool) \<Rightarrow> cert \<Rightarrow> (access_error, unit) res" where
  "cert_Validate check_cert c =
     (case cert_SignatureKey c of
        None \<Rightarrow> Panic
      | Some sk \<Rightarrow>
          if EqualSSH (cert_Key c) sk then Err SelfDelegation
          else if length (KeyId c) = 0 then Err EmptyKeyId
          else if length (ValidPrincipals c) = 0 then Err NoPrincipals
          else res_bind
            (each (\<lambda>p _. rooted p) (ValidPrincipals c) ())
            (\<lambda>_. if length (CriticalOptions c) = 0 then Err NoCapabilities
              else res_bind (same_class None (Capabilities c)) (\<lambda>adm.
                case adm of
                  None \<Rightarrow> Panic
                | Some b \<Rightarrow>
                    let supported = (if b then [ManageReaders, ManageWriters] else [Read, Write])
                    in if check_cert supported (ValidPrincipals c ! 0) c then Ok ()
                       else Err CertCheckFailed)))"

text \<open>
  \<open>(*Certificate).Sign\<close>: \<open>now\<close> and \<open>lifetime\<close> are in nanoseconds; the conversion of the
  Unix time to \<open>uint64\<close> wraps.
\<close>

definition unix :: "int \<Rightarrow> int" where
  "unix t = t div 1000000000"

definition cert_Sign ::
    "(string list \<Rightarrow> string \<Rightarrow> cert \<Rightarrow> bool) \<Rightarrow> (pubkey \<Rightarrow> cert \<Rightarrow> cert option) \<Rightarrow>
     int \<Rightarrow> pubkey \<Rightarrow> int \<Rightarrow> cert \<Rightarrow> (access_error, cert) res" where
  "cert_Sign check_cert sign_cert now authority lifetime c =
     (if EqualSSH (cert_Key c) authority then Err SelfDelegation
      else let c = c\<lparr>Serial := uint64 (unix now), cert_ValidAfter := uint64 (unix now),
                     cert_ValidBefore := uint64 (unix (now + lifetime))\<rparr>
        in case sign_cert authority c of
             None \<Rightarrow> Err SignFailed
           | Some c \<Rightarrow> res_bind (cert_Validate check_cert c) (\<lambda>_. Ok c))"

section \<open>Delegation (delegate.go)\<close>

definition delegate ::
    "(string list \<Rightarrow> string \<Rightarrow> cert \<Rightarrow> bool) \<Rightarrow> (pubkey \<Rightarrow> cert \<Rightarrow> cert option) \<Rightarrow> int \<Rightarrow>
     pubkey \<Rightarrow> pubkey \<Rightarrow> capability list \<Rightarrow> string list \<Rightarrow> string \<Rightarrow> int \<Rightarrow> (access_error, cert) res" where
  "delegate check_cert sign_cert now from to cs paths name lifetime =
     res_bind (NewCertificate to name paths cs)
       (cert_Sign check_cert sign_cert now from lifetime)"

definition DelegateAdmin ::
    "(string list \<Rightarrow> string \<Rightarrow> cert \<Rightarrow> bool) \<Rightarrow> (pubkey \<Rightarrow> cert \<Rightarrow> cert option) \<Rightarrow> int \<Rightarrow>
     pubkey \<Rightarrow> pubkey \<Rightarrow> capability list \<Rightarrow> string list \<Rightarrow> string \<Rightarrow> int \<Rightarrow> (access_error, cert) res" where
  "DelegateAdmin check_cert sign_cert now from to cs paths name lifetime =
     (if list_ex (\<lambda>c. \<not> cap_Admin c) cs then Err MixedDelegation
      else delegate check_cert sign_cert now from to cs paths name lifetime)"

definition DelegateUser ::
    "(string list \<Rightarrow> string \<Rightarrow> cert \<Rightarrow> bool) \<Rightarrow> (pubkey \<Rightarrow> cert \<Rightarrow> cert option) \<Rightarrow> int \<Rightarrow>
     pubkey \<Rightarrow> pubkey \<Rightarrow> capability list \<Rightarrow> string list \<Rightarrow> string \<Rightarrow> int \<Rightarrow> (access_error, cert) res" where
  "DelegateUser check_cert sign_cert now from to cs paths name lifetime =
     (if list_ex (\<lambda>c. \<not> cap_User c) cs then Err MixedDelegation
      else delegate check_cert sign_cert now from to cs paths name lifetime)"

section \<open>The access control list (acl.go, schema.sql)\<close>

record row =
  row_Fingerprint :: string
  row_Capability :: nat
  row_Path :: string
  row_Priority :: nat
  row_ValidAfter :: nat
  row_ValidBefore :: nat

record acl =
  acl_master :: pubkey
  acl_db :: "row list"

text \<open>The view \<open>ValidACL\<close>; \<open>now\<close> is SQLite's \<open>unixepoch()\<close>.\<close>

definition ValidACL :: "nat \<Rightarrow> row list \<Rightarrow> row list" where
  "ValidACL now db = filter (\<lambda>r. row_ValidAfter r \<le> now \<and> now < row_ValidBefore r) db"

text \<open>\<open>if dir[len(dir)-1] != '/' { dir += "/" }\<close>\<close>

definition with_slash :: "string \<Rightarrow> (access_error, string) res" where
  "with_slash dir =
     (if dir = [] then Panic else Ok (if last dir \<noteq> CHR ''/'' then dir @ ''/'' else dir))"

definition Check ::
    "(string \<Rightarrow> string \<Rightarrow> bool) \<Rightarrow> (pubkey \<Rightarrow> string) \<Rightarrow> nat \<Rightarrow> acl \<Rightarrow>
     pubkey \<Rightarrow> capability \<Rightarrow> string \<Rightarrow> (access_error, unit) res" where
  "Check glob fp now a key c dir =
     res_bind (with_slash dir) (\<lambda>dir.
       let count = length (filter (\<lambda>r. row_Fingerprint r = fp key \<and> row_Capability r = caps c \<and>
                                       glob (dir @ ''*'') (row_Path r)) (ValidACL now (acl_db a)))
       in if count = 0 then Err PermissionDenied else Ok ())"

text \<open>
  \<open>Validate\<close>: an administrator certificate is signed by the master key; for a user
  certificate the signer holds the matching administrator privilege on every path.
\<close>

definition acl_Validate ::
    "(string \<Rightarrow> string \<Rightarrow> bool) \<Rightarrow> (pubkey \<Rightarrow> string) \<Rightarrow> nat \<Rightarrow> acl \<Rightarrow> cert \<Rightarrow> (access_error, unit) res" where
  "acl_Validate glob fp now a c =
     (case cert_SignatureKey c of
        None \<Rightarrow> (if ValidPrincipals c = [] \<or> Capabilities c = [] then Ok () else Panic)
      | Some sk \<Rightarrow>
          if cert_Admin c then
            (if \<not> EqualSSH (acl_master a) sk then Err (NotSignedByMaster (KeyId c)) else Ok ())
          else each (\<lambda>p _. each (\<lambda>cap _.
              map_err (SignerNotAdmin p (Required cap)) (Check glob fp now a sk (Required cap) p))
            (Capabilities c) ()) (ValidPrincipals c) ())"

text \<open>
  One certificate's rows.  \<open>database/sql\<close> refuses a \<open>uint64\<close> argument whose high bit is set.
\<close>

definition cert_rows :: "(pubkey \<Rightarrow> string) \<Rightarrow> cert \<Rightarrow> (access_error, row list) res" where
  "cert_rows fp c =
     res_bind (collect (\<lambda>(priority, path).
        res_bind (with_slash path) (\<lambda>path.
        collect (\<lambda>cap.
          if cert_ValidAfter c < 2 ^ 63 \<and> cert_ValidBefore c < 2 ^ 63
          then Ok \<lparr>row_Fingerprint = fp (cert_Key c), row_Capability = caps cap, row_Path = path,
                   row_Priority = priority, row_ValidAfter = cert_ValidAfter c,
                   row_ValidBefore = cert_ValidBefore c\<rparr>
          else Err SqlInsert) (Capabilities c)))
        (enumerate 0 (ValidPrincipals c)))
       (\<lambda>rss. Ok (concat rss))"

text \<open>
  The first loop of \<open>loadCerts\<close>: every path is loaded and validated; failures are collected
  as warnings, successes in the map \<open>certs\<close>, kept as an association list in which a path
  that occurs twice is stored once.  \<open>load\<close> is \<open>LoadCertificate\<close> on the file system.
\<close>

fun accept_certs ::
    "(string \<Rightarrow> string \<Rightarrow> bool) \<Rightarrow> (pubkey \<Rightarrow> string) \<Rightarrow> nat \<Rightarrow> acl \<Rightarrow> (string \<Rightarrow> (access_error, cert) res) \<Rightarrow>
     string list \<Rightarrow> access_error list \<times> (string \<times> cert) list \<Rightarrow>
     (access_error, access_error list \<times> (string \<times> cert) list) res" where
  "accept_certs glob fp now a load [] st = Ok st"
| "accept_certs glob fp now a load (path # paths) (warn, certs) =
     (case load path of
        Panic \<Rightarrow> Panic
      | Err e \<Rightarrow> accept_certs glob fp now a load paths (warn @ [e], certs)
      | Ok c \<Rightarrow>
          (case acl_Validate glob fp now a c of
             Panic \<Rightarrow> Panic
           | Err e \<Rightarrow> accept_certs glob fp now a load paths (warn @ [e], certs)
           | Ok _ \<Rightarrow> accept_certs glob fp now a load paths
                       (warn, filter (\<lambda>(p, _). p \<noteq> path) certs @ [(path, c)])))"

text \<open>
  \<open>loadCerts\<close>: the transaction deletes the rows of one class of capabilities and inserts the
  rows of the accepted certificates, in the order \<open>iter\<close> in which the map is iterated; when
  an insertion fails everything is rolled back.
\<close>

definition loadCerts ::
    "(string \<Rightarrow> string \<Rightarrow> bool) \<Rightarrow> (pubkey \<Rightarrow> string) \<Rightarrow> nat \<Rightarrow> (string \<Rightarrow> (access_error, cert) res) \<Rightarrow>
     ((string \<times> cert) list \<Rightarrow> (string \<times> cert) list) \<Rightarrow> string list \<Rightarrow> bool \<Rightarrow> acl \<Rightarrow>
     (access_error, access_error list \<times> acl) res" where
  "loadCerts glob fp now load iter paths admin a =
     res_bind (accept_certs glob fp now a load paths ([], [])) (\<lambda>(warn, certs).
       let remove = (if admin then [caps ManageReaders, caps ManageWriters] else [caps Read, caps Write]);
           kept = filter (\<lambda>r. \<not> (row_Capability r = remove ! 0 \<or> row_Capability r = remove ! 1)) (acl_db a)
       in res_bind (collect (\<lambda>(_, c). cert_rows fp c) (iter certs)) (\<lambda>rss.
            Ok (warn, a\<lparr>acl_db := kept @ concat rss\<rparr>)))"

definition LoadUser ::
    "(string \<Rightarrow> string \<Rightarrow> bool) \<Rightarrow> (pubkey \<Rightarrow> string) \<Rightarrow> nat \<Rightarrow> (string \<Rightarrow> (access_error, cert) res) \<Rightarrow>
     ((string \<times> cert) list \<Rightarrow> (string \<times> cert) list) \<Rightarrow> string list \<Rightarrow> acl \<Rightarrow>
     (access_error, access_error list \<times> acl) res" where
  "LoadUser glob fp now load iter paths a = loadCerts glob fp now load iter paths False a"

definition LoadAdmin ::
    "(string \<Rightarrow> string \<Rightarrow> bool) \<Rightarrow> (pubkey \<Rightarrow> string) \<Rightarrow> nat \<Rightarrow> (string \<Rightarrow> (access_error, cert) res) \<Rightarrow>
     ((string \<times> cert) list \<Rightarrow> (string \<times> cert) list) \<Rightarrow> string list \<Rightarrow> acl \<Rightarrow>
     (access_error, access_error list \<times> acl) res" where
  "LoadAdmin glob fp now load iter paths a = loadCerts glob fp now load iter paths True a"

definition acl_Load ::
    "(string \<Rightarrow> string \<Rightarrow> bool) \<Rightarrow> (pubkey \<Rightarrow> string) \<Rightarrow> nat \<Rightarrow> (string \<Rightarrow> (access_error, cert) res) \<Rightarrow>
     ((string \<times> cert) list \<Rightarrow> (string \<times> cert) list) \<Rightarrow> string list \<Rightarrow> string list \<Rightarrow> acl \<Rightarrow>
     (access_error, access_error list \<times> acl) res" where
  "acl_Load glob fp now load iter adminpaths userpaths a =
     res_bind (LoadAdmin glob fp now load iter adminpaths a) (\<lambda>(warn, a).
     res_bind (LoadUser glob fp now load iter userpaths a) (\<lambda>(warn2, a).
       Ok (warn @ warn2, a)))"

text \<open>
  \<open>LoadCertificate\<close>: parsing the file is \<open>util.LoadCertificate\<close> (\<open>parse\<close>: reading the file
  and \<open>ssh.ParseAuthorizedKey\<close>), then the certificate is validated.
\<close>

definition LoadCertificate ::
    "(string list \<Rightarrow> string \<Rightarrow> cert \<Rightarrow> bool) \<Rightarrow> (string \<Rightarrow> cert option) \<Rightarrow> string \<Rightarrow> (access_error, cert) res" where
  "LoadCertificate check_cert parse path =
     (case parse path of
        None \<Rightarrow> Err (LoadFailed path)
      | Some c \<Rightarrow> res_bind (cert_Validate check_cert c) (\<lambda>_. Ok c))"

text \<open>
  \<open>AllowedRead\<close>: \<open>SELECT DISTINCT Path ... ORDER BY ValidAfter DESC, Priority ASC\<close>.  A path
  is kept where it is first met; the sort is stable.
\<close>

fun distinct_paths :: "string list \<Rightarrow> row list \<Rightarrow> row list" where
  "distinct_paths seen [] = []"
| "distinct_paths seen (r # rs) =
     (if row_Path r \<in> set seen then distinct_paths seen rs
      else r # distinct_paths (row_Path r # seen) rs)"

definition AllowedRead :: "(pubkey \<Rightarrow> string) \<Rightarrow> nat \<Rightarrow> acl \<Rightarrow> pubkey \<Rightarrow> string list" where
  "AllowedRead fp now a key =
     map row_Path
       (sort_key (\<lambda>r. - int (row_ValidAfter r)) (sort_key row_Priority
         (distinct_paths [] (filter (\<lambda>r. row_Fingerprint r = fp key \<and> row_Capability r = caps Read)
            (ValidACL now (acl_db a))))))"

text \<open>
  \<open>FindAgent\<close>: \<open>identities\<close> are the keys ssh-agent lists (\<open>None\<close> when it cannot be
  reached); \<open>set_identity\<close> tells whether selecting a key succeeds.
\<close>

fun all_checks ::
    "(string \<Rightarrow> string \<Rightarrow> bool) \<Rightarrow> (pubkey \<Rightarrow> string) \<Rightarrow> nat \<Rightarrow> acl \<Rightarrow> pubkey \<Rightarrow>
     (capability \<times> string) list \<Rightarrow> (access_error, bool) res" where
  "all_checks glob fp now a key [] = Ok True"
| "all_checks glob fp now a key ((cap, path) # cps) =
     (case Check glob fp now a key (Required cap) path of
        Ok _ \<Rightarrow> all_checks glob fp now a key cps
      | Err _ \<Rightarrow> Ok False
      | Panic \<Rightarrow> Panic)"

fun find_identity ::
    "(string \<Rightarrow> string \<Rightarrow> bool) \<Rightarrow> (pubkey \<Rightarrow> string) \<Rightarrow> nat \<Rightarrow> acl \<Rightarrow> (pubkey \<Rightarrow> bool) \<Rightarrow> nat \<Rightarrow>
     (capability \<times> string) list \<Rightarrow> pubkey list \<Rightarrow> (access_error, pubkey) res" where
  "find_identity glob fp now a set_identity n cps [] = Err (NoMatchingIdentity n)"
| "find_identity glob fp now a set_identity n cps (key # keys) =
     res_bind (all_checks glob fp now a key cps) (\<lambda>ok.
       if \<not> ok then find_identity glob fp now a set_identity n cps keys
       else if set_identity key then Ok key else Err IdentityFailed)"

definition FindAgent ::
    "(string \<Rightarrow> string \<Rightarrow> bool) \<Rightarrow> (pubkey \<Rightarrow> string) \<Rightarrow> nat \<Rightarrow> acl \<Rightarrow> pubkey list option \<Rightarrow> (pubkey \<Rightarrow> bool) \<Rightarrow>
     string list \<Rightarrow> capability list \<Rightarrow> (access_error, pubkey) res" where
  "FindAgent glob fp now a identities set_identity paths cs =
     (case identities of
        None \<Rightarrow> Err AgentUnavailable
      | Some ids \<Rightarrow>
          if length ids = 0 then Err NoIdentities
          else find_identity glob fp now a set_identity (length ids) (List.product cs paths) ids)"

section \<open>The interface to SQLite's GLOB\<close>

text \<open>The query of \<open>Check\<close>, for any directory.\<close>

lemma Check_pattern:
  assumes "with_slash dir = Ok d"
  shows "Check glob fp now a key c dir =
    (if \<exists>r \<in> set (acl_db a). row_ValidAfter r \<le> now \<and> now < row_ValidBefore r \<and>
          row_Fingerprint r = fp key \<and> row_Capability r = caps c \<and> glob (d @ ''*'') (row_Path r)
     then Ok () else Err PermissionDenied)"
  using assms by (auto simp: Check_def Let_def filter_empty_conv ValidACL_def)

text \<open>
  What the code relies on: a pattern that is a literal string followed by a star matches
  exactly the strings that start with that literal.
\<close>

definition glob_literal :: "string \<Rightarrow> bool" where
  "glob_literal p \<longleftrightarrow> CHR ''*'' \<notin> set p \<and> CHR ''?'' \<notin> set p \<and> CHR ''['' \<notin> set p"

locale glob_engine =
  fixes glob :: "string \<Rightarrow> string \<Rightarrow> bool"
  assumes literal_star: "glob_literal p \<Longrightarrow> glob (p @ ''*'') s \<longleftrightarrow> prefix p s"
begin

lemma Check_iff:
  assumes "with_slash dir = Ok d" and "glob_literal d"
  shows "Check glob fp now a key c dir = Ok () \<longleftrightarrow>
    (\<exists>r \<in> set (ValidACL now (acl_db a)).
       row_Fingerprint r = fp key \<and> row_Capability r = caps c \<and> prefix d (row_Path r))"
  using assms by (auto simp: Check_def Let_def filter_empty_conv literal_star)

end

text \<open>A matcher with the two wildcards the code can produce, as an instance of the interface.\<close>

fun glob_match :: "string \<Rightarrow> string \<Rightarrow> bool" where
  "glob_match [] s = (s = [])"
| "glob_match (p # ps) s =
     (if p = CHR ''*'' then glob_match ps s \<or> (case s of [] \<Rightarrow> False | _ # cs \<Rightarrow> glob_match (p # ps) cs)
      else case s of [] \<Rightarrow> False
        | c # cs \<Rightarrow> (p = CHR ''?'' \<or> p = c) \<and> p \<noteq> CHR ''['' \<and> glob_match ps cs)"

lemma glob_match_star: "glob_match ''*'' s"
  by (induction s) auto

lemma glob_match_literal: "glob_literal p \<Longrightarrow> glob_match (p @ ''*'') s \<longleftrightarrow> prefix p s"
proof (induction p arbitrary: s)
  case Nil
  then show ?case using glob_match_star [of s] by simp
next
  case (Cons x p)
  then show ?case by (cases s) (auto simp: glob_literal_def)
qed

interpretation gm: glob_engine glob_match
  by unfold_locales (rule glob_match_literal)

section \<open>Certificates\<close>

lemma same_class_Ok:
  "same_class adm cs = Ok b \<Longrightarrow> (\<forall>c \<in> set cs. cap_Valid c \<and> Some (cap_Admin c) = b) \<and>
     (adm = None \<or> b = adm) \<and> (cs = [] \<longrightarrow> b = adm)"
proof (induction cs arbitrary: adm)
  case Nil
  then show ?case by simp
next
  case (Cons c cs)
  then show ?case by (auto simp: Let_def split: if_splits option.splits)
qed

lemma valid_class: "cap_Valid c \<Longrightarrow> cap_User c \<longleftrightarrow> \<not> cap_Admin c"
  by (auto simp: cap_Valid_def cap_User_def cap_Admin_def)

text \<open>What a validated certificate is.\<close>

lemma cert_Validate_iff:
  "cert_Validate check_cert c = Ok () \<longleftrightarrow>
     (\<exists>sk. cert_SignatureKey c = Some sk \<and> \<not> EqualSSH (cert_Key c) sk) \<and> KeyId c \<noteq> [] \<and> ValidPrincipals c \<noteq> [] \<and>
     (\<forall>p \<in> set (ValidPrincipals c). rooted p = Ok ()) \<and> CriticalOptions c \<noteq> [] \<and>
     (\<exists>b. same_class None (Capabilities c) = Ok (Some b) \<and>
       check_cert (if b then [ManageReaders, ManageWriters] else [Read, Write]) (ValidPrincipals c ! 0) c)"
proof (cases "cert_SignatureKey c")
  case None
  then show ?thesis by (simp add: cert_Validate_def)
next
  case (Some sk)
  show ?thesis
  proof (cases "same_class None (Capabilities c)")
    case (Ok b)
    with Some show ?thesis by (cases b) (simp_all add: cert_Validate_def Let_def del: rooted_Ok)
  qed (simp_all add: cert_Validate_def Some del: rooted_Ok)
qed

lemma cert_Validate_Ok:
  assumes "cert_Validate check_cert c = Ok ()"
  shows "\<exists>sk. cert_SignatureKey c = Some sk \<and> \<not> EqualSSH (cert_Key c) sk"
    and "KeyId c \<noteq> []" and "ValidPrincipals c \<noteq> []"
    and "\<forall>p \<in> set (ValidPrincipals c). p \<noteq> [] \<and> hd p = CHR ''/''"
    and "Capabilities c \<noteq> []"
    and "(\<forall>cap \<in> set (Capabilities c). cap_Admin cap) \<and> cert_Admin c \<or>
         (\<forall>cap \<in> set (Capabilities c). cap_User cap) \<and> \<not> cert_Admin c"
proof -
  note v = assms [unfolded cert_Validate_iff]
  from v show "\<exists>sk. cert_SignatureKey c = Some sk \<and> \<not> EqualSSH (cert_Key c) sk" by blast
  from v show "KeyId c \<noteq> []" "ValidPrincipals c \<noteq> []" by blast+
  from v show "\<forall>p \<in> set (ValidPrincipals c). p \<noteq> [] \<and> hd p = CHR ''/''" by simp
  from v show cs: "Capabilities c \<noteq> []" by (simp add: Capabilities_def)
  from v obtain b where "same_class None (Capabilities c) = Ok (Some b)" by blast
  from same_class_Ok [OF this] have "\<forall>cap \<in> set (Capabilities c). cap_Valid cap \<and> cap_Admin cap = b" by auto
  with cs v show "(\<forall>cap \<in> set (Capabilities c). cap_Admin cap) \<and> cert_Admin c \<or>
         (\<forall>cap \<in> set (Capabilities c). cap_User cap) \<and> \<not> cert_Admin c"
    by (cases "Capabilities c"; cases b) (auto simp: cert_Admin_def valid_class)
qed

section \<open>Where rows come from\<close>

text \<open>Row \<open>r\<close> is the one \<open>loadCerts\<close> inserts for path \<open>p\<close> and capability \<open>cap\<close> of \<open>c\<close>.\<close>

definition row_of :: "(pubkey \<Rightarrow> string) \<Rightarrow> cert \<Rightarrow> string \<Rightarrow> capability \<Rightarrow> row \<Rightarrow> bool" where
  "row_of fp c p cap r \<longleftrightarrow>
     p \<in> set (ValidPrincipals c) \<and> cap \<in> set (Capabilities c) \<and> with_slash p = Ok (row_Path r) \<and>
     row_Fingerprint r = fp (cert_Key c) \<and> row_Capability r = caps cap \<and>
     row_ValidAfter r = cert_ValidAfter c \<and> row_ValidBefore r = cert_ValidBefore c"

lemma cert_rows_row_of:
  assumes "cert_rows fp c = Ok rs" and "r \<in> set rs"
  shows "\<exists>p cap. row_of fp c p cap r"
proof -
  from assms(1) obtain rss where rss: "rs = concat rss"
    "collect (\<lambda>(priority, path). res_bind (with_slash path) (\<lambda>path. collect (\<lambda>cap.
        if cert_ValidAfter c < 2 ^ 63 \<and> cert_ValidBefore c < 2 ^ 63
        then Ok \<lparr>row_Fingerprint = fp (cert_Key c), row_Capability = caps cap, row_Path = path,
                 row_Priority = priority, row_ValidAfter = cert_ValidAfter c,
                 row_ValidBefore = cert_ValidBefore c\<rparr>
        else Err SqlInsert) (Capabilities c))) (enumerate 0 (ValidPrincipals c)) = Ok rss"
    unfolding cert_rows_def by auto
  from assms(2) rss(1) obtain rs' where "rs' \<in> set rss" "r \<in> set rs'" by auto
  from collect_member [OF rss(2) this(1)] obtain pr p path where
    p: "(pr, p) \<in> set (enumerate 0 (ValidPrincipals c))" "with_slash p = Ok path"
      "collect (\<lambda>cap.
        if cert_ValidAfter c < 2 ^ 63 \<and> cert_ValidBefore c < 2 ^ 63
        then Ok \<lparr>row_Fingerprint = fp (cert_Key c), row_Capability = caps cap, row_Path = path,
                 row_Priority = pr, row_ValidAfter = cert_ValidAfter c,
                 row_ValidBefore = cert_ValidBefore c\<rparr>
        else Err SqlInsert) (Capabilities c) = Ok rs'"
    by auto
  from collect_member [OF p(3) \<open>r \<in> set rs'\<close>] p(1,2) have "\<exists>cap. row_of fp c p cap r"
    by (auto simp: row_of_def in_set_enumerate_eq split: if_splits)
  then show ?thesis by blast
qed

lemma accept_certs_sound:
  assumes "accept_certs glob fp now a load paths (warn, certs) = Ok (warn', certs')"
    and "\<forall>(p, c) \<in> set certs. p \<in> P \<and> load p = Ok c \<and> acl_Validate glob fp now a c = Ok ()"
    and "set paths \<subseteq> P"
  shows "\<forall>(p, c) \<in> set certs'. p \<in> P \<and> load p = Ok c \<and> acl_Validate glob fp now a c = Ok ()"
  using assms
proof (induction paths arbitrary: warn certs)
  case Nil
  then show ?case by simp
next
  case (Cons path paths)
  show ?case
  proof (cases "load path")
    case (Ok c)
    show ?thesis
    proof (cases "acl_Validate glob fp now a c")
      case (Ok u)
      with Cons.prems \<open>load path = Ok c\<close> show ?thesis
        by (intro Cons.IH [of warn "filter (\<lambda>(p, _). p \<noteq> path) certs @ [(path, c)]"]) auto
    next
      case (Err e)
      with Cons.prems \<open>load path = Ok c\<close> show ?thesis by (intro Cons.IH [of "warn @ [e]" certs]) auto
    next
      case Panic
      with Cons.prems \<open>load path = Ok c\<close> show ?thesis by simp
    qed
  next
    case (Err e)
    with Cons.prems show ?thesis by (intro Cons.IH [of "warn @ [e]" certs]) auto
  next
    case Panic
    with Cons.prems show ?thesis by simp
  qed
qed

text \<open>
  Every row after \<open>loadCerts\<close> was there before and belongs to the other class, or comes from
  a certificate of one of the given paths that was loaded and validated.
\<close>

definition removed_caps :: "bool \<Rightarrow> nat set" where
  "removed_caps admin = (if admin then {caps ManageReaders, caps ManageWriters} else {caps Read, caps Write})"

lemma loadCerts_rows:
  assumes "loadCerts glob fp now load iter paths admin a = Ok (warn, a')"
    and iter: "\<And>xs. set (iter xs) = set xs"
    and r: "r \<in> set (acl_db a')"
  shows "r \<in> set (acl_db a) \<and> row_Capability r \<notin> removed_caps admin \<or>
    (\<exists>path c p cap. path \<in> set paths \<and> load path = Ok c \<and> acl_Validate glob fp now a c = Ok () \<and>
       row_of fp c p cap r)"
proof -
  from assms(1) obtain certs rss where
    certs: "accept_certs glob fp now a load paths ([], []) = Ok (warn, certs)" and
    rss: "collect (\<lambda>(_, c). cert_rows fp c) (iter certs) = Ok rss" and
    db: "acl_db a' = filter (\<lambda>r. row_Capability r \<notin> removed_caps admin) (acl_db a) @ concat rss"
    by (cases admin) (auto simp: loadCerts_def removed_caps_def Let_def)
  show ?thesis
  proof (cases "r \<in> set (concat rss)")
    case True
    then obtain rs where "rs \<in> set rss" "r \<in> set rs" by auto
    from collect_member [OF rss this(1)] obtain path c where pc: "(path, c) \<in> set certs" "cert_rows fp c = Ok rs"
      using iter by auto
    from cert_rows_row_of [OF pc(2) \<open>r \<in> set rs\<close>] obtain p cap where "row_of fp c p cap r" by blast
    moreover have "path \<in> set paths \<and> load path = Ok c \<and> acl_Validate glob fp now a c = Ok ()"
      using accept_certs_sound [OF certs, of "set paths"] pc(1) by auto
    ultimately show ?thesis by blast
  next
    case False
    with r db show ?thesis by auto
  qed
qed

lemma loadCerts_keeps:
  assumes "loadCerts glob fp now load iter paths admin a = Ok (warn, a')"
  shows "acl_master a' = acl_master a"
    and "r \<in> set (acl_db a) \<Longrightarrow> row_Capability r \<notin> removed_caps admin \<Longrightarrow> r \<in> set (acl_db a')"
  using assms by (auto simp: loadCerts_def removed_caps_def Let_def split: if_splits)

section \<open>The chain of trust\<close>

text \<open>
  \<open>loaded\<close>: the certificate stands in one of the files and passes \<open>Validate\<close>.  A row is
  granted by the master key when it comes from an administrator certificate the master key
  signed; it is granted by an administrator when it comes from a user certificate whose signer
  holds, in the same table, a valid row granted by the master key with the required
  administrator capability on a path that matches.
\<close>

definition loaded :: "(string list \<Rightarrow> string \<Rightarrow> cert \<Rightarrow> bool) \<Rightarrow> (string \<Rightarrow> cert option) \<Rightarrow> string list \<Rightarrow> cert \<Rightarrow> bool" where
  "loaded check_cert parse paths c \<longleftrightarrow>
     (\<exists>path \<in> set paths. parse path = Some c) \<and> cert_Validate check_cert c = Ok ()"

definition granted_by_master ::
    "(pubkey \<Rightarrow> string) \<Rightarrow> (cert \<Rightarrow> bool) \<Rightarrow> pubkey \<Rightarrow> row \<Rightarrow> bool" where
  "granted_by_master fp known master r \<longleftrightarrow>
     (\<exists>c p cap sk. known c \<and> row_of fp c p cap r \<and> cap_Admin cap \<and>
        cert_SignatureKey c = Some sk \<and> EqualSSH master sk)"

definition granted_by_admin ::
    "(string \<Rightarrow> string \<Rightarrow> bool) \<Rightarrow> (pubkey \<Rightarrow> string) \<Rightarrow> (cert \<Rightarrow> bool) \<Rightarrow> nat \<Rightarrow> acl \<Rightarrow> row \<Rightarrow> bool" where
  "granted_by_admin glob fp known now a r \<longleftrightarrow>
     (\<exists>c p cap sk ar. known c \<and> row_of fp c p cap r \<and> cap_User cap \<and> cert_SignatureKey c = Some sk \<and>
        ar \<in> set (ValidACL now (acl_db a)) \<and> row_Fingerprint ar = fp sk \<and>
        row_Capability ar = caps (Required cap) \<and> glob (row_Path r @ ''*'') (row_Path ar) \<and>
        granted_by_master fp known (acl_master a) ar)"

lemma caps_class:
  "cap_Admin c \<Longrightarrow> caps c \<in> {1, 2}" "cap_User c \<Longrightarrow> caps c \<in> {3, 4}"
  "cap_User c \<Longrightarrow> cap_Admin (Required c)" "cap_User c \<Longrightarrow> caps (Required c) \<in> {1, 2}"
  by (auto simp: cap_Admin_def cap_User_def caps_def Required_def)

lemma removed_caps_eq: "removed_caps True = {1, 2}" "removed_caps False = {3, 4}"
  by (auto simp: removed_caps_def caps_def)

lemma acl_Validate_admin:
  "acl_Validate glob fp now a c = Ok () \<Longrightarrow> cert_Admin c \<Longrightarrow>
   \<exists>sk. cert_SignatureKey c = Some sk \<and> EqualSSH (acl_master a) sk"
  by (auto simp: acl_Validate_def cert_Admin_def split: option.splits if_splits)

lemma acl_Validate_user:
  assumes "acl_Validate glob fp now a c = Ok ()" "\<not> cert_Admin c" "cert_SignatureKey c = Some sk"
    and "row_of fp c p cap r"
  shows "\<exists>ar \<in> set (ValidACL now (acl_db a)). row_Fingerprint ar = fp sk \<and>
    row_Capability ar = caps (Required cap) \<and> glob (row_Path r @ ''*'') (row_Path ar)"
proof -
  from assms have "Check glob fp now a sk (Required cap) p = Ok ()" and "with_slash p = Ok (row_Path r)"
    by (auto simp: acl_Validate_def row_of_def)
  then show ?thesis by (auto simp: Check_def Let_def filter_empty_conv split: if_splits)
qed

text \<open>The rows of one load, when every row kept from before is known to be granted by the master key.\<close>

lemma loadCerts_granted:
  assumes load: "loadCerts glob fp now (LoadCertificate check_cert parse) iter paths admin a = Ok (warn, a')"
    and iter: "\<And>xs. set (iter xs) = set xs"
    and known: "\<And>path c. path \<in> set paths \<Longrightarrow> parse path = Some c \<Longrightarrow> cert_Validate check_cert c = Ok () \<Longrightarrow> known c"
    and old: "\<And>r. r \<in> set (acl_db a) \<Longrightarrow> granted_by_master fp known (acl_master a) r"
    and keep: "\<And>r. r \<in> set (acl_db a) \<Longrightarrow> row_Capability r \<in> {1, 2} \<Longrightarrow> admin \<Longrightarrow> False"
    and r: "r \<in> set (acl_db a')"
  shows "granted_by_master fp known (acl_master a) r \<or>
    acl_db a \<noteq> [] \<and> granted_by_admin glob fp known now a' r"
proof -
  note rows = loadCerts_rows [OF load iter r]
  show ?thesis
  proof (cases "r \<in> set (acl_db a)")
    case True
    with old show ?thesis by blast
  next
    case False
    with rows obtain path c p cap where c: "path \<in> set paths" "LoadCertificate check_cert parse path = Ok c"
      "acl_Validate glob fp now a c = Ok ()" "row_of fp c p cap r" by blast
    from c(2) have v: "parse path = Some c" "cert_Validate check_cert c = Ok ()"
      by (auto simp: LoadCertificate_def split: option.splits)
    then have k: "known c" using known c(1) by blast
    have cap: "cap \<in> set (Capabilities c)" using c(4) by (simp add: row_of_def)
    show ?thesis
    proof (cases "cert_Admin c")
      case True
      then have "cap_Admin cap" using cert_Validate_Ok(6) [OF v(2)] cap by blast
      with acl_Validate_admin [OF c(3) True] k c(4) show ?thesis by (auto simp: granted_by_master_def)
    next
      case False
      then have user: "cap_User cap" using cert_Validate_Ok(6) [OF v(2)] cap by blast
      from cert_Validate_Ok(1) [OF v(2)] obtain sk where sk: "cert_SignatureKey c = Some sk" by blast
      from acl_Validate_user [OF c(3) False sk c(4)] obtain ar where ar: "ar \<in> set (ValidACL now (acl_db a))"
        "row_Fingerprint ar = fp sk" "row_Capability ar = caps (Required cap)"
        "glob (row_Path r @ ''*'') (row_Path ar)" by blast
      have "ar \<in> set (acl_db a)" using ar(1) by (simp add: ValidACL_def)
      then have adm: "granted_by_master fp known (acl_master a) ar" using old by blast
      have ar12: "row_Capability ar \<in> {1, 2}" using caps_class(4) [OF user] ar(3) by simp
      then have "\<not> admin" using keep \<open>ar \<in> set (acl_db a)\<close> by blast
      then have "row_Capability ar \<notin> removed_caps admin" using ar12 by (auto simp: removed_caps_eq)
      then have "ar \<in> set (acl_db a')" using loadCerts_keeps(2) [OF load \<open>ar \<in> set (acl_db a)\<close>] by blast
      then have "ar \<in> set (ValidACL now (acl_db a'))" using ar(1) by (simp add: ValidACL_def)
      with user k c(4) sk ar adm have "granted_by_admin glob fp known now a' r"
        unfolding granted_by_admin_def loadCerts_keeps(1) [OF load] by blast
      with \<open>ar \<in> set (acl_db a)\<close> show ?thesis by auto
    qed
  qed
qed

section \<open>Properties\<close>

text \<open>
  C3. Chain of trust: after an empty access control list has been loaded, every row in it was
  granted by the master key through an administrator certificate, or by an administrator who
  holds such a row (valid at the time of loading, with the capability required to delegate the
  row's capability, on a path matching the row's path).  Nothing else grants access: longer
  chains are not possible, whatever certificates the repository holds.
\<close>

theorem acl_chain_of_trust:
  assumes load: "acl_Load glob fp now (LoadCertificate check_cert parse) iter adminpaths userpaths
      \<lparr>acl_master = master, acl_db = []\<rparr> = Ok (warn, a)"
    and iter: "\<And>xs. set (iter xs) = set xs"
    and r: "r \<in> set (acl_db a)"
  shows "granted_by_master fp (loaded check_cert parse (adminpaths @ userpaths)) master r \<or>
    granted_by_admin glob fp (loaded check_cert parse (adminpaths @ userpaths)) now a r"
proof -
  let ?known = "loaded check_cert parse (adminpaths @ userpaths)"
  from load obtain warn1 warn2 a1 where
    l1: "loadCerts glob fp now (LoadCertificate check_cert parse) iter adminpaths True
      \<lparr>acl_master = master, acl_db = []\<rparr> = Ok (warn1, a1)" and
    l2: "loadCerts glob fp now (LoadCertificate check_cert parse) iter userpaths False a1 = Ok (warn2, a)"
    by (auto simp: acl_Load_def LoadAdmin_def LoadUser_def)
  have m: "acl_master a1 = master" using loadCerts_keeps(1) [OF l1] by simp
  have g1: "granted_by_master fp ?known master r'" if "r' \<in> set (acl_db a1)" for r'
    using loadCerts_granted [OF l1 iter, of ?known r'] that by (auto simp: loaded_def)
  show ?thesis
    using loadCerts_granted [OF l2 iter, of ?known r] g1 r m by (auto simp: loaded_def)
qed

text \<open>A small repository for the witnesses: a master key, an administrator and a user.\<close>

definition demo_master :: pubkey where "demo_master = \<lparr>key_Type = ''m'', key_Marshal = [1]\<rparr>"
definition demo_admin :: pubkey where "demo_admin = \<lparr>key_Type = ''a'', key_Marshal = [2]\<rparr>"
definition demo_user :: pubkey where "demo_user = \<lparr>key_Type = ''u'', key_Marshal = [3]\<rparr>"

definition demo_admin_cert :: cert where
  "demo_admin_cert = \<lparr>cert_Key = demo_admin, KeyId = ''alice'', ValidPrincipals = [''/srv/mail''],
     CriticalOptions = [ManageReaders, ManageWriters], Serial = 1, cert_ValidAfter = 10, cert_ValidBefore = 1000,
     cert_SignatureKey = Some demo_master\<rparr>"

definition demo_user_cert :: cert where
  "demo_user_cert = \<lparr>cert_Key = demo_user, KeyId = ''bob'', ValidPrincipals = [''/srv/''],
     CriticalOptions = [Read], Serial = 2, cert_ValidAfter = 20, cert_ValidBefore = 500,
     cert_SignatureKey = Some demo_admin\<rparr>"

definition demo_parse :: "string \<Rightarrow> cert option" where
  "demo_parse path = (if path = ''admin'' then Some demo_admin_cert else if path = ''user'' then Some demo_user_cert
     else None)"

definition demo_rows :: "row list" where
  "demo_rows =
    [\<lparr>row_Fingerprint = ''a'', row_Capability = 1, row_Path = ''/srv/mail/'', row_Priority = 0,
      row_ValidAfter = 10, row_ValidBefore = 1000\<rparr>,
     \<lparr>row_Fingerprint = ''a'', row_Capability = 2, row_Path = ''/srv/mail/'', row_Priority = 0,
      row_ValidAfter = 10, row_ValidBefore = 1000\<rparr>,
     \<lparr>row_Fingerprint = ''u'', row_Capability = 3, row_Path = ''/srv/'', row_Priority = 0,
      row_ValidAfter = 20, row_ValidBefore = 500\<rparr>]"

lemma demo_load_cert:
  "LoadCertificate (\<lambda>_ _ _. True) demo_parse ''admin'' = Ok demo_admin_cert"
  "LoadCertificate (\<lambda>_ _ _. True) demo_parse ''user'' = Ok demo_user_cert"
  by code_simp+

lemma demo_rows_of:
  "cert_rows key_Type demo_admin_cert = Ok (take 2 demo_rows)"
  "cert_rows key_Type demo_user_cert = Ok (drop 2 demo_rows)"
  by (simp_all add: cert_rows_def demo_admin_cert_def demo_user_cert_def demo_rows_def with_slash_def
      Capabilities_def caps_def demo_admin_def demo_user_def)

lemma demo_valid:
  "acl_Validate glob_match key_Type 100 \<lparr>acl_master = demo_master, acl_db = []\<rparr> demo_admin_cert = Ok ()"
  "acl_Validate glob_match key_Type 100 \<lparr>acl_master = demo_master, acl_db = take 2 demo_rows\<rparr> demo_user_cert = Ok ()"
  by code_simp+

lemma demo_load:
  "acl_Load glob_match key_Type 100 (LoadCertificate (\<lambda>_ _ _. True) demo_parse) id [''admin''] [''user'']
     \<lparr>acl_master = demo_master, acl_db = []\<rparr> = Ok ([], \<lparr>acl_master = demo_master, acl_db = demo_rows\<rparr>)"
  using demo_load_cert demo_rows_of demo_valid
  by (simp add: acl_Load_def LoadAdmin_def LoadUser_def loadCerts_def demo_rows_def caps_def)

theorem acl_chain_of_trust_witness:
  "\<exists>warn a. acl_Load glob_match key_Type 100 (LoadCertificate (\<lambda>_ _ _. True) demo_parse) id [''admin''] [''user'']
      \<lparr>acl_master = demo_master, acl_db = []\<rparr> = Ok (warn, a) \<and> length (acl_db a) = 3 \<and>
    (\<forall>r \<in> set (acl_db a).
       granted_by_master key_Type (loaded (\<lambda>_ _ _. True) demo_parse ([''admin''] @ [''user''])) demo_master r \<or>
       granted_by_admin glob_match key_Type (loaded (\<lambda>_ _ _. True) demo_parse ([''admin''] @ [''user''])) 100 a r)"
  using demo_load acl_chain_of_trust [OF demo_load] by (auto simp: demo_rows_def)

text \<open>
  C18. \<open>Check\<close> decides access exactly: it succeeds when the table holds a row for the key and the
  capability that is valid now and whose path matches the directory followed by a star, and reports
  \<open>ErrPermissionDenied\<close> otherwise.  For a directory without the characters \<open>*\<close>, \<open>?\<close> and \<open>[\<close> these are
  the rows whose path lies under the directory.  The code takes any other directory for a pattern:
  the example has a check of \<open>/s*\<close> that succeeds although no row lies under that directory.
\<close>

theorem check_decides:
  assumes "glob_engine glob" and "with_slash dir = Ok d"
  shows "Check glob fp now a key c dir =
      (if \<exists>r \<in> set (acl_db a). row_ValidAfter r \<le> now \<and> now < row_ValidBefore r \<and>
            row_Fingerprint r = fp key \<and> row_Capability r = caps c \<and> glob (d @ ''*'') (row_Path r)
       then Ok () else Err PermissionDenied) \<and>
    (glob_literal d \<longrightarrow> Check glob fp now a key c dir =
      (if \<exists>r \<in> set (acl_db a). row_ValidAfter r \<le> now \<and> now < row_ValidBefore r \<and>
            row_Fingerprint r = fp key \<and> row_Capability r = caps c \<and> prefix d (row_Path r)
       then Ok () else Err PermissionDenied))"
  using Check_pattern [OF assms(2), of glob fp now a key c] glob_engine.literal_star [OF assms(1), of d] by auto

theorem check_decides_witness:
  "Check glob_match key_Type 100 \<lparr>acl_master = demo_master, acl_db = demo_rows\<rparr> demo_admin ManageReaders ''/srv'' = Ok () \<and>
   Check glob_match key_Type 1000 \<lparr>acl_master = demo_master, acl_db = demo_rows\<rparr> demo_admin ManageReaders ''/srv'' =
     Err PermissionDenied \<and>
   Check glob_match key_Type 100 \<lparr>acl_master = demo_master, acl_db = demo_rows\<rparr> demo_admin ManageReaders ''/s*'' = Ok () \<and>
   \<not> (\<exists>r \<in> set demo_rows. prefix ''/s*/'' (row_Path r))"
proof -
  have w: "with_slash ''/srv'' = Ok ''/srv/''" "with_slash ''/s*'' = Ok ''/s*/''" by (simp_all add: with_slash_def)
  have g: "glob_literal ''/srv/''" by (simp add: glob_literal_def)
  show ?thesis
    using check_decides [OF gm.glob_engine_axioms w(1)] check_decides [OF gm.glob_engine_axioms w(2)] g
    by (simp add: demo_rows_def demo_admin_def caps_def)
qed

text \<open>
  Privileges extend to parent directories: a key that may act on a directory may act on
  every directory above it ("more specific paths are considered more restricted").
\<close>

theorem privileges_extend_to_parents:
  assumes "glob_engine glob" and "glob_literal (dir @ rest)"
    and "dir \<noteq> []" "last dir \<noteq> CHR ''/''"
    and "Check glob fp now a key c (dir @ CHR ''/'' # rest) = Ok ()"
  shows "Check glob fp now a key c dir = Ok ()"
proof -
  let ?sub = "dir @ CHR ''/'' # rest"
  define d where "d = (if last ?sub \<noteq> CHR ''/'' then ?sub @ ''/'' else ?sub)"
  have s: "with_slash ?sub = Ok d" "with_slash dir = Ok (dir @ ''/'')"
    using assms(3,4) by (simp_all add: with_slash_def d_def)
  have l: "glob_literal d" "glob_literal (dir @ ''/'')"
    using assms(2) by (auto simp: glob_literal_def d_def)
  have "prefix (dir @ ''/'') d" by (simp add: d_def)
  with assms(5) show ?thesis
    unfolding glob_engine.Check_iff [OF assms(1) s(1) l(1)] glob_engine.Check_iff [OF assms(1) s(2) l(2)]
    by (meson prefix_order.trans)
qed

theorem privileges_extend_to_parents_witness:
  "Check glob_match key_Type 100 \<lparr>acl_master = demo_master, acl_db = demo_rows\<rparr> demo_admin ManageWriters ''/srv'' = Ok ()"
  by (rule privileges_extend_to_parents [OF gm.glob_engine_axioms, where rest = "''mail''"])
     (simp_all add: glob_literal_def Check_def with_slash_def demo_rows_def demo_admin_def ValidACL_def caps_def)

text \<open>
  C21. \<open>LoadUser\<close> forgets: afterwards every row with a user capability comes from a certificate
  of the given paths that was loaded and validated in this very call, while every
  administrator row is kept.
\<close>

theorem load_user_replaces:
  assumes load: "LoadUser glob fp now load iter paths a = Ok (warn, a')"
    and iter: "\<And>xs. set (iter xs) = set xs"
  shows "(\<forall>r \<in> set (acl_db a'). row_Capability r \<in> {caps Read, caps Write} \<longrightarrow>
      (\<exists>path c p cap. path \<in> set paths \<and> load path = Ok c \<and> acl_Validate glob fp now a c = Ok () \<and>
         row_of fp c p cap r)) \<and>
    (\<forall>r \<in> set (acl_db a). row_Capability r \<in> {caps ManageReaders, caps ManageWriters} \<longrightarrow> r \<in> set (acl_db a'))"
proof -
  from load have l: "loadCerts glob fp now load iter paths False a = Ok (warn, a')" by (simp add: LoadUser_def)
  show ?thesis
    using loadCerts_rows [OF l iter] loadCerts_keeps(2) [OF l]
    by (fastforce simp: removed_caps_eq caps_def)
qed

theorem load_user_replaces_witness:
  "\<exists>warn a'. LoadUser glob_match key_Type 100 (LoadCertificate (\<lambda>_ _ _. True) demo_parse) id []
      \<lparr>acl_master = demo_master, acl_db = demo_rows\<rparr> = Ok (warn, a') \<and>
    (\<forall>r \<in> set (acl_db a'). row_Capability r \<in> {caps Read, caps Write} \<longrightarrow>
      (\<exists>path c p cap. path \<in> set [] \<and> LoadCertificate (\<lambda>_ _ _. True) demo_parse path = Ok c \<and>
         acl_Validate glob_match key_Type 100 \<lparr>acl_master = demo_master, acl_db = demo_rows\<rparr> c = Ok () \<and>
         row_of key_Type c p cap r))"
proof -
  have "LoadUser glob_match key_Type 100 (LoadCertificate (\<lambda>_ _ _. True) demo_parse) id []
      \<lparr>acl_master = demo_master, acl_db = demo_rows\<rparr> =
      Ok ([], \<lparr>acl_master = demo_master, acl_db = take 2 demo_rows\<rparr>)"
    by code_simp
  from this load_user_replaces [OF this] show ?thesis by simp
qed

text \<open>
  Whether a validated certificate is an administrator certificate does not depend on the
  order in which its capabilities are iterated: \<open>Admin\<close> looks at the first one only, and
  \<open>Validate\<close> has made sure that they all are of one class.
\<close>

theorem admin_order_independent:
  assumes "cert_Validate check_cert c = Ok ()" and "set opts = set (CriticalOptions c)"
  shows "cert_Admin (c\<lparr>CriticalOptions := opts\<rparr>) = cert_Admin c"
proof -
  have ne: "opts \<noteq> []" using assms(2) cert_Validate_Ok(5) [OF assms(1)] by (auto simp: Capabilities_def)
  obtain sk where sk: "cert_SignatureKey c = Some sk" using cert_Validate_Ok(1) [OF assms(1)] by blast
  have "\<forall>cap \<in> set opts. cap_Admin cap = cert_Admin c"
    using cert_Validate_Ok(6) [OF assms(1)] assms(2)
    by (auto simp: Capabilities_def cap_Admin_def cap_User_def)
  with ne sk show ?thesis by (cases opts) (simp_all add: cert_Admin_def Capabilities_def)
qed

theorem admin_order_independent_witness:
  "cert_Validate (\<lambda>_ _ _. True) demo_admin_cert = Ok () \<and>
   cert_Admin (demo_admin_cert\<lparr>CriticalOptions := [ManageWriters, ManageReaders]\<rparr>) = cert_Admin demo_admin_cert"
proof -
  have v: "cert_Validate (\<lambda>_ _ _. True) demo_admin_cert = Ok ()" by code_simp
  show ?thesis using v admin_order_independent [OF v, of "[ManageWriters, ManageReaders]"]
    by (auto simp: demo_admin_cert_def)
qed

lemma NewCertificate_Ok:
  "NewCertificate to name paths cs = Ok c \<longleftrightarrow>
     cs \<noteq> [] \<and> paths \<noteq> [] \<and> (\<forall>p \<in> set paths. p \<noteq> [] \<and> hd p = CHR ''/'') \<and> name \<noteq> [] \<and>
     c = \<lparr>cert_Key = to, KeyId = name, ValidPrincipals = paths, CriticalOptions = remdups cs, Serial = 0,
          cert_ValidAfter = 0, cert_ValidBefore = 0, cert_SignatureKey = None\<rparr>"
  by (auto simp: NewCertificate_def)

lemma same_class_user_more: "set cs \<subseteq> {Read, Write} \<Longrightarrow> same_class (Some False) cs = Ok (Some False)"
  by (induction cs) (auto simp: cap_Valid_def cap_Admin_def)

lemma same_class_user: "set cs \<subseteq> {Read, Write} \<Longrightarrow> cs \<noteq> [] \<Longrightarrow> same_class None cs = Ok (Some False)"
  by (cases cs) (auto simp: cap_Valid_def cap_Admin_def same_class_user_more)

lemma cert_Validate_user:
  assumes "set (CriticalOptions c) \<subseteq> {Read, Write}" and "CriticalOptions c \<noteq> []" and "cert_SignatureKey c = Some sk"
  shows "cert_Validate check_cert c = Ok () \<longleftrightarrow> \<not> EqualSSH (cert_Key c) sk \<and> KeyId c \<noteq> [] \<and>
    ValidPrincipals c \<noteq> [] \<and> (\<forall>p \<in> set (ValidPrincipals c). p \<noteq> [] \<and> hd p = CHR ''/'') \<and>
    check_cert [Read, Write] (ValidPrincipals c ! 0) c"
  using assms same_class_user [of "CriticalOptions c"]
  by (auto simp: cert_Validate_iff Capabilities_def)

text \<open>
  C22. Delegation of user capabilities succeeds exactly when it is well-formed, and then the
  certificate grants exactly what was asked for: the recipient's key, the given paths and
  capabilities, signed by the delegating key, valid from now for the given time.  Signing is
  assumed to do what \<open>SignCert\<close> documents: it fills in the signature and changes nothing else.
\<close>

theorem delegate_user_exact:
  assumes sign: "\<And>k c. sign_cert k c = Some (c\<lparr>cert_SignatureKey := Some k\<rparr>)"
  shows "DelegateUser check_cert sign_cert now from to cs paths name lifetime = Ok c \<longleftrightarrow>
    cs \<noteq> [] \<and> set cs \<subseteq> {Read, Write} \<and> paths \<noteq> [] \<and> (\<forall>p \<in> set paths. p \<noteq> [] \<and> hd p = CHR ''/'') \<and>
    name \<noteq> [] \<and> \<not> EqualSSH to from \<and>
    c = \<lparr>cert_Key = to, KeyId = name, ValidPrincipals = paths, CriticalOptions = remdups cs,
         Serial = uint64 (unix now), cert_ValidAfter = uint64 (unix now),
         cert_ValidBefore = uint64 (unix (now + lifetime)), cert_SignatureKey = Some from\<rparr> \<and>
    check_cert [Read, Write] (paths ! 0) c"
proof (cases "set cs \<subseteq> {Read, Write}")
  case True
  then have u: "\<not> list_ex (\<lambda>c. \<not> cap_User c) cs" by (auto simp: list_ex_iff cap_User_def)
  let ?c = "\<lparr>cert_Key = to, KeyId = name, ValidPrincipals = paths, CriticalOptions = remdups cs,
         Serial = uint64 (unix now), cert_ValidAfter = uint64 (unix now),
         cert_ValidBefore = uint64 (unix (now + lifetime)), cert_SignatureKey = Some from\<rparr>"
  have v: "cert_Validate check_cert ?c = Ok () \<longleftrightarrow> \<not> EqualSSH to from \<and> name \<noteq> [] \<and> paths \<noteq> [] \<and>
      (\<forall>p \<in> set paths. p \<noteq> [] \<and> hd p = CHR ''/'') \<and> check_cert [Read, Write] (paths ! 0) ?c" if "cs \<noteq> []"
    using cert_Validate_user [of ?c "from" check_cert] True that by simp
  show ?thesis
    using u v True by (auto simp: DelegateUser_def delegate_def NewCertificate_Ok cert_Sign_def sign Let_def)
next
  case False
  then have "list_ex (\<lambda>c. \<not> cap_User c) cs" by (auto simp: list_ex_iff cap_User_def)
  with False show ?thesis by (simp add: DelegateUser_def)
qed

theorem delegate_user_exact_witness:
  "\<exists>c. DelegateUser (\<lambda>_ _ _. True) (\<lambda>k c. Some (c\<lparr>cert_SignatureKey := Some k\<rparr>)) 5000000000 demo_admin demo_user
      [Read] [''/srv''] ''bob'' 60000000000 = Ok c \<and> cert_ValidBefore c = 65"
proof -
  let ?c = "\<lparr>cert_Key = demo_user, KeyId = ''bob'', ValidPrincipals = [''/srv''], CriticalOptions = [Read], Serial = 5,
      cert_ValidAfter = 5, cert_ValidBefore = 65, cert_SignatureKey = Some demo_admin\<rparr>"
  have "DelegateUser (\<lambda>_ _ _. True) (\<lambda>k c. Some (c\<lparr>cert_SignatureKey := Some k\<rparr>)) 5000000000 demo_admin demo_user
      [Read] [''/srv''] ''bob'' 60000000000 = Ok ?c"
    by (subst delegate_user_exact) (simp_all add: unix_def uint64_def EqualSSH_def demo_user_def demo_admin_def)
  then show ?thesis by auto
qed

lemma all_checks_Ok:
  "all_checks glob fp now a key cps = Ok True \<longleftrightarrow>
     (\<forall>(cap, path) \<in> set cps. Check glob fp now a key (Required cap) path = Ok ())"
  by (induction cps) (auto split: res.splits)

lemma find_identity_Ok:
  "find_identity glob fp now a set_identity n cps ids = Ok key \<Longrightarrow>
     key \<in> set ids \<and> set_identity key \<and> all_checks glob fp now a key cps = Ok True"
  by (induction ids) (auto split: if_splits)

text \<open>
  C23. The identity \<open>FindAgent\<close> selects is one of the keys of ssh-agent, and for every
  requested capability and path the list holds a valid row that gives this key the
  \<^emph>\<open>administrator\<close> capability required to delegate it.  In particular a key that only holds
  \<open>Write\<close> rows is never selected for writing, which is how \<open>secretctl set\<close> asks for it.  The row's
  path matches the requested path as a pattern; it lies under it if the requested path has none of
  the characters \<open>*\<close>, \<open>?\<close> and \<open>[\<close>.
\<close>

theorem find_agent_selects_admin:
  assumes "FindAgent glob fp now a identities set_identity paths cs = Ok key"
    and "cap \<in> set cs" and "path \<in> set paths"
    and "glob_engine glob" and "with_slash path = Ok d"
  shows "key \<in> set (the identities) \<and> (\<exists>r \<in> set (acl_db a). row_ValidAfter r \<le> now \<and> now < row_ValidBefore r \<and>
    row_Fingerprint r = fp key \<and> row_Capability r = caps (Required cap) \<and>
    glob (d @ ''*'') (row_Path r) \<and> (glob_literal d \<longrightarrow> prefix d (row_Path r)))"
proof -
  from assms(1) obtain ids where ids: "identities = Some ids"
    "find_identity glob fp now a set_identity (length ids) (List.product cs paths) ids = Ok key"
    by (auto simp: FindAgent_def split: option.splits if_splits)
  from find_identity_Ok [OF ids(2)] assms(2,3)
  have "key \<in> set ids" "Check glob fp now a key (Required cap) path = Ok ()"
    by (auto simp: all_checks_Ok)
  with ids(1) show ?thesis
    using glob_engine.literal_star [OF assms(4), of d]
    unfolding Check_pattern [OF assms(5)] by (auto split: if_splits)
qed

theorem find_agent_selects_admin_witness:
  "FindAgent glob_match key_Type 100 \<lparr>acl_master = demo_master, acl_db = demo_rows\<rparr> (Some [demo_user, demo_admin])
     (\<lambda>_. True) [''/srv''] [Write] = Ok demo_admin \<and>
   (\<exists>r \<in> set demo_rows. row_Fingerprint r = key_Type demo_admin \<and> row_Capability r = caps (Required Write) \<and>
      prefix ''/srv/'' (row_Path r))"
proof -
  have f: "FindAgent glob_match key_Type 100 \<lparr>acl_master = demo_master, acl_db = demo_rows\<rparr>
      (Some [demo_user, demo_admin]) (\<lambda>_. True) [''/srv''] [Write] = Ok demo_admin"
    by code_simp
  have "with_slash ''/srv'' = Ok ''/srv/''" "glob_literal ''/srv/''"
    by (simp_all add: with_slash_def glob_literal_def)
  with f find_agent_selects_admin [OF f _ _ gm.glob_engine_axioms, of Write "''/srv''" "''/srv/''"]
  show ?thesis by auto
qed

end
