(* ===== verification/GoLib.thy ===== *)
theory GoLib
  imports Prelude "HOL-Library.Char_ord" "HOL-Library.List_Lexorder"
begin

text \<open>
  The parts of Go's standard library that the program's text and file handling uses: \<open>strings\<close>,
  \<open>strconv\<close>, \<open>path/filepath\<close> (on Unix) and a file system in which \<open>os\<close> operates.
\<close>

section \<open>Package strings\<close>

definition HasPrefix :: "string \<Rightarrow> string \<Rightarrow> bool" where
  "HasPrefix s p \<longleftrightarrow> take (length p) s = p"

definition HasSuffix :: "string \<Rightarrow> string \<Rightarrow> bool" where
  "HasSuffix s p \<longleftrightarrow> length p \<le> length s \<and> drop (length s - length p) s = p"

definition TrimPrefix :: "string \<Rightarrow> string \<Rightarrow> string" where
  "TrimPrefix s p = (if HasPrefix s p then drop (length p) s else s)"

definition TrimSuffix :: "string \<Rightarrow> string \<Rightarrow> string" where
  "TrimSuffix s p = (if HasSuffix s p then take (length s - length p) s else s)"

definition TrimLeft :: "string \<Rightarrow> string \<Rightarrow> string" where
  "TrimLeft s cutset = dropWhile (\<lambda>c. c \<in> set cutset) s"

definition TrimRight :: "string \<Rightarrow> string \<Rightarrow> string" where
  "TrimRight s cutset = rev (dropWhile (\<lambda>c. c \<in> set cutset) (rev s))"

text \<open>\<open>Cut\<close> around the first occurrence of one byte.\<close>

definition Cut :: "string \<Rightarrow> char \<Rightarrow> string \<times> string \<times> bool" where
  "Cut s sep = (if sep \<in> set s then (takeWhile (\<lambda>c. c \<noteq> sep) s, tl (dropWhile (\<lambda>c. c \<noteq> sep) s), True)
                else (s, [], False))"

fun Split_on :: "char \<Rightarrow> string \<Rightarrow> string list" where
  "Split_on sep [] = [[]]"
| "Split_on sep (c # s) =
     (if c = sep then [] # Split_on sep s
      else case Split_on sep s of [] \<Rightarrow> [[c]] | p # ps \<Rightarrow> (c # p) # ps)"

fun Join_with :: "string \<Rightarrow> string list \<Rightarrow> string" where
  "Join_with sep [] = []"
| "Join_with sep [p] = p"
| "Join_with sep (p # ps) = p @ sep @ Join_with sep ps"

definition newline :: char where "newline = CHR 0x0A"

lemma HasPrefix_iff [simp]: "HasPrefix s p \<longleftrightarrow> prefix p s"
  by (auto simp: HasPrefix_def prefix_def) (metis append_take_drop_id)

lemma HasSuffix_iff [simp]: "HasSuffix s p \<longleftrightarrow> suffix p s"
  by (auto simp: HasSuffix_def suffix_def) (metis append_take_drop_id)

lemma TrimPrefix_append [simp]: "TrimPrefix (p @ s) p = s"
  by (simp add: TrimPrefix_def)

lemma TrimSuffix_append [simp]: "TrimSuffix (s @ p) p = s"
  by (simp add: TrimSuffix_def suffix_def)

lemma Split_on_nonempty [simp]: "Split_on sep s \<noteq> []"
  by (induction s) (auto split: list.splits)

lemma Split_on_no_sep: "sep \<notin> set s \<Longrightarrow> Split_on sep s = [s]"
  by (induction s) auto

lemma Split_on_append:
  "Split_on sep (s @ sep # t) = Split_on sep s @ Split_on sep t"
  by (induction s) (auto split: list.splits)

lemma Split_on_Join:
  "ps \<noteq> [] \<Longrightarrow> (\<forall>p \<in> set ps. sep \<notin> set p) \<Longrightarrow> Split_on sep (Join_with [sep] ps) = ps"
proof (induction "[sep]" ps rule: Join_with.induct)
  case (2 p)
  then show ?case by (simp add: Split_on_no_sep)
next
  case (3 p q ps)
  then show ?case by (simp add: Split_on_append Split_on_no_sep)
qed simp

lemma Split_on_pieces: "p \<in> set (Split_on sep s) \<Longrightarrow> sep \<notin> set p"
  by (induction s arbitrary: p) (auto split: list.splits if_splits)

lemma Cut_found [simp]: "sep \<notin> set s \<Longrightarrow> Cut (s @ sep # t) sep = (s, t, True)"
  by (induction s) (auto simp: Cut_def split: if_splits)

section \<open>Package strconv\<close>

definition digits :: string where "digits = ''0123456789abcdefghijklmnopqrstuvwxyz''"

fun format_nat :: "nat \<Rightarrow> nat \<Rightarrow> string" where
  "format_nat b n = (if n < b \<or> b < 2 then [digits ! n] else format_nat b (n div b) @ [digits ! (n mod b)])"

declare format_nat.simps [simp del]

definition FormatInt :: "int \<Rightarrow> nat \<Rightarrow> string" where
  "FormatInt i b = (if i < 0 then CHR ''-'' # format_nat b (nat (- i)) else format_nat b (nat i))"

definition digit_val :: "char \<Rightarrow> nat option" where
  "digit_val c =
     (let v = of_char c :: nat in
      if 48 \<le> v \<and> v \<le> 57 then Some (v - 48)
      else if 97 \<le> v \<and> v \<le> 122 then Some (v - 87)
      else if 65 \<le> v \<and> v \<le> 90 then Some (v - 55)
      else None)"

fun parse_digits :: "nat \<Rightarrow> nat \<Rightarrow> string \<Rightarrow> nat option" where
  "parse_digits b acc [] = Some acc"
| "parse_digits b acc (c # s) =
     (case digit_val c of None \<Rightarrow> None
      | Some d \<Rightarrow> if d < b then parse_digits b (acc * b + d) s else None)"

text \<open>\<open>ParseInt(s, base, 64)\<close>: \<open>None\<close> is any of its errors.\<close>

definition ParseInt :: "string \<Rightarrow> nat \<Rightarrow> int option" where
  "ParseInt s b =
     (let neg = (s \<noteq> [] \<and> hd s = CHR ''-'');
          t = (if s \<noteq> [] \<and> (hd s = CHR ''-'' \<or> hd s = CHR ''+'') then tl s else s)
      in if t = [] then None
         else case parse_digits b 0 t of
             None \<Rightarrow> None
           | Some n \<Rightarrow>
               if neg then (if n \<le> 2 ^ 63 then Some (- int n) else None)
               else (if n < 2 ^ 63 then Some (int n) else None))"

definition pad_left :: "char \<Rightarrow> nat \<Rightarrow> string \<Rightarrow> string" where
  "pad_left c w s = replicate (w - length s) c @ s"

definition pad_right :: "char \<Rightarrow> nat \<Rightarrow> string \<Rightarrow> string" where
  "pad_right c w s = s @ replicate (w - length s) c"

lemma digit_val_digits [simp]: "d < 36 \<Longrightarrow> digit_val (digits ! d) = Some d"
proof -
  have l: "list_all2 (\<lambda>c d. digit_val c = Some d) digits [0..<36]"
    by (simp add: digits_def digit_val_def upt_conv_Cons)
  assume "d < 36"
  then show ?thesis using list_all2_nthD2 [OF l, of d] by simp
qed

lemma parse_digits_append:
  "parse_digits b acc (s @ t) = (case parse_digits b acc s of None \<Rightarrow> None | Some a \<Rightarrow> parse_digits b a t)"
  by (induction s arbitrary: acc) (auto split: option.splits)

lemma parse_format_nat: "2 \<le> b \<Longrightarrow> b \<le> 36 \<Longrightarrow> parse_digits b 0 (format_nat b n) = Some n"
proof (induction b n rule: format_nat.induct)
  case (1 b n)
  show ?case
  proof (cases "n < b")
    case True
    with 1 show ?thesis by (simp add: format_nat.simps [of b n])
  next
    case False
    moreover have "n mod b < b" "n mod b < 36" using 1 by (auto intro: less_le_trans [of _ b])
    ultimately show ?thesis using 1 by (simp add: format_nat.simps [of b n] parse_digits_append)
  qed
qed

lemma format_nat_nonempty [simp]: "format_nat b n \<noteq> []"
  by (subst format_nat.simps) simp

lemma digits_not_sign: "d < 36 \<Longrightarrow> digits ! d \<noteq> CHR ''-''"
  using digit_val_digits [of d] by (auto simp: digit_val_def)

lemma format_nat_hd: "2 \<le> b \<Longrightarrow> b \<le> 36 \<Longrightarrow> hd (format_nat b n) \<noteq> CHR ''-''"
proof (induction b n rule: format_nat.induct)
  case (1 b n)
  then show ?case using digits_not_sign [of n] by (cases "n < b") (simp_all add: format_nat.simps [of b n])
qed

lemma format_nat_inj: "2 \<le> b \<Longrightarrow> b \<le> 36 \<Longrightarrow> format_nat b m = format_nat b n \<Longrightarrow> m = n"
  by (metis option.inject parse_format_nat)

lemma FormatInt_inj:
  assumes b: "2 \<le> b" "b \<le> 36" and eq: "FormatInt i b = FormatInt j b"
  shows "i = j"
proof -
  have n: "CHR ''-'' # s \<noteq> format_nat b n" for s n using format_nat_hd [OF b, of n] by (metis list.sel(1))
  show ?thesis
    using eq n n [symmetric] format_nat_inj [OF b] by (cases "i < 0"; cases "j < 0") (force simp: FormatInt_def)+
qed

section \<open>Package path/filepath\<close>

text \<open>
  \<open>Clean\<close> processes the elements of a path from the left; \<open>st\<close> is the result so far, last
  element first.
\<close>

fun clean_parts :: "bool \<Rightarrow> string list \<Rightarrow> string list \<Rightarrow> string list" where
  "clean_parts absolute st [] = rev st"
| "clean_parts absolute st (c # cs) =
     (if c = [] \<or> c = ''.'' then clean_parts absolute st cs
      else if c = ''..'' then
        (if st \<noteq> [] \<and> hd st \<noteq> ''..'' then clean_parts absolute (tl st) cs
         else if absolute then clean_parts absolute st cs
         else clean_parts absolute (c # st) cs)
      else clean_parts absolute (c # st) cs)"

definition path_parts :: "string \<Rightarrow> string list" where
  "path_parts p = Split_on (CHR ''/'') p"

definition IsAbs :: "string \<Rightarrow> bool" where
  "IsAbs p \<longleftrightarrow> p \<noteq> [] \<and> hd p = CHR ''/''"

definition Clean :: "string \<Rightarrow> string" where
  "Clean p =
     (let s = (if IsAbs p then ''/'' else []) @ Join_with ''/'' (clean_parts (IsAbs p) [] (path_parts p))
      in if s = [] then ''.'' else s)"

fun path_Join :: "string list \<Rightarrow> string" where
  "path_Join [] = []"
| "path_Join (e # es) = (if e \<noteq> [] then Clean (Join_with ''/'' (e # es)) else path_Join es)"

definition path_Split :: "string \<Rightarrow> string \<times> string" where
  "path_Split p =
     (let tail = rev (takeWhile (\<lambda>c. c \<noteq> CHR ''/'') (rev p))
      in (take (length p - length tail) p, tail))"

definition path_Dir :: "string \<Rightarrow> string" where
  "path_Dir p = Clean (fst (path_Split p))"

text \<open>\<open>Abs\<close>, in the working directory \<open>cwd\<close>\<close>

definition path_Abs :: "string \<Rightarrow> string \<Rightarrow> string" where
  "path_Abs cwd p = (if IsAbs p then Clean p else path_Join [cwd, p])"

text \<open>Clean absolute paths are given by their elements.\<close>

definition abs_path :: "string list \<Rightarrow> string" where
  "abs_path ps = CHR ''/'' # Join_with ''/'' ps"

definition normal :: "string \<Rightarrow> bool" where
  "normal c \<longleftrightarrow> c \<noteq> [] \<and> c \<noteq> ''.'' \<and> c \<noteq> ''..'' \<and> CHR ''/'' \<notin> set c"

lemma Join_with_nonempty: "\<forall>p \<in> set ps. p \<noteq> [] \<Longrightarrow> Join_with sep ps = [] \<longleftrightarrow> ps = []"
  by (induction sep ps rule: Join_with.induct) auto

lemma path_parts_Join:
  "es \<noteq> [] \<Longrightarrow> path_parts (Join_with ''/'' es) = concat (map path_parts es)"
  unfolding path_parts_def by (induction "''/''" es rule: Join_with.induct) (simp_all add: Split_on_append)

lemma path_parts_Cons_slash [simp]: "path_parts (CHR ''/'' # p) = [] # path_parts p"
  by (simp add: path_parts_def)

lemma path_parts_normal: "CHR ''/'' \<notin> set c \<Longrightarrow> path_parts c = [c]"
  by (simp add: path_parts_def Split_on_no_sep)

lemma path_parts_no_slash: "c \<in> set (path_parts p) \<Longrightarrow> CHR ''/'' \<notin> set c"
  by (simp add: path_parts_def Split_on_pieces)

lemma clean_parts_append:
  "clean_parts a st (cs @ ds) = clean_parts a (rev (clean_parts a st cs)) ds"
proof (induction a st cs rule: clean_parts.induct)
  case (2 a st c cs)
  consider "c = [] \<or> c = ''.''" | "c = ''..''" "st \<noteq> [] \<and> hd st \<noteq> ''..''" | "c = ''..''" "\<not> (st \<noteq> [] \<and> hd st \<noteq> ''..'')"
    | "c \<noteq> [] \<and> c \<noteq> ''.''" "c \<noteq> ''..''" by blast
  then show ?case using 2 by cases (cases a; auto)+
qed simp

lemma clean_parts_normal: "\<forall>c \<in> set cs. normal c \<Longrightarrow> clean_parts a st cs = rev st @ cs"
  by (induction cs arbitrary: st) (auto simp: normal_def)

lemma clean_parts_all_normal:
  "\<forall>c \<in> set st. normal c \<Longrightarrow> \<forall>c \<in> set cs. CHR ''/'' \<notin> set c \<Longrightarrow> \<forall>c \<in> set (clean_parts True st cs). normal c"
proof (induction cs arbitrary: st)
  case (Cons d cs)
  have tl: "\<forall>c \<in> set (tl st). normal c" using Cons.prems(1) by (cases st) auto
  consider "d = [] \<or> d = ''.''" | "d = ''..''" | "d \<noteq> [] \<and> d \<noteq> ''.''" "d \<noteq> ''..''" by blast
  then show ?case
  proof cases
    case 3
    then have "normal d" using Cons.prems(2) by (simp add: normal_def)
    with 3 Cons.IH [of "d # st"] Cons.prems show ?thesis by simp
  qed (use Cons.IH [of st] Cons.IH [OF tl] Cons.prems in simp_all)
qed simp

lemma Clean_abs: "IsAbs p \<Longrightarrow> Clean p = abs_path (clean_parts True [] (path_parts p))"
  by (simp add: Clean_def abs_path_def)

lemma Clean_abs_normal:
  "IsAbs p \<Longrightarrow> \<exists>cs. Clean p = abs_path cs \<and> (\<forall>c \<in> set cs. normal c)"
  using clean_parts_all_normal [of "[]" "path_parts p"]
  by (intro exI [of _ "clean_parts True [] (path_parts p)"]) (simp add: Clean_abs path_parts_no_slash)

lemma path_parts_abs_path: "\<forall>c \<in> set cs. normal c \<Longrightarrow> path_parts (abs_path cs) = [] # (if cs = [] then [[]] else cs)"
  unfolding abs_path_def path_parts_def
  using Split_on_Join [of cs "CHR ''/''"] by (auto simp: normal_def)

lemma clean_parts_abs_path [simp]:
  "\<forall>c \<in> set cs. normal c \<Longrightarrow> clean_parts True [] (path_parts (abs_path cs)) = cs"
  by (simp add: path_parts_abs_path clean_parts_normal)

lemma IsAbs_abs_path [simp]: "IsAbs (abs_path cs)"
  by (simp add: IsAbs_def abs_path_def)

lemma IsAbs_append [simp]: "IsAbs p \<Longrightarrow> IsAbs (p @ q)"
  by (cases p) (simp_all add: IsAbs_def)

lemma IsAbs_Join: "IsAbs p \<Longrightarrow> IsAbs (Join_with ''/'' (p # ps))"
  by (cases ps) simp_all

lemma abs_path_inj:
  assumes "\<forall>c \<in> set cs. normal c" "\<forall>c \<in> set ds. normal c" "abs_path cs = abs_path ds"
  shows "cs = ds"
proof -
  have "cs = clean_parts True [] (path_parts (abs_path cs))" using assms(1) by simp
  also have "\<dots> = ds" unfolding assms(3) using assms(2) by simp
  finally show ?thesis .
qed

text \<open>Joining onto a clean absolute path resolves the remaining elements from there.\<close>

lemma path_Join_abs:
  assumes "\<forall>c \<in> set cs. normal c" "es \<noteq> []"
  shows "path_Join (abs_path cs # es) = abs_path (clean_parts True (rev cs) (concat (map path_parts es)))"
proof -
  have ne: "abs_path cs \<noteq> []" by (simp add: abs_path_def)
  have "path_Join (abs_path cs # es) = Clean (Join_with ''/'' (abs_path cs # es))" by (simp add: abs_path_def)
  also have "\<dots> = abs_path (clean_parts True [] (path_parts (abs_path cs) @ concat (map path_parts es)))"
    using Clean_abs [OF IsAbs_Join [OF IsAbs_abs_path [of cs], of es]] path_parts_Join [of "abs_path cs # es"] by simp
  finally show ?thesis by (simp add: clean_parts_append assms)
qed

lemma path_Join_names:
  assumes "\<forall>c \<in> set cs. normal c" "\<forall>e \<in> set es. normal e" "es \<noteq> []"
  shows "path_Join (abs_path cs # es) = abs_path (cs @ es)"
proof -
  have "concat (map path_parts es) = es"
    using assms(2) by (induction es) (simp_all add: normal_def path_parts_normal)
  then show ?thesis unfolding path_Join_abs [OF assms(1,3)] by (simp add: clean_parts_normal [OF assms(2)])
qed

lemma path_Split_slash [simp]: "CHR ''/'' \<notin> set t \<Longrightarrow> path_Split (p @ CHR ''/'' # t) = (p @ ''/'', t)"
proof -
  assume t: "CHR ''/'' \<notin> set t"
  have "takeWhile (\<lambda>c. c \<noteq> CHR ''/'') (rev t @ CHR ''/'' # rev p) = rev t"
    using t by (induction t rule: rev_induct) auto
  then show ?thesis by (simp add: path_Split_def)
qed

lemma Join_with_snoc: "ps \<noteq> [] \<Longrightarrow> Join_with sep (ps @ [q]) = Join_with sep ps @ sep @ q"
proof (induction sep ps rule: Join_with.induct)
  case (3 sep p r ps)
  then show ?case by simp
qed simp_all

lemma abs_path_snoc:
  "abs_path (cs @ [c]) = (if cs = [] then [] else abs_path cs) @ CHR ''/'' # c"
  by (simp add: abs_path_def Join_with_snoc)

lemma path_Dir_abs_path [simp]:
  assumes "\<forall>c \<in> set cs. normal c" "normal c"
  shows "path_Dir (abs_path (cs @ [c])) = abs_path cs"
proof -
  have s: "path_Split (abs_path (cs @ [c])) = ((if cs = [] then [] else abs_path cs) @ ''/'', c)"
    using assms(2) by (simp add: abs_path_snoc normal_def)
  let ?d = "(if cs = [] then [] else abs_path cs) @ ''/''"
  have "IsAbs ?d" by (simp add: IsAbs_def abs_path_def)
  moreover have "path_parts ?d = (if cs = [] then [[]] else path_parts (abs_path cs)) @ [[]]"
    unfolding path_parts_def by (simp add: Split_on_append)
  ultimately show ?thesis
    unfolding path_Dir_def s fst_conv
    by (simp add: Clean_abs clean_parts_append assms(1))
qed

lemma prefix_abs_path:
  assumes "\<forall>c \<in> set cs. normal c" "\<forall>d \<in> set ds. normal d" "cs \<noteq> []" "prefix (abs_path cs @ ''/'') (abs_path ds)"
  shows "\<exists>es. ds = cs @ es \<and> es \<noteq> []"
proof -
  from assms(4) obtain t where t: "abs_path ds = abs_path cs @ CHR ''/'' # t" by (auto simp: prefix_def)
  then have "path_parts (abs_path ds) = path_parts (abs_path cs) @ path_parts t"
    unfolding path_parts_def by (simp add: Split_on_append)
  then have "(if ds = [] then [[]] else ds) = cs @ path_parts t"
    using assms(1-3) by (simp add: path_parts_abs_path)
  then show ?thesis using assms(1,3) unfolding path_parts_def
    by (cases cs) (auto simp: normal_def split: if_splits)
qed

section \<open>A file system\<close>

text \<open>
  Files and directories by clean absolute path; \<open>/\<close> is always a directory.  There are no links,
  and operations fail only for the reasons below (a full disk or missing permissions are not
  modelled).  Later entries of the list are shadowed by earlier ones.
\<close>

datatype node = File bytes | Directory

type_synonym fs = "(string \<times> node) list"

datatype os_error = ErrNotExist | ErrExist | NotDirectory | IsDirectory

definition lookup :: "fs \<Rightarrow> string \<Rightarrow> node option" where
  "lookup fs p = (if p = ''/'' then Some Directory else map_of fs p)"

definition ancestors :: "string \<Rightarrow> string list" where
  "ancestors p = (let ps = clean_parts True [] (path_parts p) in map (\<lambda>k. abs_path (take k ps)) [0..<length ps])"

fun is_file :: "node option \<Rightarrow> bool" where
  "is_file (Some (File _)) = True"
| "is_file _ = False"

definition Stat :: "fs \<Rightarrow> string \<Rightarrow> (os_error, node) res" where
  "Stat fs p =
     (case lookup fs p of
        Some n \<Rightarrow> Ok n
      | None \<Rightarrow> Err (if list_ex (\<lambda>a. is_file (lookup fs a)) (ancestors p) then NotDirectory else ErrNotExist))"

text \<open>The directory in which a new entry is made exists.\<close>

definition parent_dir :: "fs \<Rightarrow> string \<Rightarrow> (os_error, unit) res" where
  "parent_dir fs p =
     res_bind (Stat fs (path_Dir p)) (\<lambda>n. case n of Directory \<Rightarrow> Ok () | File _ \<Rightarrow> Err NotDirectory)"

definition Mkdir :: "string \<Rightarrow> fs \<Rightarrow> (os_error, fs) res" where
  "Mkdir p fs =
     (if lookup fs p \<noteq> None then Err ErrExist
      else res_bind (parent_dir fs p) (\<lambda>_. Ok ((p, Directory) # fs)))"

definition MkdirAll :: "string \<Rightarrow> fs \<Rightarrow> (os_error, fs) res" where
  "MkdirAll p fs =
     each (\<lambda>q fs. case lookup fs q of
         Some Directory \<Rightarrow> Ok fs
       | Some (File _) \<Rightarrow> Err NotDirectory
       | None \<Rightarrow> Ok ((q, Directory) # fs)) (ancestors p @ [p]) fs"

definition WriteFile :: "string \<Rightarrow> bytes \<Rightarrow> fs \<Rightarrow> (os_error, fs) res" where
  "WriteFile p data fs =
     (if lookup fs p = Some Directory then Err IsDirectory
      else res_bind (parent_dir fs p) (\<lambda>_. Ok ((p, File data) # fs)))"

definition ReadFile :: "string \<Rightarrow> fs \<Rightarrow> (os_error, bytes) res" where
  "ReadFile p fs =
     res_bind (Stat fs p) (\<lambda>n. case n of File d \<Rightarrow> Ok d | Directory \<Rightarrow> Err IsDirectory)"

text \<open>The names in a directory, sorted.\<close>

definition ReadDir :: "string \<Rightarrow> fs \<Rightarrow> (os_error, string list) res" where
  "ReadDir p fs =
     res_bind (Stat fs p) (\<lambda>n. case n of File _ \<Rightarrow> Err NotDirectory
       | Directory \<Rightarrow> Ok (sort (remdups (map (\<lambda>k. snd (path_Split k))
             (filter (\<lambda>k. k \<noteq> ''/'' \<and> path_Dir k = p) (map fst fs))))))"

text \<open>Every entry is below existing directories.\<close>

definition fs_wf :: "fs \<Rightarrow> bool" where
  "fs_wf fs \<longleftrightarrow> (\<forall>p \<in> fst ` set fs.
     (\<exists>cs. cs \<noteq> [] \<and> (\<forall>c \<in> set cs. normal c) \<and> p = abs_path cs \<and> lookup fs (path_Dir p) = Some Directory))"

lemma Stat_Ok [simp]: "Stat fs p = Ok n \<longleftrightarrow> lookup fs p = Some n"
  by (simp add: Stat_def split: option.splits)

lemma lookup_put: "p \<noteq> ''/'' \<Longrightarrow> lookup ((p, n) # fs) q = (if q = p then Some n else lookup fs q)"
  by (simp add: lookup_def)

lemma parent_dir_Ok [simp]: "parent_dir fs p = Ok () \<longleftrightarrow> lookup fs (path_Dir p) = Some Directory"
  by (cases "lookup fs (path_Dir p)") (auto simp: parent_dir_def Stat_def split: node.splits)

lemma lookup_root [simp]: "lookup fs ''/'' = Some Directory"
  by (simp add: lookup_def)

lemma WriteFile_Ok:
  "WriteFile p data fs = Ok fs' \<longleftrightarrow>
     lookup fs p \<noteq> Some Directory \<and> lookup fs (path_Dir p) = Some Directory \<and> fs' = (p, File data) # fs"
  by (auto simp: WriteFile_def)

lemma WriteFile_lookup:
  "WriteFile p data fs = Ok fs' \<Longrightarrow> lookup fs' q = (if q = p then Some (File data) else lookup fs q)"
  by (auto simp: WriteFile_Ok lookup_def)

lemma ReadFile_Ok [simp]: "ReadFile p fs = Ok d \<longleftrightarrow> lookup fs p = Some (File d)"
  by (cases "lookup fs p") (auto simp: ReadFile_def Stat_def split: node.splits)

lemma abs_path_root: "abs_path cs = ''/'' \<longleftrightarrow> Join_with ''/'' cs = []"
  by (simp add: abs_path_def)

text \<open>\<open>MkdirAll\<close> makes every missing directory on the way and changes nothing else.\<close>

lemma mkdirs_lookup:
  "each (\<lambda>q fs. case lookup fs q of Some Directory \<Rightarrow> Ok fs | Some (File _) \<Rightarrow> Err NotDirectory
       | None \<Rightarrow> Ok ((q, Directory) # fs)) ps fs = Ok fs' \<Longrightarrow>
   lookup fs' q = (if q \<in> set ps then Some Directory else lookup fs q) \<and> (q \<in> set ps \<longrightarrow> lookup fs q \<in> {None, Some Directory})"
proof (induction ps arbitrary: fs)
  case (Cons p ps)
  show ?case
  proof (cases "lookup fs p")
    case None
    then have "p \<noteq> ''/''" by auto
    with Cons.IH [of "(p, Directory) # fs"] Cons.prems None show ?thesis by (auto simp: lookup_put split: if_splits)
  next
    case (Some n)
    with Cons show ?thesis by (cases n) auto
  qed
qed simp

lemma MkdirAll_lookup:
  assumes "MkdirAll p fs = Ok fs'"
  shows "lookup fs' q = (if q \<in> set (ancestors p @ [p]) then Some Directory else lookup fs q)"
  using mkdirs_lookup [OF assms [unfolded MkdirAll_def]] by simp

lemma mkdirs_Ok:
  "\<forall>q \<in> set ps. lookup fs q \<in> {None, Some Directory} \<Longrightarrow>
   \<exists>fs'. each (\<lambda>q fs. case lookup fs q of Some Directory \<Rightarrow> Ok fs | Some (File _) \<Rightarrow> Err NotDirectory
       | None \<Rightarrow> Ok ((q, Directory) # fs)) ps fs = Ok fs'"
proof (induction ps arbitrary: fs)
  case (Cons p ps)
  have "\<forall>q \<in> set ps. lookup ((p, Directory) # fs) q \<in> {None, Some Directory}"
    using Cons.prems by (auto simp: lookup_def)
  then show ?case using Cons by (cases "lookup fs p") auto
qed simp

section \<open>Well-formed file systems\<close>

text \<open>The paths of entries: absolute, clean and not the root directory.\<close>

definition entry_name :: "string \<Rightarrow> bool" where
  "entry_name p \<longleftrightarrow> (\<exists>cs. cs \<noteq> [] \<and> (\<forall>c \<in> set cs. normal c) \<and> p = abs_path cs)"

lemma entry_nameI: "cs \<noteq> [] \<Longrightarrow> \<forall>c \<in> set cs. normal c \<Longrightarrow> entry_name (abs_path cs)"
  by (auto simp: entry_name_def)

lemma entry_name_cases:
  assumes "entry_name p"
  obtains cs c where "\<forall>c \<in> set cs. normal c" "normal c" "p = abs_path (cs @ [c])" "path_Dir p = abs_path cs" "path_Dir p \<noteq> p" "p \<noteq> ''/''"
proof -
  from assms obtain ds where d: "ds \<noteq> []" "\<forall>c \<in> set ds. normal c" "p = abs_path ds" by (auto simp: entry_name_def)
  obtain cs c where s: "ds = cs @ [c]" using d(1) by (metis rev_exhaust)
  have n: "\<forall>c \<in> set cs. normal c" "normal c" using d(2) s by simp_all
  have "abs_path cs \<noteq> abs_path (cs @ [c])" using abs_path_inj [of cs "cs @ [c]"] n by auto
  moreover have "abs_path (cs @ [c]) \<noteq> abs_path []" using abs_path_inj [of "cs @ [c]" "[]"] n by auto
  moreover have "abs_path [] = ''/''" by (simp add: abs_path_def)
  ultimately show thesis using that [of cs c] n d(3) s by simp
qed

lemma fs_wf_iff: "fs_wf fs \<longleftrightarrow> (\<forall>p \<in> fst ` set fs. entry_name p \<and> lookup fs (path_Dir p) = Some Directory)"
  by (auto simp: fs_wf_def entry_name_def)

lemma fs_wf_insert:
  assumes wf: "fs_wf fs" and p: "entry_name p" "lookup fs (path_Dir p) = Some Directory" "node = Directory \<or> lookup fs p \<noteq> Some Directory"
  shows "fs_wf ((p, node) # fs)"
proof -
  obtain cs c where e: "path_Dir p \<noteq> p" "p \<noteq> ''/''" using p(1) by (rule entry_name_cases)
  have l: "lookup ((p, node) # fs) q = (if q = p then Some node else lookup fs q)" for q using e(2) by (simp add: lookup_def)
  show ?thesis unfolding fs_wf_iff
  proof
    fix q assume "q \<in> fst ` set ((p, node) # fs)"
    then consider "q = p" | "q \<in> fst ` set fs" by auto
    then show "entry_name q \<and> lookup ((p, node) # fs) (path_Dir q) = Some Directory"
    proof cases
      case 2
      then have "entry_name q" "lookup fs (path_Dir q) = Some Directory" using wf by (auto simp: fs_wf_iff)
      then show ?thesis using p(3) by (auto simp: l)
    qed (use p e in \<open>simp add: l\<close>)
  qed
qed

lemma fs_wf_WriteFile: "fs_wf fs \<Longrightarrow> entry_name p \<Longrightarrow> WriteFile p data fs = Ok fs' \<Longrightarrow> fs_wf fs'"
  by (auto simp: WriteFile_def parent_dir_def Stat_def split: if_splits option.splits node.splits intro: fs_wf_insert)

lemma fs_wf_mkdirs:
  assumes "\<forall>c \<in> set cs. normal c" "fs_wf fs" "k \<le> length cs"
    and "each (\<lambda>q fs. case lookup fs q of Some Directory \<Rightarrow> Ok fs | Some (File _) \<Rightarrow> Err NotDirectory
       | None \<Rightarrow> Ok ((q, Directory) # fs)) (map (\<lambda>k. abs_path (take k cs)) [0..<Suc k]) fs = Ok fs'"
  shows "fs_wf fs'"
  using assms(3,4)
proof (induction k arbitrary: fs')
  case 0
  have "abs_path (take 0 cs) = ''/''" by (simp add: abs_path_def)
  then show ?case using 0 assms(2) by (simp add: lookup_def)
next
  case (Suc k)
  let ?mk = "\<lambda>q fs. case lookup fs q of Some Directory \<Rightarrow> Ok fs | Some (File _) \<Rightarrow> Err NotDirectory | None \<Rightarrow> Ok ((q, Directory) # fs)"
  let ?q = "abs_path (take (Suc k) cs)" and ?ps = "map (\<lambda>k. abs_path (take k cs)) [0..<Suc k]"
  have "map (\<lambda>k. abs_path (take k cs)) [0..<Suc (Suc k)] = ?ps @ [?q]" by simp
  then obtain fs1 where f: "each ?mk ?ps fs = Ok fs1" "?mk ?q fs1 = Ok fs'"
    using Suc.prems(2) by (simp only: each_append) (auto simp del: upt_Suc)
  have wf: "fs_wf fs1" using Suc.IH [OF _ f(1)] Suc.prems(1) by simp
  have s: "take (Suc k) cs = take k cs @ [cs ! k]" using Suc.prems(1) by (simp add: take_Suc_conv_app_nth)
  have n: "\<forall>c \<in> set (take k cs). normal c" "normal (cs ! k)" using assms(1) Suc.prems(1) by (auto dest: in_set_takeD)
  have "abs_path (take k cs) \<in> set ?ps" by auto
  then have d: "lookup fs1 (path_Dir ?q) = Some Directory" using mkdirs_lookup [OF f(1), of "abs_path (take k cs)"] n by (simp add: s del: upt_Suc)
  have e: "entry_name ?q" by (rule entry_nameI) (use n s in auto)
  show ?case using f(2) wf fs_wf_insert [OF wf e d] by (auto split: option.splits node.splits)
qed

lemma fs_wf_MkdirAll:
  assumes "\<forall>c \<in> set cs. normal c" "fs_wf fs" "MkdirAll (abs_path cs) fs = Ok fs'"
  shows "fs_wf fs'"
proof -
  have "ancestors (abs_path cs) @ [abs_path cs] = map (\<lambda>k. abs_path (take k cs)) [0..<Suc (length cs)]"
    using assms(1) by (simp add: ancestors_def Let_def)
  with assms(3) have "each (\<lambda>q fs. case lookup fs q of Some Directory \<Rightarrow> Ok fs | Some (File _) \<Rightarrow> Err NotDirectory
       | None \<Rightarrow> Ok ((q, Directory) # fs)) (map (\<lambda>k. abs_path (take k cs)) [0..<Suc (length cs)]) fs = Ok fs'"
    by (simp only: MkdirAll_def)
  from fs_wf_mkdirs [OF assms(1,2) order_refl this] show ?thesis .
qed

end
