(* ===== verification/GoText.thy ===== *)
theory GoText
  imports GoLib
begin

text \<open>
  Text formats of Go's standard library that the secret files use: base64, RFC 3339 time stamps
  and scanning by lines, each with the round trip the file format relies on.
\<close>

section \<open>Package encoding/base64 (StdEncoding)\<close>

definition b64_alphabet :: string where
  "b64_alphabet = ''ABCDEFGHIJKLMNOPQRSTUVWXYZabcdefghijklmnopqrstuvwxyz0123456789+/''"

fun index_of :: "char \<Rightarrow> string \<Rightarrow> nat option" where
  "index_of c [] = None"
| "index_of c (d # s) = (if c = d then Some 0 else map_option Suc (index_of c s))"

fun b64_encode :: "bytes \<Rightarrow> string" where
  "b64_encode [] = []"
| "b64_encode [a] =
     (let n = unat a * 16 in [b64_alphabet ! (n div 64), b64_alphabet ! (n mod 64), CHR ''='', CHR ''=''])"
| "b64_encode [a, b] =
     (let n = (unat a * 256 + unat b) * 4
      in [b64_alphabet ! (n div 4096), b64_alphabet ! (n div 64 mod 64), b64_alphabet ! (n mod 64), CHR ''=''])"
| "b64_encode (a # b # c # bs) =
     (let n = (unat a * 256 + unat b) * 256 + unat c
      in [b64_alphabet ! (n div 262144), b64_alphabet ! (n div 4096 mod 64), b64_alphabet ! (n div 64 mod 64),
          b64_alphabet ! (n mod 64)] @ b64_encode bs)"

fun b64_quanta :: "string \<Rightarrow> bytes option" where
  "b64_quanta [] = Some []"
| "b64_quanta (c1 # c2 # c3 # c4 # s) =
     (case (index_of c1 b64_alphabet, index_of c2 b64_alphabet) of
        (Some v1, Some v2) \<Rightarrow>
          if c3 = CHR ''='' then
            (if c4 = CHR ''='' \<and> s = [] then Some [of_nat ((v1 * 64 + v2) div 16)] else None)
          else (case index_of c3 b64_alphabet of
              None \<Rightarrow> None
            | Some v3 \<Rightarrow>
                if c4 = CHR ''='' then
                  (if s = [] then Some (let n = ((v1 * 64 + v2) * 64 + v3) div 4 in [of_nat (n div 256), of_nat (n mod 256)])
                   else None)
                else (case (index_of c4 b64_alphabet, b64_quanta s) of
                    (Some v4, Some bs) \<Rightarrow>
                      Some (let n = ((v1 * 64 + v2) * 64 + v3) * 64 + v4
                            in [of_nat (n div 65536), of_nat (n div 256 mod 256), of_nat (n mod 256)] @ bs)
                  | _ \<Rightarrow> None))
      | _ \<Rightarrow> None)"
| "b64_quanta s = None"

text \<open>\<open>DecodeString\<close> skips line breaks.\<close>

definition b64_decode :: "string \<Rightarrow> bytes option" where
  "b64_decode s = b64_quanta (filter (\<lambda>c. c \<noteq> newline \<and> c \<noteq> CHR 0x0D) s)"

lemma index_of_alphabet [simp]: "i < 64 \<Longrightarrow> index_of (b64_alphabet ! i) b64_alphabet = Some i"
proof -
  assume "i < 64"
  then have "i \<in> set [0..<64]" by simp
  moreover have "\<forall>i \<in> set [0..<64]. index_of (b64_alphabet ! i) b64_alphabet = Some i" by code_simp
  ultimately show ?thesis by blast
qed

definition b64_plain :: "char \<Rightarrow> bool" where
  "b64_plain c \<longleftrightarrow> c \<notin> {newline, CHR 0x0D, CHR '' '', CHR 0x09, CHR ''#'', CHR ''-''}"

lemma alphabet_plain [simp]: "i < 64 \<Longrightarrow> b64_plain (b64_alphabet ! i) \<and> b64_alphabet ! i \<noteq> CHR ''=''"
proof -
  assume "i < 64"
  moreover have "length b64_alphabet = 64" by (simp add: b64_alphabet_def)
  ultimately have "b64_alphabet ! i \<in> set b64_alphabet" by (metis nth_mem)
  moreover have "\<forall>c \<in> set b64_alphabet. b64_plain c \<and> c \<noteq> CHR ''=''"
    by (simp add: b64_alphabet_def b64_plain_def newline_def)
  ultimately show ?thesis by blast
qed

lemma b64_plain_eq [simp]: "b64_plain (CHR ''='')"
  by (simp add: b64_plain_def newline_def)

lemma b64_group1: "a < 256 \<Longrightarrow> a * 16 div 64 < (64 :: nat) \<and> (a * 16 div 64 * 64 + a * 16 mod 64) div 16 = a"
  using div_mult_mod_eq [of "a * 16" 64] less_mult_imp_div_less [of "a * 16" 64 64] by simp

lemma b64_group2: "a < 256 \<Longrightarrow> b < 256 \<Longrightarrow> (a * 256 + b) * 4 div 4096 < (64 :: nat)"
  by (rule less_mult_imp_div_less) simp

lemma b64_group3: "a < 256 \<Longrightarrow> b < 256 \<Longrightarrow> c < 256 \<Longrightarrow> ((a * 256 + b) * 256 + c) div 262144 < (64 :: nat)"
  by (rule less_mult_imp_div_less) simp

lemma b64_regroup2: "(n div 4096 * 64 + n div 64 mod 64) * 64 + n mod 64 = (n :: nat)"
proof -
  have "n div 4096 = n div 64 div 64" by (simp add: div_mult2_eq [symmetric])
  then show ?thesis by (simp only: div_mult_mod_eq)
qed

lemma b64_regroup3: "((n div 262144 * 64 + n div 4096 mod 64) * 64 + n div 64 mod 64) * 64 + n mod 64 = (n :: nat)"
proof -
  have "n div 262144 = n div 64 div 64 div 64" "n div 4096 = n div 64 div 64" by (simp_all add: div_mult2_eq [symmetric])
  then show ?thesis by (simp only: div_mult_mod_eq)
qed

lemma b64_quantum2:
  "n div 4096 < 64 \<Longrightarrow>
   b64_quanta [b64_alphabet ! (n div 4096), b64_alphabet ! (n div 64 mod 64), b64_alphabet ! (n mod 64), CHR ''=''] =
   Some [of_nat (n div 4 div 256), of_nat (n div 4 mod 256)]"
  using b64_regroup2 [of n] by (simp add: Let_def)

lemma b64_quantum3:
  "n div 262144 < 64 \<Longrightarrow> b64_quanta s = Some bs \<Longrightarrow>
   b64_quanta ([b64_alphabet ! (n div 262144), b64_alphabet ! (n div 4096 mod 64), b64_alphabet ! (n div 64 mod 64),
     b64_alphabet ! (n mod 64)] @ s) =
   Some ([of_nat (n div 65536), of_nat (n div 256 mod 256), of_nat (n mod 256)] @ bs)"
  using b64_regroup3 [of n] by (simp add: Let_def)

lemma b64_bytes3:
  assumes "b < 256" "c < 256"
  shows "((a * 256 + b) * 256 + c) div 65536 = (a :: nat)" "((a * 256 + b) * 256 + c) div 256 mod 256 = b"
    "((a * 256 + b) * 256 + c) mod 256 = c"
proof -
  have d: "((a * 256 + b) * 256 + c) div 256 = a * 256 + b"
    using assms(2) by (metis add.commute div_less div_mult_self3 plus_nat.add_0 zero_neq_numeral)
  have "((a * 256 + b) * 256 + c) div 65536 = (a * 256 + b) div 256"
    by (simp only: d div_mult2_eq [of _ 256 256, simplified mult_numeral_1 numeral_times_numeral semiring_norm])
  then show "((a * 256 + b) * 256 + c) div 65536 = a" using assms(1) by simp
  show "((a * 256 + b) * 256 + c) div 256 mod 256 = b" unfolding d using assms(1) by (metis mod_less mod_mult_self3)
  show "((a * 256 + b) * 256 + c) mod 256 = c" using assms(2) by (metis mod_less mod_mult_self3)
qed

lemma b64_encode_plain: "c \<in> set (b64_encode bs) \<Longrightarrow> b64_plain c"
proof (induction bs rule: b64_encode.induct)
  case (2 a)
  with b64_group1 [of "unat a"] show ?case by (auto simp: Let_def)
next
  case (3 a b)
  with b64_group2 [of "unat a" "unat b"] show ?case by (auto simp: Let_def)
next
  case (4 a b d bs)
  with b64_group3 [of "unat a" "unat b" "unat d"] show ?case by (auto simp: Let_def)
qed simp

lemma b64_quanta_encode: "b64_quanta (b64_encode bs) = Some bs"
proof (induction bs rule: b64_encode.induct)
  case (2 a)
  have "(unat a * 16 div 64 * 64 + unat a * 16 mod 64) div 16 = unat a" "unat a * 16 div 64 < 64"
    using b64_group1 [of "unat a"] by simp_all
  then show ?case unfolding b64_encode.simps Let_def b64_quanta.simps by simp
next
  case (3 a b)
  define n where "n = (unat a * 256 + unat b) * 4"
  have "n div 4096 < 64" using b64_group2 [of "unat a" "unat b"] by (simp add: n_def)
  moreover have "n div 4 = unat a * 256 + unat b" by (simp add: n_def)
  ultimately show ?case unfolding b64_encode.simps Let_def n_def [symmetric] by (simp add: b64_quantum2 del: b64_quanta.simps)
next
  case (4 a b c bs)
  define n where "n = (unat a * 256 + unat b) * 256 + unat c"
  have "n div 262144 < 64" using b64_group3 [of "unat a" "unat b" "unat c"] by (simp add: n_def)
  moreover have "n div 65536 = unat a" "n div 256 mod 256 = unat b" "n mod 256 = unat c"
    unfolding n_def by (rule b64_bytes3; simp)+
  ultimately show ?case
    unfolding b64_encode.simps Let_def n_def [symmetric] using 4 [OF n_def] by (simp add: b64_quantum3 del: append.simps b64_quanta.simps)
qed simp

lemma b64_decode_encode [simp]: "b64_decode (b64_encode bs) = Some bs"
proof -
  have "filter (\<lambda>c. c \<noteq> newline \<and> c \<noteq> CHR 0x0D) (b64_encode bs) = b64_encode bs"
    using b64_encode_plain [of _ bs] by (auto simp: b64_plain_def intro: filter_True)
  then show ?thesis by (simp add: b64_decode_def b64_quanta_encode)
qed

section \<open>Package time: the layout RFC3339\<close>

definition leap :: "nat \<Rightarrow> bool" where
  "leap y \<longleftrightarrow> y mod 4 = 0 \<and> (y mod 100 \<noteq> 0 \<or> y mod 400 = 0)"

definition year_days :: "nat \<Rightarrow> nat" where
  "year_days y = (if leap y then 366 else 365)"

definition month_days :: "nat \<Rightarrow> nat list" where
  "month_days y = [31, if leap y then 29 else 28, 31, 30, 31, 30, 31, 31, 30, 31, 30, 31]"

text \<open>
  The Gregorian calendar repeats every 400 years of 146097 days.  A day is counted from 0000-01-01;
  \<open>year_of\<close> and \<open>month_of\<close> step over the years of a cycle and the months of a year.
\<close>

function year_of :: "nat \<Rightarrow> nat \<Rightarrow> nat \<times> nat" where
  "year_of y d = (if d < year_days y then (y, d) else year_of (y + 1) (d - year_days y))"
  by pat_completeness auto
termination by (relation "measure snd") (auto simp: year_days_def)

declare year_of.simps [simp del]

fun month_of :: "nat list \<Rightarrow> nat \<Rightarrow> nat \<times> nat" where
  "month_of [] d = (0, d)"
| "month_of (n # ns) d = (if d < n then (0, d) else (let (m, r) = month_of ns (d - n) in (Suc m, r)))"

definition civil :: "int \<Rightarrow> int \<times> nat \<times> nat" where
  "civil day =
     (let (y, doy) = year_of 0 (nat (day mod 146097));
          (m, d) = month_of (month_days y) doy
      in (400 * (day div 146097) + int y, m + 1, d + 1))"

definition day_number :: "nat \<Rightarrow> nat \<Rightarrow> nat \<Rightarrow> int" where
  "day_number y m d =
     int (y div 400) * 146097 + int (sum_list (map year_days [0..<y mod 400])) +
     int (sum_list (take (m - 1) (month_days y))) + int (d - 1)"

text \<open>Unix times: 1970-01-01 is day 719528.\<close>

definition unix_day :: int where "unix_day = 719528"

definition year_digits :: "int \<Rightarrow> string" where
  "year_digits y = (if y < 0 then ''-'' else []) @ pad_left (CHR ''0'') 4 (format_nat 10 (nat \<bar>y\<bar>))"

definition two_digits :: "nat \<Rightarrow> string" where
  "two_digits n = pad_left (CHR ''0'') 2 (format_nat 10 n)"

definition Format_RFC3339 :: "int \<Rightarrow> string" where
  "Format_RFC3339 t =
     (let (y, m, d) = civil (t div 86400 + unix_day); s = nat (t mod 86400)
      in year_digits y @ ''-'' @ two_digits m @ ''-'' @ two_digits d @ ''T'' @
         two_digits (s div 3600) @ '':'' @ two_digits (s div 60 mod 60) @ '':'' @ two_digits (s mod 60) @ ''Z'')"

text \<open>
  \<open>Parse\<close>: each step consumes a part of the text.  The hour may have one digit, a fraction of a
  second is skipped, and the zone is \<open>Z\<close> or a signed offset.
\<close>

definition digit10 :: "char \<Rightarrow> nat option" where
  "digit10 c = (case digit_val c of Some d \<Rightarrow> if d < 10 then Some d else None | None \<Rightarrow> None)"

fun number :: "nat \<Rightarrow> nat \<Rightarrow> string \<Rightarrow> (nat \<times> string) option" where
  "number acc 0 s = Some (acc, s)"
| "number acc (Suc k) [] = None"
| "number acc (Suc k) (c # s) = (case digit10 c of None \<Rightarrow> None | Some d \<Rightarrow> number (acc * 10 + d) k s)"

fun expect :: "char \<Rightarrow> string \<Rightarrow> string option" where
  "expect c [] = None"
| "expect c (d # s) = (if c = d then Some s else None)"

definition one_or_two :: "string \<Rightarrow> (nat \<times> string) option" where
  "one_or_two s = (case number 0 2 s of Some r \<Rightarrow> Some r | None \<Rightarrow> number 0 1 s)"

fun skip_fraction :: "string \<Rightarrow> string" where
  "skip_fraction (p # d # s) =
     (if (p = CHR ''.'' \<or> p = CHR '','') \<and> digit10 d \<noteq> None then dropWhile (\<lambda>c. digit10 c \<noteq> None) (d # s) else p # d # s)"
| "skip_fraction s = s"

definition zone :: "string \<Rightarrow> (int \<times> string) option" where
  "zone s =
     (case s of
        [] \<Rightarrow> None
      | c # s \<Rightarrow>
          if c = CHR ''Z'' then Some (0, s)
          else if c = CHR ''+'' \<or> c = CHR ''-'' then
            Option.bind (number 0 2 s) (\<lambda>(h, s).
            Option.bind (expect (CHR '':'') s) (\<lambda>s.
            Option.bind (number 0 2 s) (\<lambda>(m, s).
              if h \<le> 24 \<and> m \<le> 60
              then Some ((if c = CHR ''-'' then - 1 else 1) * int (h * 3600 + m * 60), s) else None)))
          else None)"

definition Parse_RFC3339 :: "string \<Rightarrow> int option" where
  "Parse_RFC3339 s =
     Option.bind (number 0 4 s) (\<lambda>(y, s). Option.bind (expect (CHR ''-'') s) (\<lambda>s.
     Option.bind (number 0 2 s) (\<lambda>(mo, s). Option.bind (expect (CHR ''-'') s) (\<lambda>s.
     Option.bind (number 0 2 s) (\<lambda>(d, s). Option.bind (expect (CHR ''T'') s) (\<lambda>s.
     Option.bind (one_or_two s) (\<lambda>(h, s). Option.bind (expect (CHR '':'') s) (\<lambda>s.
     Option.bind (number 0 2 s) (\<lambda>(mi, s). Option.bind (expect (CHR '':'') s) (\<lambda>s.
     Option.bind (number 0 2 s) (\<lambda>(sec, s). Option.bind (zone (skip_fraction s)) (\<lambda>(off, s).
       if s = [] \<and> 1 \<le> mo \<and> mo \<le> 12 \<and> 1 \<le> d \<and> d \<le> month_days y ! (mo - 1) \<and> h < 24 \<and> mi < 60 \<and> sec < 60
       then Some ((day_number y mo d - unix_day) * 86400 + int (h * 3600 + mi * 60 + sec) - off)
       else None))))))))))))"

text \<open>Times whose year has four digits.\<close>

definition year_ok :: "int \<Rightarrow> bool" where
  "year_ok t \<longleftrightarrow> (case civil (t div 86400 + unix_day) of (y, _, _) \<Rightarrow> 0 \<le> y \<and> y < 10000)"

lemma year_of_spec:
  "year_of y d = (y', r) \<Longrightarrow>
   r < year_days y' \<and> y \<le> y' \<and> sum_list (map year_days [y..<y']) + r = d"
proof (induction y d rule: year_of.induct)
  case (1 y d)
  show ?case
  proof (cases "d < year_days y")
    case True
    with 1 show ?thesis by (auto simp: year_of.simps [of y d])
  next
    case False
    with 1 have h: "r < year_days y' \<and> y + 1 \<le> y' \<and> sum_list (map year_days [y + 1..<y']) + r = d - year_days y"
      by (simp add: year_of.simps [of y d])
    then have "[y..<y'] = y # [y + 1..<y']" by (simp add: upt_rec)
    then have "sum_list (map year_days [y..<y']) = year_days y + sum_list (map year_days [y + 1..<y'])" by simp
    with h False show ?thesis by linarith
  qed
qed

lemma month_of_spec:
  "month_of ns d = (m, r) \<Longrightarrow> d < sum_list ns \<Longrightarrow>
   m < length ns \<and> r < ns ! m \<and> sum_list (take m ns) + r = d"
proof (induction ns arbitrary: d m)
  case (Cons n ns)
  show ?case
  proof (cases "d < n")
    case False
    then obtain k where k: "month_of ns (d - n) = (k, r)" "m = Suc k"
      using Cons.prems(1) by (auto split: prod.splits)
    have "d - n < sum_list ns" using Cons.prems(2) False by simp
    from Cons.IH [OF k(1) this] k(2) False show ?thesis by auto
  qed (use Cons.prems in auto)
qed simp

lemma div_ceil_Suc: "0 < k \<Longrightarrow> (Suc n + (k - 1)) div k = (n + (k - 1)) div k + (if n mod k = 0 then 1 else 0)"
proof -
  assume k: "0 < (k :: nat)"
  then have "Suc n + (k - 1) = n + k" by simp
  then have "Suc n + (k - 1) = Suc (n + (k - 1))" "Suc (n + (k - 1)) mod k = n mod k" using k by simp_all
  then show ?thesis by (simp add: div_Suc)
qed

lemma year_days_sum:
  "sum_list (map year_days [0..<n]) + (n + 99) div 100 = 365 * n + (n + 3) div 4 + (n + 399) div 400"
proof (induction n)
  case (Suc n)
  have m: "n mod 100 = 0 \<Longrightarrow> n mod 4 = 0" "n mod 400 = 0 \<Longrightarrow> n mod 100 = 0"
    using mod_mod_cancel [of 4 100 n] mod_mod_cancel [of 100 400 n] by simp_all
  have "(Suc n + 99) div 100 = (n + 99) div 100 + (if n mod 100 = 0 then 1 else 0)"
    "(Suc n + 3) div 4 = (n + 3) div 4 + (if n mod 4 = 0 then 1 else 0)"
    "(Suc n + 399) div 400 = (n + 399) div 400 + (if n mod 400 = 0 then 1 else 0)"
    using div_ceil_Suc [of 100 n] div_ceil_Suc [of 4 n] div_ceil_Suc [of 400 n] by simp_all
  moreover have "sum_list (map year_days [0..<Suc n]) = sum_list (map year_days [0..<n]) + year_days n" by simp
  moreover have "year_days n + (if n mod 100 = 0 then 1 else 0) =
      365 + (if n mod 4 = 0 then 1 else 0) + (if n mod 400 = 0 then 1 else 0)"
    using m by (cases "n mod 4 = 0"; cases "n mod 100 = 0"; cases "n mod 400 = 0") (simp_all add: year_days_def leap_def)
  moreover have "S + y + (a + p) = 365 * Suc n + (b + q) + (c + r)"
    if "S + a = 365 * n + b + c" "y + p = 365 + q + r" for S y a b c p q r :: nat using that by simp
  ultimately show ?case using Suc by (simp only:)
qed simp

lemma cycle_days: "sum_list (map year_days [0..<400]) = 146097"
  using year_days_sum [of 400] by simp

lemma month_days_sum: "sum_list (month_days y) = year_days y" "length (month_days y) = 12"
  by (simp_all add: month_days_def year_days_def)

lemma year_in_cycle:
  assumes "year_of 0 d = (y, r)" and "d < 146097"
  shows "y < 400"
proof (rule ccontr)
  assume "\<not> y < 400"
  then have "[0..<y] = [0..<400] @ [400..<y]" by (metis le0 not_le upt_add_eq_append le_add_diff_inverse)
  with year_of_spec [OF assms(1)] cycle_days assms(2) show False by simp
qed

lemma leap_cycle: "leap (y mod 400) = leap y"
proof -
  have "(y mod 400) mod 4 = y mod 4" "(y mod 400) mod 100 = y mod 100" by (simp_all add: mod_mod_cancel)
  then show ?thesis by (simp add: leap_def)
qed

lemma day_number_civil:
  assumes "civil day = (y, m, d)" and "0 \<le> y"
  shows "day_number (nat y) m d = day" and "1 \<le> m" "m \<le> 12" "1 \<le> d" "d \<le> month_days (nat y) ! (m - 1)" "d < 100"
proof -
  define doe where "doe = nat (day mod 146097)"
  obtain yy doy where yo: "year_of 0 doe = (yy, doy)" by fastforce
  obtain mm dd where mo: "month_of (month_days yy) doy = (mm, dd)" by fastforce
  from assms(1) have e: "y = 400 * (day div 146097) + int yy" "m = mm + 1" "d = dd + 1"
    by (simp_all add: civil_def doe_def [symmetric] yo mo)
  have b: "doe < 146097" by (simp add: doe_def nat_less_iff)
  note ys = year_of_spec [OF yo] and yc = year_in_cycle [OF yo b]
  have ms: "mm < 12 \<and> dd < month_days yy ! mm \<and> sum_list (take mm (month_days yy)) + dd = doy"
    using month_of_spec [OF mo] ys by (simp add: month_days_sum)
  have k: "0 \<le> day div 146097" using assms(2) e(1) yc by linarith
  have ny: "nat y = 400 * nat (day div 146097) + yy" using k e(1) by linarith
  have md: "month_days (nat y) = month_days yy"
    using leap_cycle [of "nat y"] yc ny by (simp add: month_days_def)
  have "nat y div 400 = nat (day div 146097)" "nat y mod 400 = yy" using ny yc by simp_all
  moreover have "int (nat (day div 146097)) * 146097 + int doe = day"
    using k by (simp add: doe_def)
  ultimately show "day_number (nat y) m d = day"
    using ys ms e(2,3) unfolding day_number_def md by simp
  show "1 \<le> m" "m \<le> 12" "1 \<le> d" "d \<le> month_days (nat y) ! (m - 1)" using e ms md by simp_all
  have "month_days yy ! mm \<in> set (month_days yy)" using ms month_days_sum(2) by (metis nth_mem)
  then have "month_days yy ! mm \<le> 31" by (auto simp: month_days_def split: if_splits)
  then show "d < 100" using ms e by linarith
qed

lemma digit10_digits [simp]: "d < 10 \<Longrightarrow> digit10 (digits ! d) = Some d"
  by (simp add: digit10_def)

lemma digits_0: "digits ! 0 = CHR ''0''"
  by (simp add: digits_def)

lemma two_digits_eq: "n < 100 \<Longrightarrow> two_digits n = [digits ! (n div 10), digits ! (n mod 10)]"
  by (cases "n < 10")
    (simp_all add: two_digits_def pad_left_def format_nat.simps [of 10 n] format_nat.simps [of 10 "n div 10"] digits_0 div_less_iff_less_mult)

lemma format_nat_small: "n < 10 \<Longrightarrow> format_nat 10 n = [digits ! n]"
  by (simp add: format_nat.simps)

lemma format_nat_step: "10 \<le> n \<Longrightarrow> format_nat 10 n = format_nat 10 (n div 10) @ [digits ! (n mod 10)]"
  by (simp add: format_nat.simps [of 10 n])

lemma format_nat_pad:
  assumes "n < 10000"
  shows "pad_left (CHR ''0'') 4 (format_nat 10 n) =
    [digits ! (n div 10 div 10 div 10), digits ! (n div 10 div 10 mod 10), digits ! (n div 10 mod 10), digits ! (n mod 10)]"
proof -
  define a b c where "a = n div 10" and "b = a div 10" and "c = b div 10"
  have c: "c < 10" using assms by (simp add: a_def b_def c_def div_mult2_eq [symmetric] div_less_iff_less_mult)
  have four: "replicate 4 x = [x, x, x, x]" "replicate 3 x = [x, x, x]" "replicate 2 x = [x, x]" for x :: char
    by (simp_all add: numeral_eq_Suc)
  consider "n < 10" | "10 \<le> n" "a < 10" | "10 \<le> n" "10 \<le> a" "b < 10" | "10 \<le> n" "10 \<le> a" "10 \<le> b" by linarith
  then have "pad_left (CHR ''0'') 4 (format_nat 10 n) = [digits ! c, digits ! (b mod 10), digits ! (a mod 10), digits ! (n mod 10)]"
  proof cases
    case 1
    then have "a = 0" "b = 0" "c = 0" by (simp_all add: a_def b_def c_def)
    with 1 show ?thesis by (simp add: pad_left_def format_nat_small digits_0 four)
  next
    case 2
    then have "b = 0" "c = 0" by (simp_all add: b_def c_def)
    with 2 show ?thesis by (simp add: pad_left_def format_nat_step a_def [symmetric] format_nat_small digits_0 four)
  next
    case 3
    then have "c = 0" by (simp add: c_def)
    with 3 format_nat_step [of n] format_nat_step [of a] show ?thesis
      by (simp add: pad_left_def a_def [symmetric] b_def [symmetric] format_nat_small digits_0 four)
  next
    case 4
    with c format_nat_step [of n] format_nat_step [of a] format_nat_step [of b] show ?thesis
      by (simp add: pad_left_def a_def [symmetric] b_def [symmetric] c_def [symmetric] format_nat_small)
  qed
  then show ?thesis by (simp only: a_def b_def c_def)
qed

lemma number_two [simp]: "n < 100 \<Longrightarrow> number 0 2 (two_digits n @ s) = Some (n, s)"
  by (simp add: two_digits_eq numeral_2_eq_2 div_less_iff_less_mult)

lemma number_four: "0 \<le> y \<Longrightarrow> y < 10000 \<Longrightarrow> number 0 4 (year_digits y @ s) = Some (nat y, s)"
proof -
  assume y: "0 \<le> y" "y < 10000"
  define n where "n = nat y"
  have n: "n < 10000" "nat \<bar>y\<bar> = n" "\<not> y < 0" using y by (simp_all add: n_def)
  have r: "((n div 10 div 10 div 10 * 10 + n div 10 div 10 mod 10) * 10 + n div 10 mod 10) * 10 + n mod 10 = n"
    by (simp only: div_mult_mod_eq)
  have k: "n div 10 div 10 div 10 < 10" using n by (simp add: div_mult2_eq [symmetric] div_less_iff_less_mult)
  have four: "(4 :: nat) = Suc (Suc (Suc (Suc 0)))" by simp
  define a b c d where "a = n div 10 div 10 div 10" and "b = n div 10 div 10 mod 10" and "c = n div 10 mod 10" and "d = n mod 10"
  have l: "a < 10" "b < 10" "c < 10" "d < 10" using k by (simp_all add: a_def b_def c_def d_def)
  have "year_digits y @ s = digits ! a # digits ! b # digits ! c # digits ! d # s"
    unfolding year_digits_def n format_nat_pad [OF n(1)] using n(3) by (simp add: a_def b_def c_def d_def)
  then have "number 0 4 (year_digits y @ s) = Some (((a * 10 + b) * 10 + c) * 10 + d, s)"
    unfolding four by (simp add: l)
  then show ?thesis using r by (simp add: a_def b_def c_def d_def n_def)
qed

lemma expect_eq [simp]: "expect c (c # s) = Some s"
  by simp

lemma Parse_Format_RFC3339: "year_ok t \<Longrightarrow> Parse_RFC3339 (Format_RFC3339 t) = Some t"
proof -
  assume ok: "year_ok t"
  obtain y m d where c: "civil (t div 86400 + unix_day) = (y, m, d)" by (metis prod_cases3)
  define s where "s = nat (t mod 86400)"
  have y: "0 \<le> y" "y < 10000" using ok c by (simp_all add: year_ok_def)
  note dn = day_number_civil [OF c y(1)]
  have s: "s < 86400" "int s = t mod 86400" by (simp_all add: s_def nat_less_iff)
  have hms: "s div 3600 < 24" "s div 60 mod 60 < 60" "s mod 60 < 60" using s(1) by (simp_all add: div_less_iff_less_mult)
  have sum: "s div 3600 * 3600 + s div 60 mod 60 * 60 + s mod 60 = s"
  proof -
    have "s div 3600 = s div 60 div 60" by (simp add: div_mult2_eq [symmetric])
    then have "(s div 3600 * 60 + s div 60 mod 60) * 60 + s mod 60 = s" by (simp only: div_mult_mod_eq)
    then show ?thesis by simp
  qed
  have f: "Format_RFC3339 t = year_digits y @ CHR ''-'' # two_digits m @ CHR ''-'' # two_digits d @ CHR ''T'' #
      two_digits (s div 3600) @ CHR '':'' # two_digits (s div 60 mod 60) @ CHR '':'' # two_digits (s mod 60) @ ''Z''"
    by (simp add: Format_RFC3339_def c s_def Let_def)
  have z: "zone (skip_fraction ''Z'') = Some (0, [])" by (simp add: zone_def)
  have "m < 100" "d < 100" "s div 3600 < 100" "s div 60 mod 60 < 100" "s mod 60 < 100" using dn hms by linarith+
  then have "Parse_RFC3339 (Format_RFC3339 t) =
      Some ((t div 86400 + unix_day - unix_day) * 86400 + int (s div 3600 * 3600 + s div 60 mod 60 * 60 + s mod 60) - 0)"
    unfolding Parse_RFC3339_def f one_or_two_def using dn(1-5) hms
    by (simp only: number_four [OF y] number_two expect_eq z Option.bind.simps option.case prod.case) simp
  also have "\<dots> = Some t" unfolding sum using s(2) by simp
  finally show ?thesis .
qed

section \<open>Package bufio: Scanner over lines\<close>

definition MaxScanTokenSize :: nat where "MaxScanTokenSize = 64 * 1024"

definition strip_cr :: "string \<Rightarrow> string" where
  "strip_cr l = (if l \<noteq> [] \<and> last l = CHR 0x0D then butlast l else l)"

text \<open>The lines a scanner delivers, and whether it stops because a line does not fit its buffer.\<close>

definition scan_lines :: "string \<Rightarrow> string list \<times> bool" where
  "scan_lines s =
     (let ls = Split_on newline s;
          ls = (if last ls = [] then butlast ls else ls);
          fit = takeWhile (\<lambda>l. length l < MaxScanTokenSize) ls
      in (map strip_cr fit, length fit < length ls))"

text \<open>Text made of whole lines.\<close>

definition unlines :: "string list \<Rightarrow> string" where
  "unlines ls = concat (map (\<lambda>l. l @ [newline]) ls)"

definition line_ok :: "string \<Rightarrow> bool" where
  "line_ok l \<longleftrightarrow> newline \<notin> set l \<and> length l < MaxScanTokenSize \<and> (l = [] \<or> last l \<noteq> CHR 0x0D)"

lemma unlines_simps [simp]: "unlines [] = []" "unlines (l # ls) = l @ newline # unlines ls"
  by (simp_all add: unlines_def)

lemma unlines_append: "unlines (as @ bs) = unlines as @ unlines bs"
  by (simp add: unlines_def)

lemma Split_unlines: "\<forall>l \<in> set ls. newline \<notin> set l \<Longrightarrow> Split_on newline (unlines ls) = ls @ [[]]"
  by (induction ls) (simp_all add: Split_on_append Split_on_no_sep)

lemma scan_unlines: "\<forall>l \<in> set ls. line_ok l \<Longrightarrow> scan_lines (unlines ls) = (ls, False)"
proof -
  assume ok: "\<forall>l \<in> set ls. line_ok l"
  then have "Split_on newline (unlines ls) = ls @ [[]]" by (intro Split_unlines) (simp add: line_ok_def)
  moreover have "takeWhile (\<lambda>l. length l < MaxScanTokenSize) ls = ls" using ok by (simp add: takeWhile_eq_all_conv line_ok_def)
  moreover have "map strip_cr ls = ls" using ok by (intro map_idI) (auto simp: line_ok_def strip_cr_def)
  ultimately show ?thesis by (simp add: scan_lines_def Let_def del: takeWhile_eq_all_conv)
qed

lemma b64_encode_nonempty: "d \<noteq> [] \<Longrightarrow> b64_encode d \<noteq> []"
  by (induction d rule: b64_encode.induct) (simp_all add: Let_def)

lemma year_okI:
  assumes "- 62167219200 \<le> t" "t < 253402300800"
  shows "year_ok t"
proof -
  define day where "day = t div 86400 + unix_day"
  have lo: "- 719528 \<le> t div 86400" using assms(1) zdiv_mono1 [of "- 62167219200" t 86400] by simp
  have hi: "t div 86400 < 2932897" using assms(2) by linarith
  have d: "0 \<le> day div 146097" "day div 146097 < 25"
    using lo hi by (simp_all add: day_def unix_day_def pos_imp_zdiv_nonneg_iff)
  obtain y r where y: "year_of 0 (nat (day mod 146097)) = (y, r)" by fastforce
  then have "y < 400" by (rule year_in_cycle) (simp add: nat_less_iff)
  with d y show ?thesis unfolding year_ok_def day_def [symmetric] civil_def
    by (auto split: prod.split)
qed

end
