(* ===== verification/Master.thy ===== *)
theory Master
  imports Access GoText
begin

text \<open>
  The master key of a secrets repository (\<open>src/secrets/master\<close>, \<open>src/secrets/util/public_key.go\<close>):
  loading keys and certificates, deriving the key pair of the NaCl box from a deterministic ssh
  signature, and opening boxes.
\<close>

section \<open>What the code takes from golang.org/x/crypto and from ssh-agent\<close>

text \<open>
  A source of randomness is either exhausted (\<open>util.AntiReader\<close>) or holds bytes.  A signer returns
  the format and the blob of a signature; \<open>ErrAntiReader\<close> is the error of reading from \<open>AntiReader\<close>.
\<close>

datatype entropy = AntiReader | Entropy bytes

datatype sign_error = ErrAntiReader | SignRefused

record signer =
  sg_PublicKey :: pubkey
  sg_Sign :: "entropy \<Rightarrow> bytes \<Rightarrow> (sign_error, string \<times> bytes) res"

text \<open>The field \<open>Reserved\<close> of \<open>ssh.Certificate\<close> is used by master certificates only.\<close>

record mcert = cert +
  cert_Reserved :: bytes

record crypto =
  x_Sum512 :: "bytes \<Rightarrow> bytes"
  x_hkdf :: "bytes \<Rightarrow> bytes \<Rightarrow> bytes \<Rightarrow> bytes"
  x_ScalarBaseMult :: "bytes \<Rightarrow> bytes"
  x_GenerateKey :: "bytes \<Rightarrow> bytes \<times> bytes"
  x_Seal :: "bytes \<Rightarrow> bytes \<Rightarrow> bytes \<Rightarrow> bytes \<Rightarrow> bytes"
  x_Open :: "bytes \<Rightarrow> bytes \<Rightarrow> bytes \<Rightarrow> bytes \<Rightarrow> bytes option"
  x_SignCert :: "signer \<Rightarrow> mcert \<Rightarrow> mcert option"
  x_CheckCert :: "string list \<Rightarrow> string \<Rightarrow> mcert \<Rightarrow> bool"
  x_ParseAuthorizedKey :: "bytes \<Rightarrow> (pubkey \<times> mcert option) option"
  x_MarshalAuthorizedKey :: "pubkey \<Rightarrow> bytes"
  x_MarshalCert :: "mcert \<Rightarrow> bytes"
  x_Verify :: "pubkey \<Rightarrow> bytes \<Rightarrow> string \<times> bytes \<Rightarrow> bool"
  x_Fingerprint :: "pubkey \<Rightarrow> string"

text \<open>
  What the packages document: a box sealed with a generated key for a public key is opened with
  the matching secret key, and is 16 bytes (\<open>box.Overhead\<close>) longer than the message.
\<close>

definition box_law :: "crypto \<Rightarrow> bool" where
  "box_law x \<longleftrightarrow>
     (\<forall>e m n s. x_Open x (x_Seal x m n (x_ScalarBaseMult x s) (snd (x_GenerateKey x e))) n (fst (x_GenerateKey x e)) s = Some m) \<and>
     (\<forall>m n p s. length (x_Seal x m n p s) = length m + 16) \<and>
     (\<forall>e. length (fst (x_GenerateKey x e)) = 32) \<and> (\<forall>s. length (x_ScalarBaseMult x s) = 32)"

datatype master_error =
    FileError os_error | UnparsableKey | NotCertificate string
  | NonceTooShort | NotDeterministic string | SigningFailed
  | NotGivenToKey | NotSignedByKey | NoKeyId | KeyIdNotBase64 | ReservedTooShort nat | UnexpectedPrincipals
  | NoCriticalOptions | MasterCheckFailed | MasterSignFailed | AgentFailed
  | BoxKeyMismatch | DecryptionFailed

section \<open>Keys and certificates in files (util/public\_key.go)\<close>

definition parse_key_file :: "crypto \<Rightarrow> fs \<Rightarrow> string \<Rightarrow> (master_error, pubkey \<times> mcert option) res" where
  "parse_key_file x fs path =
     res_bind (map_err FileError (ReadFile path fs)) (\<lambda>raw.
       case x_ParseAuthorizedKey x raw of None \<Rightarrow> Err UnparsableKey | Some k \<Rightarrow> Ok k)"

definition LoadPublicKey :: "crypto \<Rightarrow> fs \<Rightarrow> string \<Rightarrow> (master_error, pubkey) res" where
  "LoadPublicKey x fs path =
     res_bind (parse_key_file x fs path) (\<lambda>(key, crt).
       Ok (case crt of Some c \<Rightarrow> cert_Key c | None \<Rightarrow> key))"

definition util_LoadCertificate :: "crypto \<Rightarrow> fs \<Rightarrow> string \<Rightarrow> (master_error, mcert) res" where
  "util_LoadCertificate x fs path =
     res_bind (parse_key_file x fs path) (\<lambda>(key, crt).
       case crt of Some c \<Rightarrow> Ok c | None \<Rightarrow> Err (NotCertificate (key_Type key)))"

section \<open>Key derivation (key\_derivation.go)\<close>

definition masterTag :: string where "masterTag = ''pond/secrets: master key''"

definition sha512_Size :: nat where "sha512_Size = 64"

definition derivePublicKey :: "crypto \<Rightarrow> bytes \<Rightarrow> bytes" where
  "derivePublicKey x seed = x_ScalarBaseMult x seed"

definition boxKey :: "crypto \<Rightarrow> signer \<Rightarrow> bytes \<Rightarrow> (master_error, bytes \<times> bytes) res" where
  "boxKey x sg nonce =
     (if length nonce < sha512_Size then Err NonceTooShort
      else case sg_Sign sg AntiReader (bytes_of masterTag @ nonce) of
          Panic \<Rightarrow> Panic
        | Err ErrAntiReader \<Rightarrow> Err (NotDeterministic (key_Type (sg_PublicKey sg)))
        | Err SignRefused \<Rightarrow> Err SigningFailed
        | Ok (format, blob) \<Rightarrow>
            let private = x_hkdf x blob (x_Sum512 x blob) (bytes_of masterTag)
            in Ok (derivePublicKey x private, private))"

section \<open>Master certificates (cert.go)\<close>

text \<open>\<open>copy\<close> into a zeroed array of \<open>n\<close> bytes\<close>

definition copy_array :: "nat \<Rightarrow> bytes \<Rightarrow> bytes" where
  "copy_array n d = take n d @ replicate (n - length d) 0"

text \<open>\<open>SendTo\<close>: \<open>None\<close> is the nil pointer.  The decoded key is cached in the certificate, which does not change.\<close>

definition SendTo :: "mcert \<Rightarrow> bytes option" where
  "SendTo c = (case b64_decode (KeyId c) of None \<Rightarrow> None | Some decoded \<Rightarrow> Some (copy_array 32 decoded))"

definition master_Validate :: "crypto \<Rightarrow> pubkey option \<Rightarrow> mcert \<Rightarrow> (master_error, unit) res" where
  "master_Validate x pubkey c =
     (let pubkey = (case pubkey of None \<Rightarrow> cert_Key c | Some k \<Rightarrow> k)
      in if \<not> EqualSSH pubkey (cert_Key c) then Err NotGivenToKey
         else case cert_SignatureKey c of
             None \<Rightarrow> Panic
           | Some sk \<Rightarrow>
               if \<not> EqualSSH pubkey sk then Err NotSignedByKey
               else if length (KeyId c) = 0 then Err NoKeyId
               else if b64_decode (KeyId c) = None then Err KeyIdNotBase64
               else if length (cert_Reserved c) < sha512_Size then Err (ReservedTooShort (length (cert_Reserved c)))
               else if length (ValidPrincipals c) \<noteq> 0 then Err UnexpectedPrincipals
               else if length (CriticalOptions c) = 0 then Err NoCriticalOptions
               else if x_CheckCert x [masterTag] masterTag c then Ok () else Err MasterCheckFailed)"

definition master_LoadCertificate :: "crypto \<Rightarrow> fs \<Rightarrow> string \<Rightarrow> (master_error, mcert) res" where
  "master_LoadCertificate x fs path =
     res_bind (util_LoadCertificate x fs path) (\<lambda>c. res_bind (master_Validate x None c) (\<lambda>_. Ok c))"

section \<open>Master keys (master.go, crypto.go)\<close>

record master_key =
  mk_signer :: signer
  mk_seed :: bytes

text \<open>Nine months of thirty days, in nanoseconds\<close>

definition masterCertLifetime :: int where "masterCertLifetime = 3600 * 24 * 30 * 9 * 1000000000"

text \<open>\<open>seed\<close> are \<open>sha512.Size * 4\<close> random bytes, \<open>now\<close> is the time in nanoseconds.\<close>

definition master_NewCertificate :: "crypto \<Rightarrow> bytes \<Rightarrow> int \<Rightarrow> signer \<Rightarrow> (master_error, mcert) res" where
  "master_NewCertificate x seed now sg =
     res_bind (boxKey x sg seed) (\<lambda>(pubkey, _).
       case x_SignCert x sg
           \<lparr>cert_Key = sg_PublicKey sg, KeyId = b64_encode pubkey, ValidPrincipals = [], CriticalOptions = [masterTag],
            Serial = uint64 now, cert_ValidAfter = uint64 (unix now),
            cert_ValidBefore = uint64 (unix (now + masterCertLifetime)), cert_SignatureKey = None,
            cert_Reserved = seed\<rparr> of
         None \<Rightarrow> Err MasterSignFailed
       | Some c \<Rightarrow> Ok c)"

definition NewKey :: "crypto \<Rightarrow> signer \<Rightarrow> mcert \<Rightarrow> (master_error, master_key) res" where
  "NewKey x sg c =
     res_bind (master_Validate x (Some (sg_PublicKey sg)) c) (\<lambda>_.
     res_bind (boxKey x sg (cert_Reserved c)) (\<lambda>(expected, _).
       case SendTo c of
         None \<Rightarrow> Panic
       | Some actual \<Rightarrow>
           if expected \<noteq> actual then Err BoxKeyMismatch
           else Ok \<lparr>mk_signer = sg, mk_seed = cert_Reserved c\<rparr>))"

text \<open>\<open>agent_New\<close> is the connection to ssh-agent for a public key.\<close>

definition master_Open :: "crypto \<Rightarrow> (pubkey \<Rightarrow> signer option) \<Rightarrow> fs \<Rightarrow> string \<Rightarrow> (master_error, master_key) res" where
  "master_Open x agent_New fs path =
     res_bind (master_LoadCertificate x fs path) (\<lambda>c.
       case agent_New (cert_Key c) of None \<Rightarrow> Err AgentFailed | Some sg \<Rightarrow> NewKey x sg c)"

text \<open>
  \<open>Unbox\<close>: the deferred call evaluates \<open>secret[:]\<close> before the error is looked at, and slicing a nil
  array pointer panics.
\<close>

definition Unbox :: "crypto \<Rightarrow> master_key \<Rightarrow> bytes \<Rightarrow> bytes \<Rightarrow> bytes \<Rightarrow> (master_error, bytes) res" where
  "Unbox x k cipher sender nonce =
     (case boxKey x (mk_signer k) (mk_seed k) of
        Panic \<Rightarrow> Panic
      | Err e \<Rightarrow> Panic
      | Ok (_, secret) \<Rightarrow>
          (case x_Open x cipher nonce sender secret of None \<Rightarrow> Err DecryptionFailed | Some plain \<Rightarrow> Ok plain))"

section \<open>Lemmas\<close>

lemma copy_array_id [simp]: "length d = n \<Longrightarrow> copy_array n d = d"
  by (simp add: copy_array_def)

lemma EqualSSH_refl [simp]: "EqualSSH k k"
  by (simp add: EqualSSH_def)

lemma boxKey_Ok:
  "boxKey x sg nonce = Ok (pub, priv) \<Longrightarrow> pub = x_ScalarBaseMult x priv \<and> sha512_Size \<le> length nonce"
  by (auto simp: boxKey_def derivePublicKey_def Let_def split: if_splits res.splits sign_error.splits)

text \<open>What \<open>NewKey\<close> has checked.\<close>

lemma NewKey_Ok:
  assumes "NewKey x sg c = Ok k"
  obtains priv where "boxKey x (mk_signer k) (mk_seed k) = Ok (x_ScalarBaseMult x priv, priv)"
    "SendTo c = Some (x_ScalarBaseMult x priv)" "mk_signer k = sg" "mk_seed k = cert_Reserved c"
proof -
  from assms obtain pub priv where b: "boxKey x sg (cert_Reserved c) = Ok (pub, priv)"
    and s: "SendTo c = Some pub" and k: "k = \<lparr>mk_signer = sg, mk_seed = cert_Reserved c\<rparr>"
    by (auto simp: NewKey_def split: option.splits if_splits)
  from that [of priv] b s k boxKey_Ok [OF b] show thesis by simp
qed

text \<open>The contract of \<open>SignCert\<close>: it fills in the key of the signer and keeps what it signs.\<close>

definition sign_cert_law :: "crypto \<Rightarrow> bool" where
  "sign_cert_law x \<longleftrightarrow> (\<forall>sg c c'. x_SignCert x sg c = Some c' \<longrightarrow> c' = c\<lparr>cert_SignatureKey := Some (sg_PublicKey sg)\<rparr>)"

lemma NewKey_NewCertificate:
  assumes "box_law x" "sign_cert_law x" "x_CheckCert x [masterTag] masterTag c"
    and "master_NewCertificate x seed now sg = Ok c"
  shows "NewKey x sg c = Ok \<lparr>mk_signer = sg, mk_seed = seed\<rparr>"
proof -
  from assms(4) obtain pub priv c0 where b: "boxKey x sg seed = Ok (pub, priv)" and s: "x_SignCert x sg c0 = Some c"
    and c0: "c0 = \<lparr>cert_Key = sg_PublicKey sg, KeyId = b64_encode pub, ValidPrincipals = [], CriticalOptions = [masterTag],
            Serial = uint64 now, cert_ValidAfter = uint64 (unix now),
            cert_ValidBefore = uint64 (unix (now + masterCertLifetime)), cert_SignatureKey = None,
            cert_Reserved = seed\<rparr>"
    by (auto simp: master_NewCertificate_def split: option.splits)
  have c: "c = c0\<lparr>cert_SignatureKey := Some (sg_PublicKey sg)\<rparr>" using assms(2) s by (simp add: sign_cert_law_def)
  note pub = boxKey_Ok [OF b]
  have l: "length pub = 32" using assms(1) pub by (simp add: box_law_def)
  have ne: "b64_encode pub \<noteq> []"
  proof
    assume "b64_encode pub = []"
    then have "b64_decode (b64_encode pub) = Some []" by (simp add: b64_decode_def)
    with l show False by simp
  qed
  have "SendTo c = Some pub" by (simp add: SendTo_def c c0 l)
  moreover have "master_Validate x (Some (sg_PublicKey sg)) c = Ok ()"
    using ne pub assms(3) by (simp add: master_Validate_def c c0)
  ultimately show ?thesis using b by (simp add: NewKey_def c c0)
qed

lemma util_LoadCertificate_file:
  assumes "util_LoadCertificate x fs p = Ok c" "\<And>d. lookup fs p = Some (File d) \<Longrightarrow> lookup fs' p = Some (File d)"
  shows "util_LoadCertificate x fs' p = Ok c"
proof -
  obtain d where "lookup fs p = Some (File d)"
    using assms(1) by (auto simp: util_LoadCertificate_def parse_key_file_def ReadFile_def Stat_def split: option.splits node.splits)
  with assms(2) have "ReadFile p fs' = ReadFile p fs" by (simp add: ReadFile_def Stat_def)
  with assms(1) show ?thesis by (simp add: util_LoadCertificate_def parse_key_file_def)
qed

lemma master_LoadCertificate_file:
  "master_LoadCertificate x fs p = Ok c \<Longrightarrow> (\<And>d. lookup fs p = Some (File d) \<Longrightarrow> lookup fs' p = Some (File d)) \<Longrightarrow>
   master_LoadCertificate x fs' p = Ok c"
  by (auto simp: master_LoadCertificate_def dest: util_LoadCertificate_file)

end
