(* ===== verification/Value.thy ===== *)
theory Value
  imports Bytepack Master
begin

text \<open>
  Encrypted secret values (\<open>src/secrets/value\<close>): signing and verifying, sealing for the master key
  and opening, and the text format of the files.
\<close>

section \<open>Values (value.go)\<close>

text \<open>Times are Unix seconds: the code reads nothing else of them.\<close>

record Value =
  v_Path :: "string list"
  v_Created :: int
  v_Expires :: int
  v_Signer :: "pubkey option"
  v_blob :: bytes
  v_signature :: bytes

definition fileHeader :: string where "fileHeader = ''[pond/secrets]''"
definition sigHeader :: string where "sigHeader = ''pond/secrets: Encrypted secret value''"
definition sigNonceBytes :: nat where "sigNonceBytes = 64"

definition sigFormat :: "string \<Rightarrow> string option" where
  "sigFormat t = (if t = ''ssh-rsa'' then Some ''rsa-sha2-512'' else None)"

datatype value_error =
    ValueTooLarge | PackFailed pack_error | ElementCount nat | MasterFailed master_error
  | ValueSigningFailed | UnsupportedSignature string string | NotSignedYet | InvalidSignature
  | SerializeUnverified value_error
  | EmptyInput | UnexpectedHeader string | NoFieldName nat | InvalidTimestamp nat | InvalidField nat string
  | LineTooLong | BlobNotBase64 | UnpackFailed pack_error | InvalidSigner | FingerprintMismatch string

text \<open>\<open>fmt.Fprintln\<close> of one operand\<close>

definition println :: "string \<Rightarrow> string" where
  "println s = s @ [newline]"

text \<open>\<open>bytesToSign\<close>: \<open>random\<close> are \<open>sigNonceBytes\<close> random bytes, used unless a nonce of that length is given.\<close>

definition bytesToSign :: "bytes \<Rightarrow> bytes \<Rightarrow> Value \<Rightarrow> bytes" where
  "bytesToSign random nonce v =
     (if length nonce = sigNonceBytes then nonce else random) @
     bytes_of (println sigHeader @ println (FormatInt (v_Created v) 10) @ println (FormatInt (v_Expires v) 10) @
               concat (map println (v_Path v))) @
     v_blob v"

definition expectedFormat :: "pubkey \<Rightarrow> string" where
  "expectedFormat k = (case sigFormat (key_Type k) of None \<Rightarrow> key_Type k | Some f \<Rightarrow> f)"

text \<open>\<open>rnd\<close> is what the signer reads from \<open>rand.Reader\<close>.\<close>

definition value_Sign :: "bytes \<Rightarrow> bytes \<Rightarrow> signer \<Rightarrow> Value \<Rightarrow> (value_error, Value) res" where
  "value_Sign random rnd sg v =
     (let data = bytesToSign random [] v
      in case sg_Sign sg (Entropy rnd) data of
          Panic \<Rightarrow> Panic
        | Err e \<Rightarrow> Err ValueSigningFailed
        | Ok (format, blob) \<Rightarrow>
            if format \<noteq> expectedFormat (sg_PublicKey sg)
            then Err (UnsupportedSignature format (expectedFormat (sg_PublicKey sg)))
            else Ok (v\<lparr>v_Signer := Some (sg_PublicKey sg), v_signature := take sigNonceBytes data @ blob\<rparr>))"

definition value_Verify :: "crypto \<Rightarrow> Value \<Rightarrow> (value_error, unit) res" where
  "value_Verify x v =
     (case v_Signer v of
        None \<Rightarrow> Err NotSignedYet
      | Some key \<Rightarrow>
          if length (v_signature v) = 0 then Err NotSignedYet
          else res_bind (slice (v_signature v) 0 sigNonceBytes) (\<lambda>nonce.
            if x_Verify x key (bytesToSign [] nonce v) (expectedFormat key, drop sigNonceBytes (v_signature v))
            then Ok () else Err InvalidSignature))"

section \<open>Encryption (crypto.go)\<close>

definition MaxValueBytes :: nat where "MaxValueBytes = 16 * 1024"
definition paddingMaxBytes :: nat where "paddingMaxBytes = 64"

text \<open>
  \<open>nonce\<close> are 24 random bytes, \<open>seed\<close> the randomness of \<open>box.GenerateKey\<close>, \<open>padding\<close> the
  \<open>1 + paddingMaxBytes\<close> random bytes of which a prefix of random length is used.
\<close>

definition Encrypt :: "crypto \<Rightarrow> bytes \<Rightarrow> bytes \<Rightarrow> bytes \<Rightarrow> mcert \<Rightarrow> bytes \<Rightarrow> Value \<Rightarrow> (value_error, Value) res" where
  "Encrypt x nonce seed padding master plaintext v =
     (if length plaintext > MaxValueBytes then Err ValueTooLarge
      else let (senderPublic, senderPrivate) = x_GenerateKey x seed
        in res_bind (index padding 0) (\<lambda>p0.
           res_bind (slice padding 0 (1 + unat p0 mod paddingMaxBytes)) (\<lambda>padding.
             case SendTo master of
               None \<Rightarrow> Panic
             | Some peer \<Rightarrow>
                 let cipher = x_Seal x (padding @ plaintext) nonce peer senderPrivate
                 in res_bind (map_err PackFailed (Pack [senderPublic, nonce, cipher])) (\<lambda>pack.
                   Ok (v\<lparr>v_blob := pack_Blob pack\<rparr>)))))"

definition Decrypt :: "crypto \<Rightarrow> master_key \<Rightarrow> Value \<Rightarrow> (value_error, bytes) res" where
  "Decrypt x master v =
     res_bind (map_err PackFailed (Wrap (v_blob v))) (\<lambda>blob.
       if pack_Size blob \<noteq> 3 then Err (ElementCount (pack_Size blob))
       else res_bind (map_err PackFailed (pack_Element blob 0)) (\<lambda>e0.
            res_bind (map_err PackFailed (pack_Element blob 1)) (\<lambda>e1.
            res_bind (map_err PackFailed (pack_Element blob 2)) (\<lambda>cipher.
            res_bind (map_err MasterFailed (Unbox x master cipher (copy_array 32 e0) (copy_array 24 e1))) (\<lambda>plaintext.
            res_bind (index plaintext 0) (\<lambda>p0.
              slice plaintext (1 + unat p0 mod paddingMaxBytes) (length plaintext)))))))"

section \<open>The file format (serialize.go)\<close>

definition fieldColumnWidth :: nat where "fieldColumnWidth = 7"
definition blobDelimiter :: string where "blobDelimiter = ''---''"
definition blobLineWidth :: nat where "blobLineWidth = 72"

definition value_record :: "string \<Rightarrow> string \<Rightarrow> string" where
  "value_record key val =
     (if length val > 0
      then println (pad_right (CHR '' '') fieldColumnWidth key @ '' '' @ TrimRight val [newline, CHR 0x0D])
      else println key)"

function chop :: "nat \<Rightarrow> string \<Rightarrow> string list" where
  "chop w s = (if s = [] \<or> w = 0 then [] else take w s # chop w (drop w s))"
  by pat_completeness auto
termination by (relation "measure (\<lambda>(w, s). length s)") auto

declare chop.simps [simp del]

definition writeBlob64 :: "bytes \<Rightarrow> string" where
  "writeBlob64 data = concat (map println (chop blobLineWidth (b64_encode data)))"

definition Serialize :: "crypto \<Rightarrow> Value \<Rightarrow> (value_error, string) res" where
  "Serialize x v =
     res_bind (map_err SerializeUnverified (value_Verify x v)) (\<lambda>_.
       case v_Signer v of
         None \<Rightarrow> Panic
       | Some key \<Rightarrow>
           let buf = value_record fileHeader [] @ concat (map (value_record ''Path'') (v_Path v)) @
                 value_record ''Created'' (Format_RFC3339 (v_Created v)) @
                 value_record ''Expires'' (Format_RFC3339 (v_Expires v)) @
                 value_record ''Signer'' (x_Fingerprint x key @ '' ('' @ key_Type key @ '')'') @
                 value_record blobDelimiter []
           in res_bind (map_err PackFailed (Pack [x_MarshalAuthorizedKey x key, v_signature v, v_blob v])) (\<lambda>pack.
                Ok (buf @ writeBlob64 (pack_Blob pack))))"

text \<open>The zero \<open>time.Time\<close> is the beginning of the year 1.\<close>

definition zero_time :: int where "zero_time = - 62135596800"

record parser =
  ps_blob :: string
  ps_fp :: string
  ps_lineNo :: nat
  ps_next :: Value
  ps_reading :: bool

definition parse_begin :: parser where
  "parse_begin =
     \<lparr>ps_blob = [], ps_fp = [], ps_lineNo = 0,
      ps_next = \<lparr>v_Path = [], v_Created = zero_time, v_Expires = zero_time, v_Signer = None, v_blob = [], v_signature = []\<rparr>,
      ps_reading = False\<rparr>"

definition parse_time :: "nat \<Rightarrow> string \<Rightarrow> (value_error, int) res" where
  "parse_time lineNo s = (case Parse_RFC3339 s of None \<Rightarrow> Err (InvalidTimestamp lineNo) | Some t \<Rightarrow> Ok t)"

definition blanks :: string where "blanks = [CHR '' '', CHR 0x09]"

definition parse_line :: "string \<Rightarrow> parser \<Rightarrow> (value_error, parser) res" where
  "parse_line text ps =
     (let line = TrimLeft text blanks;
          (field, val, ok) = Cut line (CHR '' '');
          val = (if ok then TrimLeft val blanks else val);
          ps = ps\<lparr>ps_lineNo := ps_lineNo ps + 1\<rparr>;
          next = ps_next ps
      in if line = [] \<or> HasPrefix line ''#'' then Ok ps
         else if line = blobDelimiter then Ok (ps\<lparr>ps_reading := \<not> ps_reading ps\<rparr>)
         else if ps_reading ps then Ok (ps\<lparr>ps_blob := ps_blob ps @ line\<rparr>)
         else if \<not> ok then Err (NoFieldName (ps_lineNo ps))
         else if field = ''Path'' then Ok (ps\<lparr>ps_next := next\<lparr>v_Path := v_Path next @ [val]\<rparr>\<rparr>)
         else if field = ''Created'' then
           res_bind (parse_time (ps_lineNo ps) val) (\<lambda>t. Ok (ps\<lparr>ps_next := next\<lparr>v_Created := t\<rparr>\<rparr>))
         else if field = ''Expires'' then
           res_bind (parse_time (ps_lineNo ps) val) (\<lambda>t. Ok (ps\<lparr>ps_next := next\<lparr>v_Expires := t\<rparr>\<rparr>))
         else if field = ''Signer'' then Ok (ps\<lparr>ps_fp := fst (Cut val (CHR '' ''))\<rparr>)
         else Err (InvalidField (ps_lineNo ps) field))"

text \<open>After the last line: the blob is decoded and unpacked, and the value is verified.\<close>

definition parse_end :: "crypto \<Rightarrow> parser \<Rightarrow> (value_error, Value) res" where
  "parse_end x ps =
     (case b64_decode (ps_blob ps) of
        None \<Rightarrow> Err BlobNotBase64
      | Some blob \<Rightarrow>
          res_bind (map_err UnpackFailed (Wrap blob)) (\<lambda>pack.
            if pack_Size pack \<noteq> 3 then Err (ElementCount (pack_Size pack))
            else res_bind (map_err PackFailed (pack_Element pack 0)) (\<lambda>e0.
              case x_ParseAuthorizedKey x e0 of
                None \<Rightarrow> Err InvalidSigner
              | Some (key, _) \<Rightarrow>
                  if ps_fp ps \<noteq> x_Fingerprint x key then Err (FingerprintMismatch (ps_fp ps))
                  else res_bind (map_err PackFailed (pack_Element pack 1)) (\<lambda>e1.
                       res_bind (map_err PackFailed (pack_Element pack 2)) (\<lambda>e2.
                         let v = (ps_next ps)\<lparr>v_Signer := Some key, v_signature := e1, v_blob := e2\<rparr>
                         in res_bind (value_Verify x v) (\<lambda>_. Ok v))))))"

definition Deserialize :: "crypto \<Rightarrow> string \<Rightarrow> (value_error, Value) res" where
  "Deserialize x input =
     (let (lines, too_long) = scan_lines input
      in case lines of
           [] \<Rightarrow> Err EmptyInput
         | first # rest \<Rightarrow>
             if first \<noteq> fileHeader then Err (UnexpectedHeader first)
             else res_bind (each parse_line rest parse_begin) (\<lambda>ps.
               if too_long then Err LineTooLong else parse_end x ps))"

text \<open>\<open>Load\<close> a value from a file\<close>

definition value_Load :: "crypto \<Rightarrow> fs \<Rightarrow> string \<Rightarrow> (os_error + value_error, Value) res" where
  "value_Load x fs path =
     res_bind (map_err Inl (ReadFile path fs)) (\<lambda>raw. map_err Inr (Deserialize x (string_of raw)))"
section \<open>Packs of three elements\<close>

lemma Pack_three:
  assumes "packable [a, b, c]"
  obtains p where "Pack [a, b, c] = Ok p" "Wrap (pack_Blob p) = Ok p" "pack_Size p = 3"
    "pack_Element p 0 = Ok a" "pack_Element p 1 = Ok b" "pack_Element p 2 = Ok c"
proof -
  obtain p where p: "Wrap (pack_format [a, b, c]) = Ok p" "bp_data p = pack_format [a, b, c]" "pack_Unpack p = Ok [a, b, c]"
    using Wrap_format [OF assms] by blast
  from p(3) have l: "length (bp_offset p) = 3" and e: "\<forall>i < 3. pack_Element p i = Ok ([a, b, c] ! i)"
    by (auto simp: pack_Unpack_def collect_eq_Ok)
  show thesis
  proof (rule that)
    show "Pack [a, b, c] = Ok p" using p(1) by (simp add: Pack_eq)
    show "Wrap (pack_Blob p) = Ok p" using p(1,2) by (simp add: pack_Blob_def)
  qed (use l e in \<open>simp_all add: pack_Size_def\<close>)
qed

section \<open>Encryption round trip\<close>

lemma Decrypt_Encrypt:
  assumes x: "box_law x" and k: "NewKey x sg c = Ok key" and n: "length nonce = 24"
    and p: "length padding = 1 + paddingMaxBytes" and s: "length plaintext \<le> MaxValueBytes"
  shows "\<exists>v'. Encrypt x nonce seed padding c plaintext v = Ok v' \<and> Decrypt x key v' = Ok plaintext \<and>
    v_Path v' = v_Path v \<and> v_Created v' = v_Created v \<and> v_Expires v' = v_Expires v \<and>
    length (v_blob v') \<le> length plaintext + 200"
proof -
  obtain priv where key: "boxKey x (mk_signer key) (mk_seed key) = Ok (x_ScalarBaseMult x priv, priv)"
    "SendTo c = Some (x_ScalarBaseMult x priv)" using NewKey_Ok [OF k] by metis
  obtain pub sec where g: "x_GenerateKey x seed = (pub, sec)" by fastforce
  define m where "m = 1 + unat (padding ! 0) mod paddingMaxBytes"
  define pad where "pad = take m padding"
  have m: "m \<le> length padding" "1 \<le> m" using p by (simp_all add: m_def paddingMaxBytes_def less_imp_le_nat Suc_leI)
  then have pad: "length pad = m" "pad ! 0 = padding ! 0" by (simp_all add: pad_def)
  have sl: "slice padding 0 (Suc (unat (padding ! 0) mod paddingMaxBytes)) = Ok pad"
    using m(1) by (simp add: m_def pad_def)
  define cipher where "cipher = x_Seal x (pad @ plaintext) nonce (x_ScalarBaseMult x priv) sec"
  have op: "x_Open x cipher nonce pub priv = Some (pad @ plaintext)" "length pub = 32"
    "length cipher = m + length plaintext + 16"
    using x g pad by (auto simp: box_law_def cipher_def) (metis fst_conv snd_conv)+
  have "m \<le> 65" using m(1) p by (simp add: paddingMaxBytes_def)
  then have "packable [pub, nonce, cipher]"
    using op n s by (simp add: packable_def valid_rune_def MaxRune_def MaxValueBytes_def)
  then obtain pk where pk: "Pack [pub, nonce, cipher] = Ok pk" "Wrap (pack_Blob pk) = Ok pk" "pack_Size pk = 3"
    "pack_Element pk 0 = Ok pub" "pack_Element pk 1 = Ok nonce" "pack_Element pk 2 = Ok cipher" by (rule Pack_three)
  have "Encrypt x nonce seed padding c plaintext v = Ok (v\<lparr>v_blob := pack_Blob pk\<rparr>)"
    using s p m pk(1) key(2) sl by (simp add: Encrypt_def g index_def cipher_def)
  moreover have "Decrypt x key (v\<lparr>v_blob := pack_Blob pk\<rparr>) = Ok plaintext"
  proof -
    have "Suc (unat (padding ! 0) mod paddingMaxBytes) = length pad" using pad by (simp add: m_def)
    moreover have "0 < length pad" using pad m by simp
    ultimately show ?thesis
      using pk op n pad(2) by (simp add: Decrypt_def Unbox_def key(1) index_def slice_def nth_append)
  qed
  moreover have "length (pack_Blob pk) \<le> length plaintext + 200"
  proof -
    have "length (pack_Blob pk) \<le> Pack_ceil [pub, nonce, cipher]"
      using pk(1) length_pack_format [of "[pub, nonce, cipher]"] by (auto simp: Pack_eq Wrap_eq_Ok pack_Blob_def)
    then show ?thesis using op n \<open>m \<le> 65\<close> by (simp add: Pack_ceil_def UTFMax_def)
  qed
  ultimately show ?thesis by simp
qed

section \<open>Signatures\<close>

text \<open>The contract of an ssh signer: what it signs verifies under its public key.\<close>

definition signer_law :: "crypto \<Rightarrow> signer \<Rightarrow> bool" where
  "signer_law x sg \<longleftrightarrow> (\<forall>r d f b. sg_Sign sg r d = Ok (f, b) \<longrightarrow> x_Verify x (sg_PublicKey sg) d (f, b))"

lemma length_bytesToSign [simp]: "length random = sigNonceBytes \<Longrightarrow> sigNonceBytes \<le> length (bytesToSign random [] v)"
  by (simp add: bytesToSign_def)

lemma bytesToSign_nonce:
  "length random = sigNonceBytes \<Longrightarrow> take sigNonceBytes (bytesToSign random [] v) = random"
  "length random = sigNonceBytes \<Longrightarrow> bytesToSign r random v = bytesToSign random [] v"
  by (simp_all add: bytesToSign_def sigNonceBytes_def)

lemma bytesToSign_cong:
  "v_Path v = v_Path w \<Longrightarrow> v_Created v = v_Created w \<Longrightarrow> v_Expires v = v_Expires w \<Longrightarrow> v_blob v = v_blob w \<Longrightarrow>
   bytesToSign r n v = bytesToSign r n w"
  by (simp add: bytesToSign_def)

lemma Verify_Sign:
  assumes "signer_law x sg" "length random = sigNonceBytes" "value_Sign random rnd sg v = Ok v'"
  shows "value_Verify x v' = Ok ()"
    and "v_Path v' = v_Path v" "v_Created v' = v_Created v" "v_Expires v' = v_Expires v" "v_blob v' = v_blob v"
    and "v_Signer v' = Some (sg_PublicKey sg)"
proof -
  from assms(3) obtain b where b: "sg_Sign sg (Entropy rnd) (bytesToSign random [] v) = Ok (expectedFormat (sg_PublicKey sg), b)"
    and v': "v' = v\<lparr>v_Signer := Some (sg_PublicKey sg), v_signature := random @ b\<rparr>"
    by (auto simp: value_Sign_def Let_def bytesToSign_nonce [OF assms(2)] split: res.splits if_splits)
  have c: "bytesToSign [] random v' = bytesToSign random [] v"
    unfolding v' bytesToSign_nonce(2) [OF assms(2)] by (rule bytesToSign_cong) simp_all
  have "x_Verify x (sg_PublicKey sg) (bytesToSign random [] v) (expectedFormat (sg_PublicKey sg), b)"
    using assms(1) b by (simp add: signer_law_def)
  then show "value_Verify x v' = Ok ()"
    using c assms(2) by (simp add: value_Verify_def v' slice_def sigNonceBytes_def)
qed (use assms(3) in \<open>auto simp: value_Sign_def Let_def split: res.splits if_splits\<close>)

section \<open>The text of a value\<close>

lemma chop_Nil [simp]: "chop w [] = []"
  by (simp add: chop.simps)

lemma concat_chop [simp]: "0 < w \<Longrightarrow> concat (chop w s) = s"
proof (induction w s rule: chop.induct)
  case (1 w s)
  then show ?case by (cases "s = []") (simp_all add: chop.simps [of w s])
qed

lemma chop_line: "l \<in> set (chop w s) \<Longrightarrow> l \<noteq> [] \<and> length l \<le> w \<and> set l \<subseteq> set s"
proof (induction w s rule: chop.induct)
  case (1 w s)
  show ?case
  proof (cases "s = [] \<or> w = 0")
    case False
    then have "l = take w s \<or> l \<in> set (chop w (drop w s))" using 1(2) by (simp add: chop.simps [of w s])
    with 1(1) [OF False] False show ?thesis by (auto dest: in_set_takeD in_set_dropD)
  qed (use 1 in \<open>simp add: chop.simps [of w s]\<close>)
qed

text \<open>Text that survives being written as the value of a field.\<close>

definition field_ok :: "string \<Rightarrow> bool" where
  "field_ok s \<longleftrightarrow> s \<noteq> [] \<and> hd s \<notin> set blanks \<and> last s \<noteq> CHR 0x0D \<and> newline \<notin> set s \<and> length s < 65000"

definition field_line :: "string \<Rightarrow> string \<Rightarrow> string" where
  "field_line key s = pad_right (CHR '' '') fieldColumnWidth key @ '' '' @ s"

lemma TrimRight_id: "s \<noteq> [] \<Longrightarrow> last s \<notin> set cs \<Longrightarrow> TrimRight s cs = s"
  by (cases s rule: rev_cases) (simp_all add: TrimRight_def)

lemma value_record_field: "field_ok s \<Longrightarrow> value_record key s = field_line key s @ [newline]"
proof -
  assume s: "field_ok s"
  then have "last s \<noteq> newline" by (metis field_ok_def last_in_set)
  with s have "TrimRight s [newline, CHR 0x0D] = s" by (intro TrimRight_id) (simp_all add: field_ok_def)
  with s show ?thesis by (simp add: value_record_def field_ok_def field_line_def println_def)
qed

lemma value_record_bare [simp]: "value_record key [] = key @ [newline]"
  by (simp add: value_record_def println_def)

lemma field_ok_last: "field_ok s \<Longrightarrow> last s \<noteq> CHR 0x0D"
  by (simp add: field_ok_def)

lemma line_ok_field:
  "field_ok s \<Longrightarrow> newline \<notin> set key \<Longrightarrow> length key \<le> 100 \<Longrightarrow> line_ok (field_line key s)"
  by (auto simp: line_ok_def field_line_def field_ok_def pad_right_def fieldColumnWidth_def MaxScanTokenSize_def newline_def)

lemma TrimLeft_id: "s = [] \<or> hd s \<notin> set cs \<Longrightarrow> TrimLeft s cs = s"
  by (cases s) (simp_all add: TrimLeft_def)

lemma TrimLeft_blanks: "TrimLeft (replicate n (CHR '' '') @ s) blanks = TrimLeft s blanks"
  by (induction n) (simp_all add: TrimLeft_def blanks_def)

text \<open>What one line of a field does.\<close>

lemma parse_field_line:
  assumes s: "field_ok s" and key: "key \<noteq> []" "CHR '' '' \<notin> set key" "CHR 0x09 \<notin> set key" "hd key \<noteq> CHR ''#''"
      "length key \<le> fieldColumnWidth"
    and r: "\<not> ps_reading ps"
  shows "TrimLeft (field_line key s) blanks = field_line key s"
    "\<exists>t. Cut (field_line key s) (CHR '' '') = (key, t, True) \<and> TrimLeft t blanks = s"
    "field_line key s \<noteq> []" "\<not> prefix ''#'' (field_line key s)" "field_line key s \<noteq> blobDelimiter"
proof -
  let ?n = "fieldColumnWidth - length key"
  have f: "field_line key s = key @ replicate (Suc ?n) (CHR '' '') @ s"
    by (simp add: field_line_def pad_right_def replicate_append_same [symmetric])
  obtain c u where cu: "key = c # u" using key(1) by (cases key) simp_all
  then have fc: "field_line key s = c # u @ replicate (Suc ?n) (CHR '' '') @ s" using f by simp
  have h: "hd (field_line key s) \<notin> set blanks"
    unfolding fc using key(2,3) cu by (auto simp: blanks_def)
  then show "TrimLeft (field_line key s) blanks = field_line key s" by (simp add: TrimLeft_id)
  show "\<exists>t. Cut (field_line key s) (CHR '' '') = (key, t, True) \<and> TrimLeft t blanks = s"
    using key(2) s by (simp add: f TrimLeft_blanks TrimLeft_id field_ok_def)
  show "field_line key s \<noteq> []" unfolding fc by simp
  show "\<not> prefix ''#'' (field_line key s)" unfolding fc using key(4) cu by simp
  have "CHR '' '' \<in> set (field_line key s)" by (simp add: f)
  then show "field_line key s \<noteq> blobDelimiter" by (auto simp: blobDelimiter_def)
qed

lemmas field_keys = fieldColumnWidth_def

lemma parse_path:
  assumes "field_ok p" "\<not> ps_reading ps"
  shows "parse_line (field_line ''Path'' p) ps =
    Ok (ps\<lparr>ps_lineNo := ps_lineNo ps + 1, ps_next := (ps_next ps)\<lparr>v_Path := v_Path (ps_next ps) @ [p]\<rparr>\<rparr>)"
proof -
  note f = parse_field_line [of p "''Path''" ps, simplified field_keys, simplified, OF assms]
  obtain t where t: "Cut (field_line ''Path'' p) (CHR '' '') = (''Path'', t, True)" "TrimLeft t blanks = p" using f(2) by blast
  show ?thesis using f(1,3-5) t assms(2) by (simp add: parse_line_def Let_def)
qed

lemma parse_created:
  assumes "field_ok s" "\<not> ps_reading ps" "Parse_RFC3339 s = Some u"
  shows "parse_line (field_line ''Created'' s) ps =
    Ok (ps\<lparr>ps_lineNo := ps_lineNo ps + 1, ps_next := (ps_next ps)\<lparr>v_Created := u\<rparr>\<rparr>)"
proof -
  note f = parse_field_line [of s "''Created''" ps, simplified field_keys, simplified, OF assms(1,2)]
  obtain t where t: "Cut (field_line ''Created'' s) (CHR '' '') = (''Created'', t, True)" "TrimLeft t blanks = s" using f(2) by blast
  show ?thesis using f(1,3-5) t assms(2,3) by (simp add: parse_line_def parse_time_def Let_def)
qed

lemma parse_expires:
  assumes "field_ok s" "\<not> ps_reading ps" "Parse_RFC3339 s = Some u"
  shows "parse_line (field_line ''Expires'' s) ps =
    Ok (ps\<lparr>ps_lineNo := ps_lineNo ps + 1, ps_next := (ps_next ps)\<lparr>v_Expires := u\<rparr>\<rparr>)"
proof -
  note f = parse_field_line [of s "''Expires''" ps, simplified field_keys, simplified, OF assms(1,2)]
  obtain t where t: "Cut (field_line ''Expires'' s) (CHR '' '') = (''Expires'', t, True)" "TrimLeft t blanks = s" using f(2) by blast
  show ?thesis using f(1,3-5) t assms(2,3) by (simp add: parse_line_def parse_time_def Let_def)
qed

lemma parse_signer:
  assumes "field_ok (fp @ '' '' @ t)" "\<not> ps_reading ps" "CHR '' '' \<notin> set fp"
  shows "parse_line (field_line ''Signer'' (fp @ '' '' @ t)) ps = Ok (ps\<lparr>ps_lineNo := ps_lineNo ps + 1, ps_fp := fp\<rparr>)"
proof -
  note f = parse_field_line [of "fp @ '' '' @ t" "''Signer''" ps, simplified field_keys, simplified, OF assms(1,2) [simplified]]
  obtain u where u: "Cut (field_line ''Signer'' (fp @ '' '' @ t)) (CHR '' '') = (''Signer'', u, True)"
    "TrimLeft u blanks = fp @ '' '' @ t" using f(2) by auto
  show ?thesis using f(1,3-5) u assms(2,3) by (simp add: parse_line_def Let_def)
qed

lemma parse_delimiter:
  "parse_line blobDelimiter ps = Ok (ps\<lparr>ps_lineNo := ps_lineNo ps + 1, ps_reading := \<not> ps_reading ps\<rparr>)"
  by (simp add: parse_line_def blobDelimiter_def TrimLeft_def blanks_def Cut_def Let_def)

lemma parse_blob_line:
  assumes "l \<noteq> []" "\<forall>c \<in> set l. b64_plain c" "ps_reading ps"
  shows "parse_line l ps = Ok (ps\<lparr>ps_lineNo := ps_lineNo ps + 1, ps_blob := ps_blob ps @ l\<rparr>)"
proof -
  have h: "b64_plain (hd l)" using assms(1,2) by simp
  then have t: "TrimLeft l blanks = l" by (simp add: TrimLeft_id b64_plain_def blanks_def)
  have "\<not> prefix ''#'' l" using h assms(1) by (cases l) (auto simp: b64_plain_def)
  moreover have "l \<noteq> blobDelimiter" using h by (auto simp: b64_plain_def blobDelimiter_def)
  ultimately show ?thesis using t assms(1,3) by (cases "Cut l (CHR '' '')") (simp add: parse_line_def Let_def)
qed

lemma parse_paths:
  "\<forall>p \<in> set paths. field_ok p \<Longrightarrow> \<not> ps_reading ps \<Longrightarrow>
   \<exists>n. each parse_line (map (field_line ''Path'') paths) ps =
     Ok (ps\<lparr>ps_lineNo := n, ps_next := (ps_next ps)\<lparr>v_Path := v_Path (ps_next ps) @ paths\<rparr>\<rparr>)"
proof (induction paths arbitrary: ps)
  case (Cons p paths)
  let ?ps = "ps\<lparr>ps_lineNo := ps_lineNo ps + 1, ps_next := (ps_next ps)\<lparr>v_Path := v_Path (ps_next ps) @ [p]\<rparr>\<rparr>"
  obtain n where "each parse_line (map (field_line ''Path'') paths) ?ps =
     Ok (?ps\<lparr>ps_lineNo := n, ps_next := (ps_next ?ps)\<lparr>v_Path := v_Path (ps_next ?ps) @ paths\<rparr>\<rparr>)"
    using Cons.IH [of ?ps] Cons.prems by auto
  then show ?case using parse_path [of p ps] Cons.prems by (intro exI [of _ n]) simp
next
  case Nil
  have "ps = ps\<lparr>ps_lineNo := ps_lineNo ps\<rparr>" by simp
  then show ?case by (intro exI [of _ "ps_lineNo ps"]) simp
qed

lemma parse_blob:
  "\<forall>l \<in> set ls. l \<noteq> [] \<and> (\<forall>c \<in> set l. b64_plain c) \<Longrightarrow> ps_reading ps \<Longrightarrow>
   \<exists>n. each parse_line ls ps = Ok (ps\<lparr>ps_lineNo := n, ps_blob := ps_blob ps @ concat ls\<rparr>)"
proof (induction ls arbitrary: ps)
  case (Cons l ls)
  let ?ps = "ps\<lparr>ps_lineNo := ps_lineNo ps + 1, ps_blob := ps_blob ps @ l\<rparr>"
  obtain n where "each parse_line ls ?ps = Ok (?ps\<lparr>ps_lineNo := n, ps_blob := ps_blob ?ps @ concat ls\<rparr>)"
    using Cons.IH [of ?ps] Cons.prems by auto
  then show ?case using parse_blob_line [of l ps] Cons.prems by (intro exI [of _ n]) simp
next
  case Nil
  have "ps = ps\<lparr>ps_lineNo := ps_lineNo ps\<rparr>" by simp
  then show ?case by (intro exI [of _ "ps_lineNo ps"]) simp
qed

section \<open>Reading back what was written\<close>

text \<open>
  What the text format needs of a value: paths and the signer's description are single lines
  without leading blanks, the years have four digits, and the three parts of the blob can be packed.
\<close>

definition signer_field :: "crypto \<Rightarrow> pubkey \<Rightarrow> string" where
  "signer_field x key = x_Fingerprint x key @ '' ('' @ key_Type key @ '')''"

definition value_ok :: "crypto \<Rightarrow> pubkey \<Rightarrow> Value \<Rightarrow> bool" where
  "value_ok x key v \<longleftrightarrow> v_Signer v = Some key \<and> (\<forall>p \<in> set (v_Path v). field_ok p) \<and>
     year_ok (v_Created v) \<and> year_ok (v_Expires v) \<and> field_ok (signer_field x key) \<and>
     CHR '' '' \<notin> set (x_Fingerprint x key) \<and> packable [x_MarshalAuthorizedKey x key, v_signature v, v_blob v]"

text \<open>A key that is written in the authorized keys format is read back.\<close>

definition parse_law :: "crypto \<Rightarrow> pubkey \<Rightarrow> bool" where
  "parse_law x key \<longleftrightarrow> (\<exists>c. x_ParseAuthorizedKey x (x_MarshalAuthorizedKey x key) = Some (key, c))"

lemma field_ok_time: "year_ok t \<Longrightarrow> field_ok (Format_RFC3339 t)"
proof -
  assume ok: "year_ok t"
  obtain y m d where c: "civil (t div 86400 + unix_day) = (y, m, d)" by (metis prod_cases3)
  have y: "0 \<le> y" "y < 10000" using ok c by (simp_all add: year_ok_def)
  note dn = day_number_civil [OF c y(1)]
  define s where "s = nat (t mod 86400)"
  have "s < 86400" by (simp add: s_def nat_less_iff)
  then have h: "s div 3600 < 100" "s div 60 mod 60 < 100" "s mod 60 < 100" "m < 100"
    using dn(3) by (simp_all add: div_less_iff_less_mult)
  have dig: "digits ! k \<noteq> CHR 0x0D \<and> newline \<noteq> digits ! k \<and> digits ! k \<notin> set blanks" if "k < 10" for k
  proof -
    have "digit_val (digits ! k) = Some k" using that by simp
    moreover have "digit_val (CHR 0x0D) = None" "digit_val newline = None" "digit_val (CHR '' '') = None" "digit_val (CHR 0x09) = None"
      by (simp_all add: digit_val_def newline_def)
    ultimately show ?thesis unfolding blanks_def by (metis empty_iff insert_iff list.set option.distinct(1))
  qed
  have n: "nat y < 10000" "nat \<bar>y\<bar> = nat y" using y by simp_all
  define a where "a = nat y div 10 div 10 div 10"
  have a: "a < 10" using n by (simp add: a_def div_mult2_eq [symmetric] div_less_iff_less_mult)
  have yd: "year_digits y = [digits ! a, digits ! (nat y div 10 div 10 mod 10), digits ! (nat y div 10 mod 10), digits ! (nat y mod 10)]"
    using y format_nat_pad [OF n(1)] by (simp add: year_digits_def n(2) a_def)
  have f: "Format_RFC3339 t = year_digits y @ CHR ''-'' # two_digits m @ CHR ''-'' # two_digits d @ CHR ''T'' #
      two_digits (s div 3600) @ CHR '':'' # two_digits (s div 60 mod 60) @ CHR '':'' # two_digits (s mod 60) @ ''Z''"
    by (simp add: Format_RFC3339_def c s_def Let_def)
  have td: "newline \<notin> set (two_digits k) \<and> length (two_digits k) = 2" if "k < 100" for k
    using that dig [of "k div 10"] dig [of "k mod 10"] by (auto simp: two_digits_eq div_less_iff_less_mult)
  have nl: "newline \<noteq> CHR ''-''" "newline \<noteq> CHR ''T''" "newline \<noteq> CHR '':''" "newline \<noteq> CHR ''Z''" by (simp_all add: newline_def)
  show ?thesis
    unfolding field_ok_def f using td h dn(6) dig [of a] dig a nl by (simp add: yd)
qed

text \<open>The file as lines.\<close>

definition value_lines :: "crypto \<Rightarrow> pubkey \<Rightarrow> bytes \<Rightarrow> Value \<Rightarrow> string list" where
  "value_lines x key data v =
     [fileHeader] @ map (field_line ''Path'') (v_Path v) @
     [field_line ''Created'' (Format_RFC3339 (v_Created v)), field_line ''Expires'' (Format_RFC3339 (v_Expires v)),
      field_line ''Signer'' (signer_field x key), blobDelimiter] @
     chop blobLineWidth (b64_encode data)"

lemma concat_records:
  "\<forall>p \<in> set ps. field_ok p \<Longrightarrow> concat (map (value_record key) ps) = unlines (map (field_line key) ps)"
  by (induction ps) (simp_all add: value_record_field)

lemma concat_println: "concat (map println ls) = unlines ls"
  by (simp add: unlines_def println_def [abs_def])

lemma Serialize_lines:
  assumes "value_ok x key v" "value_Verify x v = Ok ()"
    "Pack [x_MarshalAuthorizedKey x key, v_signature v, v_blob v] = Ok pk"
  shows "Serialize x v = Ok (unlines (value_lines x key (pack_Blob pk) v))"
proof -
  have "field_ok (Format_RFC3339 (v_Created v))" "field_ok (Format_RFC3339 (v_Expires v))" "field_ok (signer_field x key)"
    using assms(1) by (simp_all add: value_ok_def field_ok_time)
  moreover from this(3) have "value_record ''Signer'' (x_Fingerprint x key @ '' ('' @ key_Type key @ '')'') =
      field_line ''Signer'' (signer_field x key) @ [newline]"
    unfolding signer_field_def by (rule value_record_field)
  ultimately show ?thesis
    using assms
    by (simp add: Serialize_def value_ok_def value_lines_def concat_records value_record_field unlines_append
        writeBlob64_def concat_println)
qed

lemma value_lines_ok:
  assumes "value_ok x key v" "l \<in> set (value_lines x key data v)"
  shows "line_ok l"
proof -
  have t: "field_ok (Format_RFC3339 (v_Created v))" "field_ok (Format_RFC3339 (v_Expires v))" "field_ok (signer_field x key)"
    using assms(1) by (simp_all add: value_ok_def field_ok_time)
  have nl: "newline \<notin> set ''Path''" "newline \<notin> set ''Created''" "newline \<notin> set ''Expires''" "newline \<notin> set ''Signer''"
    by (simp_all add: newline_def)
  consider "l = fileHeader" | p where "p \<in> set (v_Path v)" "l = field_line ''Path'' p"
    | "l = field_line ''Created'' (Format_RFC3339 (v_Created v))" | "l = field_line ''Expires'' (Format_RFC3339 (v_Expires v))"
    | "l = field_line ''Signer'' (signer_field x key)" | "l = blobDelimiter" | "l \<in> set (chop blobLineWidth (b64_encode data))"
    using assms(2) by (auto simp: value_lines_def)
  then show ?thesis
  proof cases
    case 7
    from chop_line [OF 7] have c: "length l \<le> 72" "\<forall>c \<in> set l. b64_plain c" "l \<noteq> []"
      using b64_encode_plain by (auto simp: blobLineWidth_def)
    then have "b64_plain (last l)" by simp
    with c show ?thesis by (auto simp: line_ok_def MaxScanTokenSize_def b64_plain_def)
  qed (use assms(1) t nl in \<open>auto simp: value_ok_def line_ok_field, auto simp: line_ok_def fileHeader_def blobDelimiter_def newline_def MaxScanTokenSize_def\<close>)
qed

lemma Deserialize_Serialize:
  assumes ok: "value_ok x key v" and ver: "value_Verify x v = Ok ()" and law: "parse_law x key"
  shows "\<exists>text. Serialize x v = Ok text \<and> Deserialize x text = Ok v"
proof -
  from ok have "packable [x_MarshalAuthorizedKey x key, v_signature v, v_blob v]" by (simp add: value_ok_def)
  then obtain pk where pk: "Pack [x_MarshalAuthorizedKey x key, v_signature v, v_blob v] = Ok pk"
    "Wrap (pack_Blob pk) = Ok pk" "pack_Size pk = 3" "pack_Element pk 0 = Ok (x_MarshalAuthorizedKey x key)"
    "pack_Element pk 1 = Ok (v_signature v)" "pack_Element pk 2 = Ok (v_blob v)" by (rule Pack_three)
  note ser = Serialize_lines [OF ok ver pk(1)]
  let ?blob = "chop blobLineWidth (b64_encode (pack_Blob pk))"
  let ?rest = "map (field_line ''Path'') (v_Path v) @
     [field_line ''Created'' (Format_RFC3339 (v_Created v)), field_line ''Expires'' (Format_RFC3339 (v_Expires v)),
      field_line ''Signer'' (signer_field x key), blobDelimiter] @ ?blob"
  have scan: "scan_lines (unlines (value_lines x key (pack_Blob pk) v)) = (fileHeader # ?rest, False)"
    using scan_unlines [of "value_lines x key (pack_Blob pk) v"] value_lines_ok [OF ok] by (simp add: value_lines_def)
  obtain n where paths: "each parse_line (map (field_line ''Path'') (v_Path v)) parse_begin =
      Ok (parse_begin\<lparr>ps_lineNo := n, ps_next := (ps_next parse_begin)\<lparr>v_Path := v_Path v\<rparr>\<rparr>)"
    using parse_paths [of "v_Path v" parse_begin] ok by (auto simp: value_ok_def parse_begin_def)
  let ?p1 = "parse_begin\<lparr>ps_lineNo := n, ps_next := (ps_next parse_begin)\<lparr>v_Path := v_Path v\<rparr>\<rparr>"
  let ?p2 = "?p1\<lparr>ps_lineNo := n + 4, ps_next := (ps_next ?p1)\<lparr>v_Created := v_Created v, v_Expires := v_Expires v\<rparr>,
    ps_fp := x_Fingerprint x key, ps_reading := True\<rparr>"
  have nr: "\<not> ps_reading parse_begin" by (simp add: parse_begin_def)
  have sf: "signer_field x key = x_Fingerprint x key @ '' '' @ ''('' @ key_Type key @ '')''" by (simp add: signer_field_def)
  have fields: "each parse_line [field_line ''Created'' (Format_RFC3339 (v_Created v)), field_line ''Expires'' (Format_RFC3339 (v_Expires v)),
      field_line ''Signer'' (signer_field x key), blobDelimiter] ?p1 = Ok ?p2"
    using ok nr field_ok_time Parse_Format_RFC3339 parse_signer [of "x_Fingerprint x key" "''('' @ key_Type key @ '')''"]
    by (simp add: value_ok_def parse_created parse_expires parse_delimiter sf)
  have "\<forall>l \<in> set ?blob. l \<noteq> [] \<and> (\<forall>c \<in> set l. b64_plain c)"
    using chop_line [of _ blobLineWidth] b64_encode_plain by blast
  then obtain k where blob: "each parse_line ?blob ?p2 = Ok (?p2\<lparr>ps_lineNo := k, ps_blob := b64_encode (pack_Blob pk)\<rparr>)"
    using parse_blob [of ?blob ?p2] by (auto simp: blobLineWidth_def parse_begin_def)
  let ?p3 = "?p2\<lparr>ps_lineNo := k, ps_blob := b64_encode (pack_Blob pk)\<rparr>"
  have loop: "each parse_line ?rest parse_begin = Ok ?p3"
    unfolding each_append paths res_bind.simps fields by (rule blob)
  have v: "(ps_next ?p3)\<lparr>v_Signer := Some key, v_signature := v_signature v, v_blob := v_blob v\<rparr> = v"
    using ok by (cases v) (simp add: value_ok_def parse_begin_def)
  obtain c where pl: "x_ParseAuthorizedKey x (x_MarshalAuthorizedKey x key) = Some (key, c)" using law by (auto simp: parse_law_def)
  have "parse_end x ?p3 = Ok v"
    using pk pl v ver by (simp add: parse_end_def Let_def)
  then have "Deserialize x (unlines (value_lines x key (pack_Blob pk) v)) = Ok v"
    unfolding Deserialize_def scan using loop by simp
  with ser show ?thesis by blast
qed

lemma Encrypt_Path: "Encrypt x nonce seed padding c plaintext v = Ok v' \<Longrightarrow> v_Path v' = v_Path v"
  by (auto simp: Encrypt_def Let_def split: if_splits option.splits prod.splits res.splits)

text \<open>
  What is asked of a key in ssh-agent: its signatures verify and are of ordinary size, its public
  key is read back as it was written, and its fingerprint fits into a line.
\<close>

definition signer_ok :: "crypto \<Rightarrow> signer \<Rightarrow> bool" where
  "signer_ok x sg \<longleftrightarrow> signer_law x sg \<and> parse_law x (sg_PublicKey sg) \<and>
     (\<forall>r d f b. sg_Sign sg r d = Ok (f, b) \<longrightarrow> length b < 0xD000) \<and>
     length (x_MarshalAuthorizedKey x (sg_PublicKey sg)) < 0xD000 \<and> field_ok (signer_field x (sg_PublicKey sg)) \<and>
     CHR '' '' \<notin> set (x_Fingerprint x (sg_PublicKey sg))"

lemma value_ok_Sign:
  assumes "signer_ok x sg" "length random = sigNonceBytes" "value_Sign random rnd sg v = Ok v'"
    and "\<forall>p \<in> set (v_Path v). field_ok p" "year_ok (v_Created v)" "year_ok (v_Expires v)" "length (v_blob v) < 0xD000"
  shows "value_ok x (sg_PublicKey sg) v'"
proof -
  have sl: "signer_law x sg" using assms(1) by (simp add: signer_ok_def)
  note s = Verify_Sign [OF sl assms(2,3)]
  have "length (v_signature v') < 0xD800"
    using assms(1,3) bytesToSign_nonce(1) [OF assms(2), of v] assms(2)
    by (fastforce simp: value_Sign_def signer_ok_def sigNonceBytes_def Let_def split: res.splits if_splits)
  then show ?thesis
    using assms s by (simp add: value_ok_def signer_ok_def packable_def valid_rune_def MaxRune_def)
qed

section \<open>Properties\<close>

text \<open>
  C6. What is encrypted for a master certificate is decrypted by the master key it belongs to: the
  key opens from the certificate that the signer made, and for every plaintext of at most
  \<open>MaxValueBytes\<close> bytes \<open>Encrypt\<close> succeeds and \<open>Decrypt\<close> returns that plaintext, whatever the
  random nonce, sender key and padding are.
\<close>

theorem secret_roundtrip:
  assumes "box_law x" "sign_cert_law x" "x_CheckCert x [masterTag] masterTag c"
    and "master_NewCertificate x seed now sg = Ok c"
    and "length nonce = 24" "length padding = 1 + paddingMaxBytes" "length plaintext \<le> MaxValueBytes"
  shows "\<exists>key v'. NewKey x sg c = Ok key \<and> Encrypt x nonce entropy padding c plaintext v = Ok v' \<and>
    Decrypt x key v' = Ok plaintext"
  using NewKey_NewCertificate [OF assms(1-4)] Decrypt_Encrypt [OF assms(1) _ assms(5-7)] by blast

definition demo_key :: pubkey where "demo_key = \<lparr>key_Type = ''ssh-ed25519'', key_Marshal = [1]\<rparr>"

definition demo_signer :: signer where
  "demo_signer = \<lparr>sg_PublicKey = demo_key, sg_Sign = (\<lambda>_ _. Ok (''ssh-ed25519'', [7]))\<rparr>"

definition demo_crypto :: crypto where
  "demo_crypto =
     \<lparr>x_Sum512 = (\<lambda>_. replicate 64 0), x_hkdf = (\<lambda>_ _ _. replicate 32 1), x_ScalarBaseMult = (\<lambda>_. replicate 32 2),
      x_GenerateKey = (\<lambda>_. (replicate 32 3, replicate 32 4)), x_Seal = (\<lambda>m _ _ _. replicate 16 0 @ m),
      x_Open = (\<lambda>c _ _ _. Some (drop 16 c)),
      x_SignCert = (\<lambda>sg c. Some (c\<lparr>cert_SignatureKey := Some (sg_PublicKey sg)\<rparr>)), x_CheckCert = (\<lambda>_ _ _. True),
      x_ParseAuthorizedKey = (\<lambda>_. Some (demo_key, None)), x_MarshalAuthorizedKey = (\<lambda>_. [1]), x_MarshalCert = (\<lambda>_. [2]),
      x_Verify = (\<lambda>_ _ s. s = (''ssh-ed25519'', [7])), x_Fingerprint = (\<lambda>_. ''SHA256:x'')\<rparr>"

definition demo_value :: Value where
  "demo_value =
     \<lparr>v_Path = [''/a/b''], v_Created = 946684800, v_Expires = 946684800, v_Signer = None, v_blob = [], v_signature = []\<rparr>"

lemma demo_laws: "box_law demo_crypto" "sign_cert_law demo_crypto" "signer_law demo_crypto demo_signer"
  "parse_law demo_crypto demo_key"
  by (simp_all add: box_law_def sign_cert_law_def signer_law_def parse_law_def demo_crypto_def demo_signer_def)

theorem secret_roundtrip_witness:
  "\<exists>c key v'. master_NewCertificate demo_crypto (replicate 256 0) 0 demo_signer = Ok c \<and>
    NewKey demo_crypto demo_signer c = Ok key \<and>
    Encrypt demo_crypto (replicate 24 0) [] (replicate 65 5) c [1, 2, 3] demo_value = Ok v' \<and>
    Decrypt demo_crypto key v' = Ok [1, 2, 3]"
proof -
  obtain c where c: "master_NewCertificate demo_crypto (replicate 256 0) 0 demo_signer = Ok c"
    by (simp add: master_NewCertificate_def boxKey_def sha512_Size_def demo_signer_def demo_crypto_def Let_def)
  have chk: "x_CheckCert demo_crypto [masterTag] masterTag c" by (simp add: demo_crypto_def)
  have "\<exists>key v'. NewKey demo_crypto demo_signer c = Ok key \<and>
      Encrypt demo_crypto (replicate 24 0) [] (replicate 65 5) c [1, 2, 3] demo_value = Ok v' \<and>
      Decrypt demo_crypto key v' = Ok [1, 2, 3]"
    by (rule secret_roundtrip [OF demo_laws(1,2) chk c]) (simp_all add: paddingMaxBytes_def MaxValueBytes_def)
  with c show ?thesis by blast
qed

text \<open>
  C7. A signed value survives its text file: whatever \<open>Sign\<close> produced, as long as its paths and the
  signer's description fit on a line, its years have four digits and its parts can be packed,
  \<open>Serialize\<close> accepts it and \<open>Deserialize\<close> of that text gives back the same value with the same
  valid signature.
\<close>

theorem value_file_roundtrip:
  assumes "signer_law x sg" "parse_law x (sg_PublicKey sg)" "length random = sigNonceBytes"
    and "value_Sign random rnd sg v = Ok v'" "value_ok x (sg_PublicKey sg) v'"
  shows "\<exists>text. Serialize x v' = Ok text \<and> Deserialize x text = Ok v' \<and> value_Verify x v' = Ok ()"
  using Deserialize_Serialize [OF assms(5) Verify_Sign(1) [OF assms(1,3,4)] assms(2)] Verify_Sign(1) [OF assms(1,3,4)]
  by blast

definition demo_signed :: Value where
  "demo_signed = demo_value\<lparr>v_Signer := Some demo_key, v_signature := replicate 64 0 @ [7]\<rparr>"

lemma demo_sign: "value_Sign (replicate 64 0) [] demo_signer demo_value = Ok demo_signed"
proof -
  have "take sigNonceBytes (bytesToSign (replicate 64 0) [] demo_value) = replicate 64 0"
    by (rule bytesToSign_nonce) (simp add: sigNonceBytes_def)
  then show ?thesis
    by (simp add: value_Sign_def demo_signer_def demo_key_def demo_signed_def expectedFormat_def sigFormat_def)
qed

lemma demo_year: "year_ok 946684800"
  by (rule year_okI) simp_all

lemma demo_value_ok: "value_ok demo_crypto demo_key demo_signed"
  by (simp add: value_ok_def demo_signed_def demo_value_def demo_year field_ok_def blanks_def newline_def signer_field_def
      demo_crypto_def demo_key_def packable_def valid_rune_def MaxRune_def)

theorem value_file_roundtrip_witness:
  "value_Sign (replicate 64 0) [] demo_signer demo_value = Ok demo_signed \<and>
   (\<exists>text. Serialize demo_crypto demo_signed = Ok text \<and> Deserialize demo_crypto text = Ok demo_signed \<and>
     value_Verify demo_crypto demo_signed = Ok ())"
proof -
  have k: "sg_PublicKey demo_signer = demo_key" by (simp add: demo_signer_def)
  have "\<exists>text. Serialize demo_crypto demo_signed = Ok text \<and> Deserialize demo_crypto text = Ok demo_signed \<and>
     value_Verify demo_crypto demo_signed = Ok ()"
    by (rule value_file_roundtrip [OF demo_laws(3) _ _ demo_sign]) (simp_all add: k demo_laws demo_value_ok sigNonceBytes_def)
  with demo_sign show ?thesis by blast
qed

end
