(* ===== verification/Repo.thy ===== *)
theory Repo
  imports Value
begin

text \<open>
  The repository of secrets on the file system (\<open>src/secrets/repo\<close>): creating and finding it, saving
  certificates and values, and searching for a secret.
\<close>

section \<open>The repository (root.go)\<close>

definition accessDir :: string where "accessDir = ''access''"
definition secretsDir :: string where "secretsDir = ''secrets''"
definition usersDir :: string where "usersDir = ''user''"
definition adminDir :: string where "adminDir = ''admin''"
definition masterFile :: string where "masterFile = ''master''"
definition ext :: string where "ext = ''.x''"
definition certExt :: string where "certExt = ''.cert''"
definition pubExt :: string where "pubExt = ''.pub''"

lemmas repo_names = accessDir_def secretsDir_def usersDir_def adminDir_def masterFile_def ext_def certExt_def pubExt_def

record repository =
  repo_root :: string

datatype repo_error =
    EmptyPath | NotRepository string | RepoOs os_error | RepoValue value_error | RepoCert access_error
  | OutsideRoot string | CannotSave | DirectoryNotEmpty string | NotFound

definition repo_String :: "repository \<Rightarrow> string" where
  "repo_String r = (if length (repo_root r) = 0 then ''<uninitialized>'' else repo_root r)"

definition is_dir :: "fs \<Rightarrow> string \<Rightarrow> bool" where
  "is_dir fs p \<longleftrightarrow> Stat fs p = Ok Directory"

definition is_root :: "fs \<Rightarrow> string \<Rightarrow> bool" where
  "is_root fs path \<longleftrightarrow>
     list_all (\<lambda>dir. is_dir fs (path_Join [path, dir])) [accessDir, secretsDir] \<and>
     is_ok (Stat fs (path_Join [path, accessDir, masterFile @ certExt])) \<and>
     \<not> is_dir fs (path_Join [path, accessDir, masterFile @ certExt])"

text \<open>The loop of \<open>findRoot\<close>, upwards from a directory; \<open>None\<close> when the fuel is used up.\<close>

fun findRoot_loop :: "nat \<Rightarrow> fs \<Rightarrow> string \<Rightarrow> string \<Rightarrow> (repo_error, string) res option" where
  "findRoot_loop 0 fs orig path = None"
| "findRoot_loop (Suc fuel) fs orig path =
     (if length path = 0 then Some (Err EmptyPath)
      else if last path = CHR ''/'' then Some (Err (NotRepository orig))
      else if is_root fs path then Some (Ok path)
      else findRoot_loop fuel fs orig (path_Dir path))"

definition findRoot :: "nat \<Rightarrow> string \<Rightarrow> fs \<Rightarrow> string \<Rightarrow> (repo_error, string) res option" where
  "findRoot fuel cwd fs path = findRoot_loop fuel fs (path_Abs cwd path) (path_Abs cwd path)"

definition repo_Open :: "nat \<Rightarrow> string \<Rightarrow> fs \<Rightarrow> string \<Rightarrow> (repo_error, repository) res option" where
  "repo_Open fuel cwd fs path =
     map_option (\<lambda>r. res_bind r (\<lambda>root. Ok \<lparr>repo_root = root\<rparr>)) (findRoot fuel cwd fs path)"

definition MasterCert :: "repository \<Rightarrow> string" where
  "MasterCert r = (if repo_root r = [] then [] else path_Join [repo_root r, accessDir, masterFile @ certExt])"

definition listCerts :: "fs \<Rightarrow> string \<Rightarrow> repository \<Rightarrow> string list" where
  "listCerts fs subdir r =
     (if repo_root r = [] then []
      else let directory = path_Join [repo_root r, accessDir, subdir]
        in case ReadDir directory fs of
             Ok files \<Rightarrow> map (\<lambda>f. path_Join [directory, f]) (filter (\<lambda>f. HasSuffix f certExt) files)
           | _ \<Rightarrow> [])"

definition UserCerts :: "fs \<Rightarrow> repository \<Rightarrow> string list" where
  "UserCerts fs r = listCerts fs usersDir r"

definition AdminCerts :: "fs \<Rightarrow> repository \<Rightarrow> string list" where
  "AdminCerts fs r = listCerts fs adminDir r"

section \<open>Saving (save.go)\<close>

text \<open>Every operation returns the file system it leaves behind, also when it fails.\<close>

type_synonym 'a saved = "fs \<times> (repo_error, 'a) res"

definition os_step :: "(os_error, fs) res \<Rightarrow> fs \<Rightarrow> (fs \<Rightarrow> 'a saved) \<Rightarrow> 'a saved" where
  "os_step r fs k = (case r of Ok fs' \<Rightarrow> k fs' | Err e \<Rightarrow> (fs, Err (RepoOs e)) | Panic \<Rightarrow> (fs, Panic))"

fun save_paths :: "string \<Rightarrow> bytes \<Rightarrow> string list \<Rightarrow> string \<Rightarrow> fs \<Rightarrow> string saved" where
  "save_paths root data [] path fs = (fs, Ok path)"
| "save_paths root data (p # ps) path fs =
     (let path = path_Join [root, secretsDir, p @ ext]
      in if \<not> HasPrefix path (root @ ''/'') then (fs, Err (OutsideRoot path))
         else os_step (MkdirAll (path_Dir path) fs) fs (\<lambda>fs.
              os_step (WriteFile path data fs) fs (save_paths root data ps path)))"

definition saveValue :: "crypto \<Rightarrow> repository \<Rightarrow> Value \<Rightarrow> fs \<Rightarrow> string saved" where
  "saveValue x r v fs =
     (case Serialize x v of
        Panic \<Rightarrow> (fs, Panic)
      | Err e \<Rightarrow> (fs, Err (RepoValue e))
      | Ok text \<Rightarrow> save_paths (repo_root r) (bytes_of text) (v_Path v) [] fs)"

definition cert_base :: nat where "cert_base = 36"

definition cert_path :: "string \<Rightarrow> int \<Rightarrow> string" where
  "cert_path pre sfx = pre @ ''.'' @ pad_left (CHR ''0'') 2 (FormatInt sfx cert_base) @ certExt"

text \<open>The number after which the search for a free name starts: that of the last existing certificate.\<close>

definition last_suffix :: "string \<Rightarrow> string list \<Rightarrow> int" where
  "last_suffix pre existing =
     (if existing = [] then 0
      else let name = last (sort existing);
               name = TrimPrefix name (pre @ ''.'');
               name = TrimSuffix name certExt
        in case ParseInt name cert_base of None \<Rightarrow> 0 | Some n \<Rightarrow> n)"

fun free_name :: "nat \<Rightarrow> fs \<Rightarrow> string \<Rightarrow> int \<Rightarrow> (repo_error, string) res option" where
  "free_name 0 fs pre sfx = None"
| "free_name (Suc fuel) fs pre sfx =
     (let sfx = int64 (sfx + 1); path = cert_path pre sfx
      in case Stat fs path of
           Err ErrNotExist \<Rightarrow> Some (Ok path)
         | Err e \<Rightarrow> Some (Err (RepoOs e))
         | Panic \<Rightarrow> Some Panic
         | Ok _ \<Rightarrow> free_name fuel fs pre sfx)"

text \<open>
  \<open>glob\<close> is what \<open>filepath.Glob\<close> returns for a pattern, \<open>marshal\<close> is \<open>ssh.MarshalAuthorizedKey\<close> of a
  certificate.
\<close>

definition cert_prefix :: "repository \<Rightarrow> cert \<Rightarrow> string" where
  "cert_prefix r c = path_Join [repo_root r, accessDir, if cert_Admin c then adminDir else usersDir, KeyId c]"

definition saveCert ::
    "nat \<Rightarrow> (string list \<Rightarrow> string \<Rightarrow> cert \<Rightarrow> bool) \<Rightarrow> (string \<Rightarrow> string list) \<Rightarrow> (cert \<Rightarrow> bytes) \<Rightarrow> repository \<Rightarrow> cert \<Rightarrow>
     fs \<Rightarrow> string saved option" where
  "saveCert fuel check_cert glob marshal r c fs =
     (case cert_Validate check_cert c of
        Panic \<Rightarrow> Some (fs, Panic)
      | Err e \<Rightarrow> Some (fs, Err (RepoCert e))
      | Ok _ \<Rightarrow>
          let pre = cert_prefix r c
          in map_option (\<lambda>found. case found of
                 Ok path \<Rightarrow> os_step (WriteFile path (marshal c) fs) fs (\<lambda>fs. (fs, Ok path))
               | Err e \<Rightarrow> (fs, Err e)
               | Panic \<Rightarrow> (fs, Panic))
             (free_name fuel fs pre (last_suffix pre (glob (pre @ ''*'' @ certExt)))))"

definition saveMaster :: "crypto \<Rightarrow> repository \<Rightarrow> mcert \<Rightarrow> fs \<Rightarrow> string saved" where
  "saveMaster x r c fs =
     os_step (WriteFile (path_Join [repo_root r, accessDir, masterFile @ pubExt]) (x_MarshalAuthorizedKey x (cert_Key c)) fs) fs (\<lambda>fs.
       let path = path_Join [repo_root r, accessDir, masterFile @ certExt]
       in os_step (WriteFile path (x_MarshalCert x c) fs) fs (\<lambda>fs. (fs, Ok path)))"

datatype object = Access_cert cert | Master_cert mcert | Secret Value | Other

definition Save ::
    "crypto \<Rightarrow> nat \<Rightarrow> (string list \<Rightarrow> string \<Rightarrow> cert \<Rightarrow> bool) \<Rightarrow> (string \<Rightarrow> string list) \<Rightarrow> (cert \<Rightarrow> bytes) \<Rightarrow> repository \<Rightarrow>
     object \<Rightarrow> fs \<Rightarrow> string saved option" where
  "Save x fuel check_cert glob marshal r obj fs =
     (case obj of
        Access_cert c \<Rightarrow> saveCert fuel check_cert glob marshal r c fs
      | Master_cert c \<Rightarrow> Some (saveMaster x r c fs)
      | Secret v \<Rightarrow> Some (saveValue x r v fs)
      | Other \<Rightarrow> Some (fs, Err CannotSave))"

section \<open>Creating a repository (create.go)\<close>

definition checkRepoEmpty :: "string \<Rightarrow> string \<Rightarrow> fs \<Rightarrow> (repo_error, unit) res" where
  "checkRepoEmpty cwd path fs =
     res_bind (map_err RepoOs (ReadDir (path_Abs cwd path) fs)) (\<lambda>items.
       if list_all (\<lambda>item. item = ''.git'' \<or> HasSuffix item ''.md'') items then Ok ()
       else Err (DirectoryNotEmpty (path_Abs cwd path)))"

fun make_dirs :: "string \<Rightarrow> string \<Rightarrow> string list \<Rightarrow> fs \<Rightarrow> unit saved" where
  "make_dirs cwd path [] fs = (fs, Ok ())"
| "make_dirs cwd path (subdir # ds) fs =
     os_step (Mkdir (path_Abs cwd (path_Join [path, subdir])) fs) fs (make_dirs cwd path ds)"

definition Create :: "crypto \<Rightarrow> string \<Rightarrow> string \<Rightarrow> mcert \<Rightarrow> fs \<Rightarrow> repository saved" where
  "Create x cwd path master fs =
     (case checkRepoEmpty cwd path fs of
        Err e \<Rightarrow> (fs, Err e)
      | Panic \<Rightarrow> (fs, Panic)
      | Ok _ \<Rightarrow>
          (case make_dirs cwd path
              [accessDir, secretsDir, path_Join [accessDir, usersDir], path_Join [accessDir, adminDir]] fs of
             (fs, Ok _) \<Rightarrow>
               let r = \<lparr>repo_root = path_Abs cwd path\<rparr>
               in (case saveMaster x r master fs of
                     (fs, Ok _) \<Rightarrow> (fs, Ok r)
                   | (fs, Err e) \<Rightarrow> (fs, Err e)
                   | (fs, Panic) \<Rightarrow> (fs, Panic))
           | (fs, Err e) \<Rightarrow> (fs, Err e)
           | (fs, Panic) \<Rightarrow> (fs, Panic)))"

section \<open>Searching (search.go)\<close>

definition secret_file :: "string \<Rightarrow> string \<Rightarrow> string \<Rightarrow> string" where
  "secret_file root dir what = path_Join [root, secretsDir, dir, what]"

text \<open>
  The inner loop of \<open>Search\<close>.  The search result is the path found so far with its level; the flag
  tells whether the outer loop is left as well.
\<close>

lemma path_Split_parts: "fst (path_Split p) @ snd (path_Split p) = p"
proof -
  have "rev (takeWhile (\<lambda>c. c \<noteq> CHR ''/'') (rev p)) = drop (length p - length (takeWhile (\<lambda>c. c \<noteq> CHR ''/'') (rev p))) p"
    by (metis append_eq_conv_conj diff_diff_cancel length_rev rev_rev_ident rev_take takeWhile_eq_take length_takeWhile_le)
  then show ?thesis by (simp add: path_Split_def Let_def)
qed

lemma path_Split_less: "2 * length (fst (path_Split p)) + (if snd (path_Split p) = [] then 0 else 1) < 2 * length p + 1"
  using arg_cong [OF path_Split_parts [of p], of length] by (cases "snd (path_Split p)") auto

function search_up ::
    "fs \<Rightarrow> string \<Rightarrow> string \<Rightarrow> string \<Rightarrow> string \<Rightarrow> nat \<Rightarrow> (string \<times> nat) option \<Rightarrow> (string \<times> nat) option \<times> bool" where
  "search_up fs root what dir tail level found =
     (if tail \<noteq> [] \<and> (case found of None \<Rightarrow> True | Some (_, foundLevel) \<Rightarrow> level < foundLevel)
      then let path = secret_file root dir what;
               hit = is_ok (Stat fs path);
               found = (if hit then Some (path, level) else found)
        in if hit \<and> level = 0 then (found, True)
           else search_up fs root what (fst (path_Split dir)) (snd (path_Split dir)) (level + 1) found
      else (found, False))"
  by pat_completeness auto
termination
  by (relation "measure (\<lambda>(fs, root, what, dir, tail, level, found). 2 * length dir + (if tail = [] then 0 else 1))")
    (simp_all add: path_Split_less [simplified] del: if_split)

declare search_up.simps [simp del]

fun search_dirs :: "fs \<Rightarrow> string \<Rightarrow> string \<Rightarrow> string list \<Rightarrow> (string \<times> nat) option \<Rightarrow> (string \<times> nat) option" where
  "search_dirs fs root what [] found = found"
| "search_dirs fs root what (dir # dirs) found =
     (case search_up fs root what (Clean dir) ''initial value'' 0 found of
        (found, True) \<Rightarrow> found
      | (found, False) \<Rightarrow> search_dirs fs root what dirs found)"

definition Search :: "crypto \<Rightarrow> fs \<Rightarrow> repository \<Rightarrow> string \<Rightarrow> string list \<Rightarrow> (repo_error, Value) res" where
  "Search x fs r what dirs =
     (if length what = 0 \<or> length dirs = 0 then Err NotFound
      else case search_dirs fs (repo_root r) (what @ ext) dirs None of
          None \<Rightarrow> Err NotFound
        | Some (found, _) \<Rightarrow>
            map_err (\<lambda>e. case e of Inl o1 \<Rightarrow> RepoOs o1 | Inr v \<Rightarrow> RepoValue v) (value_Load x fs found))"
section \<open>Where a search looks\<close>

definition stored :: "fs \<Rightarrow> string \<Rightarrow> string \<Rightarrow> string \<Rightarrow> bool" where
  "stored fs root what dir = is_ok (Stat fs (secret_file root dir what))"

definition parent_of :: "string \<Rightarrow> string" where
  "parent_of dir = fst (path_Split dir)"

definition in_parent :: "fs \<Rightarrow> string \<Rightarrow> string \<Rightarrow> string \<Rightarrow> bool" where
  "in_parent fs root what dir \<longleftrightarrow> snd (path_Split dir) \<noteq> [] \<and> stored fs root what (parent_of dir)"

text \<open>
  The reference: the first allowed directory that holds the secret, and if there is none the first
  whose parent holds it.
\<close>

definition search_spec :: "fs \<Rightarrow> string \<Rightarrow> string \<Rightarrow> string list \<Rightarrow> string option" where
  "search_spec fs root what dirs =
     (case find (stored fs root what) (map Clean dirs) of
        Some d \<Rightarrow> Some (secret_file root d what)
      | None \<Rightarrow> map_option (\<lambda>d. secret_file root (parent_of d) what) (find (in_parent fs root what) (map Clean dirs)))"

lemma path_Split_dir: "snd (path_Split (fst (path_Split p))) = []"
proof -
  let ?t = "takeWhile (\<lambda>c. c \<noteq> CHR ''/'') (rev p)"
  have "rev (fst (path_Split p)) = dropWhile (\<lambda>c. c \<noteq> CHR ''/'') (rev p)"
    using length_takeWhile_le [of "\<lambda>c. c \<noteq> CHR ''/''" "rev p"]
    by (simp add: path_Split_def Let_def rev_take dropWhile_eq_drop)
  then have "takeWhile (\<lambda>c. c \<noteq> CHR ''/'') (rev (fst (path_Split p))) = []"
    by (metis hd_dropWhile takeWhile_eq_Nil_iff)
  then show ?thesis by (simp add: path_Split_def Let_def)
qed

lemma search_up_stop: "search_up fs root what d [] level found = (found, False)"
  by (simp add: search_up.simps [of fs root what d "[]"])

lemma search_up_None:
  "search_up fs root what d ''initial value'' 0 None =
    (if stored fs root what d then (Some (secret_file root d what, 0), True)
     else if in_parent fs root what d then (Some (secret_file root (parent_of d) what, 1), False)
     else (None, False))"
proof (cases "stored fs root what d")
  case True
  then show ?thesis by (simp add: search_up.simps [of fs root what d "''initial value''"] stored_def)
next
  case False
  let ?d = "fst (path_Split d)" and ?t = "snd (path_Split d)"
  have "search_up fs root what d ''initial value'' 0 None = search_up fs root what ?d ?t 1 None"
    using False by (simp add: search_up.simps [of fs root what d "''initial value''"] stored_def)
  also have "\<dots> = (if in_parent fs root what d then (Some (secret_file root (parent_of d) what, 1), False) else (None, False))"
    by (cases "?t = []")
      (simp_all add: search_up_stop search_up.simps [of fs root what ?d ?t] path_Split_dir in_parent_def stored_def parent_of_def Let_def)
  finally show ?thesis using False by simp
qed

lemma search_up_parent:
  "search_up fs root what d ''initial value'' 0 (Some (p, Suc 0)) =
    (if stored fs root what d then (Some (secret_file root d what, 0), True) else (Some (p, Suc 0), False))"
proof (cases "stored fs root what d")
  case True
  then show ?thesis by (simp add: search_up.simps [of fs root what d "''initial value''"] stored_def)
next
  case False
  have "search_up fs root what d ''initial value'' 0 (Some (p, Suc 0)) =
      search_up fs root what (fst (path_Split d)) (snd (path_Split d)) 1 (Some (p, Suc 0))"
    using False by (simp add: search_up.simps [of fs root what d "''initial value''"] stored_def)
  also have "\<dots> = (Some (p, Suc 0), False)"
    by (simp add: search_up.simps [of fs root what "fst (path_Split d)"])
  finally show ?thesis using False by simp
qed

lemma search_dirs_parent:
  "search_dirs fs root what dirs (Some (p, Suc 0)) =
    (case find (stored fs root what) (map Clean dirs) of
       Some d \<Rightarrow> Some (secret_file root d what, 0) | None \<Rightarrow> Some (p, Suc 0))"
  by (induction dirs) (simp_all add: search_up_parent)

lemma search_dirs_spec: "map_option fst (search_dirs fs root what dirs None) = search_spec fs root what dirs"
proof (induction dirs)
  case (Cons d dirs)
  show ?case
  proof (cases "stored fs root what (Clean d) \<or> \<not> in_parent fs root what (Clean d)")
    case True
    with Cons show ?thesis
      by (cases "stored fs root what (Clean d)") (simp_all add: search_up_None search_spec_def split: option.split)
  next
    case False
    then show ?thesis
      by (simp add: search_up_None search_dirs_parent search_spec_def split: option.splits)
  qed
qed (simp add: search_spec_def)

definition load_found :: "crypto \<Rightarrow> fs \<Rightarrow> string \<Rightarrow> (repo_error, Value) res" where
  "load_found x fs found = map_err (\<lambda>e. case e of Inl o1 \<Rightarrow> RepoOs o1 | Inr v \<Rightarrow> RepoValue v) (value_Load x fs found)"

lemma Search_eq:
  "Search x fs r what dirs =
    (if what = [] then Err NotFound
     else case search_spec fs (repo_root r) (what @ ext) dirs of None \<Rightarrow> Err NotFound | Some p \<Rightarrow> load_found x fs p)"
proof (cases "dirs = []")
  case True
  then show ?thesis by (simp add: Search_def search_spec_def)
next
  case False
  then show ?thesis
    unfolding search_dirs_spec [symmetric]
    by (cases "search_dirs fs (repo_root r) (what @ ext) dirs None") (auto simp: Search_def load_found_def)
qed

section \<open>The files of secrets\<close>

definition repo_ok :: "string list \<Rightarrow> repository \<Rightarrow> bool" where
  "repo_ok rs r \<longleftrightarrow> rs \<noteq> [] \<and> (\<forall>c \<in> set rs. normal c) \<and> repo_root r = abs_path rs"

lemma normal_secrets [simp]: "normal secretsDir"
  by (simp add: normal_def secretsDir_def)

lemma normal_ext: "normal n \<Longrightarrow> normal (n @ ext)"
  by (auto simp: normal_def ext_def append_eq_Cons_conv)

lemma path_parts_names: "\<forall>e \<in> set es. normal e \<Longrightarrow> concat (map path_parts es) = es"
  by (induction es) (simp_all add: normal_def path_parts_normal)

lemma clean_parts_names:
  "\<forall>c \<in> set cs. normal c \<Longrightarrow> clean_parts True st (cs @ ds) = clean_parts True (rev cs @ st) ds"
  by (simp add: clean_parts_append clean_parts_normal)

lemma clean_parts_skip [simp]: "clean_parts True st ([] # cs) = clean_parts True st cs"
  by simp

declare clean_parts.simps(2) [simp del]

lemma Join_append_ext: "ds \<noteq> [] \<Longrightarrow> Join_with ''/'' ds @ e = Join_with ''/'' (butlast ds @ [last ds @ e])"
proof (induction ds rule: rev_induct)
  case (snoc d ds)
  show ?case by (cases "ds = []") (simp_all add: Join_with_snoc)
qed simp

lemma abs_path_ext: "abs_path (ds @ [n]) @ e = abs_path (ds @ [n @ e])"
  using Join_append_ext [of "ds @ [n]" e] by (simp add: abs_path_def)

lemma concat_parts_abs:
  "\<forall>c \<in> set ds. normal c \<Longrightarrow> clean_parts True st (path_parts (abs_path ds) @ cs) = clean_parts True (rev ds @ st) cs"
  by (simp add: path_parts_abs_path clean_parts_names)

lemma secret_file_resolved:
  assumes "repo_ok rs r" "\<forall>c \<in> set ds. normal c"
  shows "secret_file (repo_root r) (abs_path ds) what =
    abs_path (clean_parts True (rev (rs @ [secretsDir] @ ds)) (path_parts what))"
proof -
  have "secret_file (repo_root r) (abs_path ds) what =
      abs_path (clean_parts True (rev rs) (path_parts secretsDir @ path_parts (abs_path ds) @ path_parts what))"
    using assms(1) path_Join_abs [of rs "[secretsDir, abs_path ds, what]"]
    by (simp add: secret_file_def repo_ok_def del: path_Join.simps)
  also have "path_parts secretsDir = [secretsDir]" by (simp add: path_parts_normal secretsDir_def)
  finally show ?thesis
    using clean_parts_names [of "[secretsDir]" "rev rs"] concat_parts_abs [OF assms(2)] by simp
qed

lemma secret_file_abs:
  assumes "repo_ok rs r" "\<forall>c \<in> set ds. normal c" "normal n"
  shows "secret_file (repo_root r) (abs_path ds) (n @ ext) = abs_path (rs @ [secretsDir] @ ds @ [n @ ext])"
proof -
  have "path_parts (n @ ext) = [n @ ext]" using normal_ext [OF assms(3)] by (simp add: normal_def path_parts_normal)
  then show ?thesis
    using clean_parts_normal [of "[n @ ext]"] normal_ext [OF assms(3)] by (simp add: secret_file_resolved [OF assms(1,2)])
qed

text \<open>From a directory of depth \<open>n\<close>, the request \<open>../\<close> repeated \<open>n\<close> times leads to the top.\<close>

definition climb :: "string list \<Rightarrow> string list \<Rightarrow> string \<Rightarrow> string" where
  "climb ds es n = Join_with ''/'' (replicate (length ds) ''..'' @ es @ [n])"

lemma clean_parts_dotdot:
  "\<forall>c \<in> set ds. normal c \<Longrightarrow> clean_parts True (rev ds @ st) (replicate (length ds) ''..'' @ cs) = clean_parts True st cs"
proof (induction ds rule: rev_induct)
  case (snoc d ds)
  then have "d \<noteq> ''..''" by (auto simp: normal_def)
  with snoc show ?case by (simp add: clean_parts.simps)
qed simp

lemma secret_file_climb:
  assumes "repo_ok rs r" "\<forall>c \<in> set ds. normal c" "\<forall>c \<in> set es. normal c" "normal n"
  shows "secret_file (repo_root r) (abs_path ds) (climb ds es n @ ext) = abs_path (rs @ [secretsDir] @ es @ [n @ ext])"
proof -
  let ?es = "replicate (length ds) ''..'' @ es @ [n @ ext]"
  have c: "climb ds es n @ ext = Join_with ''/'' ?es"
    using Join_append_ext [of "replicate (length ds) ''..'' @ es @ [n]" ext] by (simp add: climb_def butlast_append)
  have "concat (map path_parts ?es) = ?es"
  proof -
    have "path_parts ''..'' = [''..'']" by (simp add: path_parts_normal)
    then have "concat (map path_parts (replicate (length ds) ''..'')) = replicate (length ds) ''..''"
      by (induction ds) simp_all
    moreover have "concat (map path_parts (es @ [n @ ext])) = es @ [n @ ext]"
      using assms(3) normal_ext [OF assms(4)] by (intro path_parts_names) auto
    ultimately show ?thesis by simp
  qed
  then have p: "path_parts (climb ds es n @ ext) = ?es" by (simp add: c path_parts_Join)
  show ?thesis
    using clean_parts_dotdot [OF assms(2), of "secretsDir # rev rs" "es @ [n @ ext]"] assms(3) normal_ext [OF assms(4)]
    by (simp add: secret_file_resolved [OF assms(1,2)] p clean_parts_normal)
qed

lemma Clean_abs_path [simp]: "\<forall>c \<in> set cs. normal c \<Longrightarrow> Clean (abs_path cs) = abs_path cs"
  by (simp add: Clean_abs)

text \<open>The readable paths of the access control list end with a slash.\<close>

lemma Clean_slash: "\<forall>c \<in> set cs. normal c \<Longrightarrow> Clean (abs_path cs @ ''/'') = abs_path cs"
proof -
  assume n: "\<forall>c \<in> set cs. normal c"
  have "path_parts (abs_path cs @ ''/'') = path_parts (abs_path cs) @ [[]]"
    unfolding path_parts_def by (simp add: Split_on_append)
  then show ?thesis using n by (simp add: Clean_abs clean_parts_append)
qed

section \<open>Saving a secret\<close>

lemma save_path:
  assumes "repo_ok rs r" "\<forall>c \<in> set ds. normal c" "normal n"
  shows "path_Join [repo_root r, secretsDir, abs_path (ds @ [n]) @ ext] = abs_path (rs @ [secretsDir] @ ds @ [n @ ext])"
proof -
  have sp: "path_parts secretsDir = [secretsDir]" by (simp add: path_parts_normal secretsDir_def)
  have "\<forall>c \<in> set (ds @ [n @ ext]). normal c" using assms(2) normal_ext [OF assms(3)] by auto
  then have "clean_parts True (rev rs) (path_parts secretsDir @ path_parts (abs_path (ds @ [n @ ext]))) =
      rs @ [secretsDir] @ ds @ [n @ ext]"
    using clean_parts_names [of "[secretsDir]" "rev rs" "path_parts (abs_path (ds @ [n @ ext]))"]
      concat_parts_abs [of "ds @ [n @ ext]" "secretsDir # rev rs" "[]"]
    by (simp add: sp)
  then show ?thesis
    using assms(1) path_Join_abs [of rs "[secretsDir, abs_path (ds @ [n @ ext])]"]
    by (simp add: repo_ok_def abs_path_ext del: path_Join.simps)
qed

lemma os_step_Ok: "os_step m fs k = (fs', Ok y) \<Longrightarrow> \<exists>fs1. m = Ok fs1 \<and> k fs1 = (fs', Ok y)"
  by (cases m) (simp_all add: os_step_def)

lemma saveValue_single:
  assumes r: "repo_ok rs r" and n: "\<forall>c \<in> set ds. normal c" "normal n"
    and v: "v_Path v = [abs_path (ds @ [n])]" "Serialize x v = Ok text"
    and s: "saveValue x r v fs = (fs', Ok path)"
  shows "path = abs_path (rs @ [secretsDir] @ ds @ [n @ ext])" "lookup fs' path = Some (File (bytes_of text))"
proof -
  have p: "path_Join [repo_root r, secretsDir, abs_path (ds @ [n]) @ ext] = abs_path (rs @ [secretsDir] @ ds @ [n @ ext])"
    by (rule save_path [OF r n])
  let ?p = "abs_path (rs @ [secretsDir] @ ds @ [n @ ext])"
  have sv: "saveValue x r v fs = save_paths (repo_root r) (bytes_of text) [abs_path (ds @ [n])] [] fs"
    by (simp add: saveValue_def v)
  have "prefix (repo_root r @ ''/'') ?p"
    using s unfolding sv save_paths.simps p by (simp add: Let_def split: if_splits)
  then have "os_step (MkdirAll (path_Dir ?p) fs) fs (\<lambda>fs. os_step (WriteFile ?p (bytes_of text) fs) fs (\<lambda>fs. (fs, Ok ?p))) = (fs', Ok path)"
    using s unfolding sv save_paths.simps p by (simp add: Let_def)
  then obtain fs1 where "os_step (WriteFile ?p (bytes_of text) fs1) fs1 (\<lambda>fs. (fs, Ok ?p)) = (fs', Ok path)"
    by (auto dest: os_step_Ok)
  then have w: "WriteFile ?p (bytes_of text) fs1 = Ok fs'" "path = ?p" by (auto dest: os_step_Ok)
  show "path = ?p" "lookup fs' path = Some (File (bytes_of text))"
    by (simp_all add: w(2) WriteFile_lookup [OF w(1)])
qed

section \<open>Saving a certificate\<close>

lemma int64_add [simp]: "int64 (int64 a + b) = int64 (a + b)"
proof -
  have "(int64 a + b + 2 ^ 63) mod 2 ^ 64 = (a + b + 2 ^ 63) mod 2 ^ 64"
    unfolding int64_def by (smt (verit, best) mod_add_left_eq mod_diff_left_eq)
  then show ?thesis by (simp add: int64_def)
qed

lemma int64_eq_iff: "int64 a = int64 b \<Longrightarrow> \<bar>a - b\<bar> < 2 ^ 64 \<Longrightarrow> a = b"
proof -
  assume "int64 a = int64 b" and l: "\<bar>a - b\<bar> < 2 ^ 64"
  then have "(a + 2 ^ 63) mod 2 ^ 64 = (b + 2 ^ 63) mod 2 ^ 64" by (simp add: int64_def)
  then have "2 ^ 64 dvd a + 2 ^ 63 - (b + 2 ^ 63)" by (rule mod_eq_dvd_iff [THEN iffD1])
  then have "2 ^ 64 dvd a - b" by simp
  then show "a = b" using l zdvd_not_zless [of "\<bar>a - b\<bar>" "2 ^ 64"] by (cases "a = b") auto
qed

lemma parse_digits_zeros: "2 \<le> b \<Longrightarrow> parse_digits b 0 (replicate k (CHR ''0'') @ s) = parse_digits b 0 s"
  by (induction k) (simp_all add: digit_val_def)

lemma padded_inj:
  assumes "pad_left (CHR ''0'') 2 (FormatInt i cert_base) = pad_left (CHR ''0'') 2 (FormatInt j cert_base)"
  shows "i = j"
proof -
  define p where "p i = pad_left (CHR ''0'') 2 (FormatInt i cert_base)" for i
  have b: "2 \<le> cert_base" "cert_base \<le> 36" by (simp_all add: cert_base_def)
  have pos: "parse_digits cert_base 0 (p i) = Some (nat i) \<and> hd (p i) \<noteq> CHR ''-''" if "0 \<le> i" for i
  proof -
    obtain k where p: "p i = replicate k (CHR ''0'') @ format_nat cert_base (nat i)"
      using \<open>0 \<le> i\<close> by (metis FormatInt_def not_less p_def pad_left_def)
    have "hd (p i) \<noteq> CHR ''-''" using format_nat_hd [OF b, of "nat i"] by (cases k) (simp_all add: p)
    then show ?thesis by (simp add: p parse_digits_zeros parse_format_nat b)
  qed
  have neg: "p i = FormatInt i cert_base \<and> hd (p i) = CHR ''-''" if "i < 0" for i
  proof -
    have "0 < length (format_nat cert_base (nat (- i)))" by simp
    then have "2 - length (FormatInt i cert_base) = 0" using that by (simp add: FormatInt_def Suc_leI)
    then show ?thesis using that by (simp add: p_def pad_left_def FormatInt_def)
  qed
  have eq: "p i = p j" using assms by (simp add: p_def)
  show ?thesis
  proof (cases "i < 0"; cases "j < 0")
    assume "i < 0" "j < 0"
    then show ?thesis using neg eq FormatInt_inj [OF b] by metis
  next
    assume "\<not> i < 0" "\<not> j < 0"
    then show ?thesis using pos [of i] pos [of j] eq by simp
  qed (use pos neg eq in \<open>metis not_less\<close>)+
qed

lemma cert_path_inj: "cert_path pre i = cert_path pre j \<Longrightarrow> i = j"
  by (simp add: cert_path_def padded_inj)

lemma cert_path_not_root: "cert_path pre i \<noteq> ''/''"
proof
  assume "cert_path pre i = ''/''"
  then have "length (cert_path pre i) = 1" by simp
  then show False by (simp add: cert_path_def certExt_def)
qed

lemma free_name_None:
  "free_name fuel fs pre s = None \<Longrightarrow> k < fuel \<Longrightarrow> lookup fs (cert_path pre (int64 (s + int k + 1))) \<noteq> None"
proof (induction fuel arbitrary: s k)
  case (Suc fuel)
  let ?p = "cert_path pre (int64 (s + 1))"
  from Suc.prems(1) obtain n where n: "Stat fs ?p = Ok n" and rest: "free_name fuel fs pre (int64 (s + 1)) = None"
    by (auto simp: Let_def split: res.splits os_error.splits)
  show ?case
  proof (cases k)
    case 0
    with n show ?thesis by simp
  next
    case (Suc j)
    have "int64 (int64 (s + 1) + int j + 1) = int64 (s + int k + 1)" using int64_add [of "s + 1" "int j + 1"] Suc by (simp add: algebra_simps)
    with Suc.IH [OF rest, of j] Suc.prems(2) Suc show ?thesis by simp
  qed
qed simp

lemma free_name_total:
  assumes "length fs < fuel" "fuel \<le> 2 ^ 63"
  shows "\<exists>res. free_name fuel fs pre s = Some res"
proof (rule ccontr)
  assume "\<not> (\<exists>res. free_name fuel fs pre s = Some res)"
  then have none: "free_name fuel fs pre s = None" by (cases "free_name fuel fs pre s") auto
  let ?f = "\<lambda>k. cert_path pre (int64 (s + int k + 1))"
  have inj: "inj_on ?f {..<fuel}"
  proof (rule inj_onI)
    fix a b
    assume ab: "a \<in> {..<fuel}" "b \<in> {..<fuel}" and "?f a = ?f b"
    then have "int64 (s + int a + 1) = int64 (s + int b + 1)" by (simp add: cert_path_inj)
    moreover have "\<bar>(s + int a + 1) - (s + int b + 1)\<bar> < 2 ^ 64" using ab assms(2) by simp
    ultimately have "s + int a + 1 = s + int b + 1" by (rule int64_eq_iff)
    then show "a = b" by simp
  qed
  have "?f ` {..<fuel} \<subseteq> fst ` set fs"
  proof
    fix p
    assume "p \<in> ?f ` {..<fuel}"
    then obtain k where "k < fuel" "p = ?f k" by auto
    then have "lookup fs p \<noteq> None" "p \<noteq> ''/''" using free_name_None [OF none] cert_path_not_root by simp_all
    then show "p \<in> fst ` set fs" by (auto simp: lookup_def dest!: map_of_SomeD) (force simp: image_iff)
  qed
  then have "card (?f ` {..<fuel}) \<le> card (fst ` set fs)" by (intro card_mono) simp_all
  also have "\<dots> \<le> length fs" by (metis card_image_le card_length le_trans List.finite_set)
  finally show False using assms(1) card_image [OF inj] by simp
qed

lemma free_name_Ok: "free_name fuel fs pre s = Some (Ok path) \<Longrightarrow> lookup fs path = None"
  by (induction fuel arbitrary: s) (auto simp: Let_def Stat_def split: res.splits os_error.splits option.splits if_splits)

lemma saveCert_total:
  assumes "length fs < 2 ^ 63"
  shows "\<exists>fs' res. saveCert (length fs + 1) check_cert glob marshal r c fs = Some (fs', res) \<and>
    (case res of
       Ok path \<Rightarrow> lookup fs path = None \<and> lookup fs' path = Some (File (marshal c)) \<and> (\<forall>q. q \<noteq> path \<longrightarrow> lookup fs' q = lookup fs q)
     | _ \<Rightarrow> fs' = fs)"
proof (cases "cert_Validate check_cert c")
  case (Ok u)
  define s where "s = last_suffix (cert_prefix r c) (glob (cert_prefix r c @ ''*'' @ certExt))"
  obtain res where res: "free_name (length fs + 1) fs (cert_prefix r c) s = Some res"
    using free_name_total [of fs "length fs + 1"] assms by fastforce
  have eq: "saveCert (length fs + 1) check_cert glob marshal r c fs = Some (case res of
      Ok path \<Rightarrow> os_step (WriteFile path (marshal c) fs) fs (\<lambda>fs. (fs, Ok path)) | Err e \<Rightarrow> (fs, Err e) | Panic \<Rightarrow> (fs, Panic))"
    unfolding saveCert_def Let_def Ok res.case s_def [symmetric] res by simp
  show ?thesis
  proof (cases res)
    case (Ok path)
    then have "lookup fs path = None" using free_name_Ok [OF res [unfolded Ok]] by simp
    then show ?thesis unfolding eq Ok
      by (cases "WriteFile path (marshal c) fs") (auto simp: os_step_def WriteFile_lookup)
  qed (unfold eq, simp_all)
qed (simp_all add: saveCert_def)

section \<open>Finding the repository\<close>

lemma last_abs_path: "\<forall>c \<in> set cs. normal c \<Longrightarrow> cs \<noteq> [] \<Longrightarrow> last (abs_path cs) \<noteq> CHR ''/''"
proof (cases cs rule: rev_cases)
  case (snoc ds d)
  assume "\<forall>c \<in> set cs. normal c"
  with snoc have "d \<noteq> []" "CHR ''/'' \<notin> set d" by (simp_all add: normal_def)
  then show ?thesis using snoc by (simp add: abs_path_snoc) (metis last_in_set)
qed simp

text \<open>With more fuel than the path has elements, the search ends with the nearest directory that is a repository.\<close>

lemma findRoot_loop_nearest:
  assumes "\<forall>c \<in> set cs. normal c" "length cs < fuel"
  shows "findRoot_loop fuel fs orig (abs_path cs) =
    Some (case find (is_root fs) (map (\<lambda>k. abs_path (take k cs)) (rev [1..<Suc (length cs)])) of
        None \<Rightarrow> Err (NotRepository orig) | Some root \<Rightarrow> Ok root)"
  using assms
proof (induction cs arbitrary: fuel rule: rev_induct)
  case Nil
  then show ?case by (cases fuel) (simp_all add: abs_path_def)
next
  case (snoc c cs)
  then obtain f where f: "fuel = Suc f" "length cs < f" by (cases fuel) auto
  have l: "last (abs_path (cs @ [c])) \<noteq> CHR ''/''" "length (abs_path (cs @ [c])) \<noteq> 0"
    using last_abs_path [of "cs @ [c]"] snoc.prems(1) by (simp_all add: abs_path_def)
  have d: "path_Dir (abs_path (cs @ [c])) = abs_path cs" using snoc.prems(1) by simp
  have m: "map (\<lambda>k. abs_path (take k (cs @ [c]))) (rev [1..<Suc (length cs)]) = map (\<lambda>k. abs_path (take k cs)) (rev [1..<Suc (length cs)])"
    by (intro map_cong) auto
  have "rev [1..<Suc (length (cs @ [c]))] = Suc (length cs) # rev [1..<Suc (length cs)]" by simp
  then have e: "map (\<lambda>k. abs_path (take k (cs @ [c]))) (rev [1..<Suc (length (cs @ [c]))]) =
      abs_path (cs @ [c]) # map (\<lambda>k. abs_path (take k cs)) (rev [1..<Suc (length cs)])"
    using m by (simp del: upt_Suc)
  show ?case
    unfolding f(1) findRoot_loop.simps(2) e using l d snoc.IH [of f] snoc.prems(1) f(2) by simp
qed

section \<open>Creating a repository\<close>

lemma path_Abs_dot: "\<forall>c \<in> set cs. normal c \<Longrightarrow> path_Abs (abs_path cs) ''.'' = abs_path cs"
proof -
  assume n: "\<forall>c \<in> set cs. normal c"
  have "path_parts ''.'' = [''.'']" by (simp add: path_parts_normal)
  moreover have "clean_parts True st [''.''] = rev st" for st by (simp add: clean_parts.simps)
  ultimately show ?thesis using path_Join_abs [OF n, of "[''.'']"] by (simp add: path_Abs_def IsAbs_def del: path_Join.simps)
qed

definition repo_dirs :: "string list list" where
  "repo_dirs = [[accessDir], [secretsDir], [accessDir, usersDir], [accessDir, adminDir]]"

lemma repo_dirs_relative:
  "map (\<lambda>s. path_Join [''.'', s]) [accessDir, secretsDir, path_Join [accessDir, usersDir], path_Join [accessDir, adminDir]] =
   map (Join_with ''/'') repo_dirs"
  by (simp add: repo_dirs_def repo_names Clean_def IsAbs_def path_parts_def clean_parts.simps)

lemma repo_dirs_abs:
  assumes "\<forall>c \<in> set cs. normal c" "ds \<in> set repo_dirs"
  shows "path_Abs (abs_path cs) (Join_with ''/'' ds) = abs_path (cs @ ds)"
proof -
  have n: "\<forall>d \<in> set ds. normal d" "ds \<noteq> []" using assms(2) by (auto simp: repo_dirs_def repo_names normal_def)
  have "\<not> IsAbs (Join_with ''/'' ds)" using assms(2) by (auto simp: repo_dirs_def repo_names IsAbs_def)
  moreover have "path_parts (Join_with ''/'' ds) = ds" by (simp add: path_parts_Join [OF n(2)] path_parts_names [OF n(1)])
  ultimately show ?thesis
    using path_Join_abs [OF assms(1), of "[Join_with ''/'' ds]"] n(1)
    by (simp add: path_Abs_def clean_parts_normal del: path_Join.simps)
qed

lemma Mkdir_lookup: "Mkdir p fs = Ok fs1 \<Longrightarrow> lookup fs1 q = (if q = p then Some Directory else lookup fs q)"
  by (auto simp: Mkdir_def lookup_def split: if_splits)

lemma make_dirs_step:
  "make_dirs cwd path (s # ss) fs = (fs', Ok u) \<Longrightarrow>
   \<exists>fs1. Mkdir (path_Abs cwd (path_Join [path, s])) fs = Ok fs1 \<and> make_dirs cwd path ss fs1 = (fs', Ok u)"
  unfolding make_dirs.simps by (rule os_step_Ok)

lemma make_dirs_keeps: "make_dirs cwd path ss fs = (fs', Ok u) \<Longrightarrow> lookup fs q = Some Directory \<Longrightarrow> lookup fs' q = Some Directory"
proof (induction ss arbitrary: fs)
  case (Cons s ss)
  from make_dirs_step [OF Cons.prems(1)] obtain fs1 where m: "Mkdir (path_Abs cwd (path_Join [path, s])) fs = Ok fs1"
    and rest: "make_dirs cwd path ss fs1 = (fs', Ok u)" by blast
  show ?case by (rule Cons.IH [OF rest]) (simp add: Mkdir_lookup [OF m] Cons.prems(2))
qed simp

lemma make_dirs_lookup:
  "make_dirs cwd path ss fs = (fs', Ok u) \<Longrightarrow> s \<in> set ss \<Longrightarrow> lookup fs' (path_Abs cwd (path_Join [path, s])) = Some Directory"
proof (induction ss arbitrary: fs)
  case (Cons t ss)
  from make_dirs_step [OF Cons.prems(1)] obtain fs1 where m: "Mkdir (path_Abs cwd (path_Join [path, t])) fs = Ok fs1"
    and rest: "make_dirs cwd path ss fs1 = (fs', Ok u)" by blast
  show ?case
  proof (cases "s = t")
    case True
    show ?thesis unfolding True by (rule make_dirs_keeps [OF rest]) (simp add: Mkdir_lookup [OF m])
  next
    case False
    then show ?thesis using Cons.IH [OF rest] Cons.prems(2) by simp
  qed
qed simp

lemma saveMaster_Ok:
  assumes "saveMaster x r c fs = (fs', Ok p)"
  shows "lookup fs' (path_Join [repo_root r, accessDir, masterFile @ certExt]) = Some (File (x_MarshalCert x c))"
    and "lookup fs q = Some Directory \<Longrightarrow> lookup fs' q = Some Directory"
proof -
  let ?pub = "path_Join [repo_root r, accessDir, masterFile @ pubExt]" and ?crt = "path_Join [repo_root r, accessDir, masterFile @ certExt]"
  obtain fs1 where w: "WriteFile ?pub (x_MarshalAuthorizedKey x (cert_Key c)) fs = Ok fs1" "WriteFile ?crt (x_MarshalCert x c) fs1 = Ok fs'"
    using assms by (auto simp: saveMaster_def Let_def simp del: path_Join.simps dest!: os_step_Ok)
  then show "lookup fs' ?crt = Some (File (x_MarshalCert x c))" by (simp add: WriteFile_lookup [OF w(2)])
  assume "lookup fs q = Some Directory"
  moreover have "lookup fs ?pub \<noteq> Some Directory" "lookup fs1 ?crt \<noteq> Some Directory" using w by (simp_all add: WriteFile_Ok)
  ultimately show "lookup fs' q = Some Directory"
    by (auto simp: WriteFile_lookup [OF w(2)] WriteFile_lookup [OF w(1)])
qed

lemma Create_here:
  assumes n: "\<forall>c \<in> set cs. normal c" and c: "Create x (abs_path cs) ''.'' master fs = (fs', Ok r)"
  shows "r = \<lparr>repo_root = abs_path cs\<rparr>" "is_root fs' (abs_path cs)"
    "lookup fs' (abs_path (cs @ [accessDir, masterFile @ certExt])) = Some (File (x_MarshalCert x master))"
proof -
  let ?cwd = "abs_path cs"
  let ?ss = "[accessDir, secretsDir, path_Join [accessDir, usersDir], path_Join [accessDir, adminDir]]"
  have r: "\<lparr>repo_root = path_Abs ?cwd ''.''\<rparr> = \<lparr>repo_root = ?cwd\<rparr>" by (simp add: path_Abs_dot [OF n])
  obtain fs1 p where m: "make_dirs ?cwd ''.'' ?ss fs = (fs1, Ok ())"
    and s: "saveMaster x \<lparr>repo_root = ?cwd\<rparr> master fs1 = (fs', Ok p)" and "r = \<lparr>repo_root = ?cwd\<rparr>"
    using c unfolding Create_def r
    by (auto simp: Let_def simp del: path_Join.simps make_dirs.simps split: res.splits prod.splits)
  then show "r = \<lparr>repo_root = ?cwd\<rparr>" by simp
  have d: "lookup fs1 (abs_path (cs @ ds)) = Some Directory" if ds: "ds \<in> set repo_dirs" for ds
  proof -
    have "Join_with ''/'' ds \<in> set (map (\<lambda>s. path_Join [''.'', s]) ?ss)"
      unfolding repo_dirs_relative using ds by simp
    then obtain s where "s \<in> set ?ss" "path_Join [''.'', s] = Join_with ''/'' ds" by (metis (no_types, lifting) imageE list.set_map)
    then show ?thesis using make_dirs_lookup [OF m] repo_dirs_abs [OF n ds] by metis
  qed
  have a: "lookup fs' (abs_path (cs @ [accessDir])) = Some Directory" "lookup fs' (abs_path (cs @ [secretsDir])) = Some Directory"
    using d [of "[accessDir]"] d [of "[secretsDir]"] saveMaster_Ok(2) [OF s] by (simp_all add: repo_dirs_def)
  have nn: "normal accessDir" "normal (masterFile @ certExt)" by (simp_all add: normal_def repo_names)
  have j: "path_Join [?cwd, accessDir] = abs_path (cs @ [accessDir])" "path_Join [?cwd, secretsDir] = abs_path (cs @ [secretsDir])"
    "path_Join [?cwd, accessDir, masterFile @ certExt] = abs_path (cs @ [accessDir, masterFile @ certExt])"
    using path_Join_names [OF n] nn by (simp_all del: path_Join.simps)
  show m: "lookup fs' (abs_path (cs @ [accessDir, masterFile @ certExt])) = Some (File (x_MarshalCert x master))"
    using saveMaster_Ok(1) [OF s] j(3) by (simp del: path_Join.simps)
  show "is_root fs' ?cwd"
    using a m by (simp add: is_root_def is_dir_def j is_ok_iff del: path_Join.simps)
qed

lemma saveValue_keeps_files:
  assumes r: "repo_ok rs r" and n: "\<forall>c \<in> set ds. normal c" "normal n"
    and v: "v_Path v = [abs_path (ds @ [n])]" "saveValue x r v fs = (fs', Ok path)"
    and q: "lookup fs q = Some (File d)" "q \<noteq> abs_path (rs @ [secretsDir] @ ds @ [n @ ext])"
  shows "lookup fs' q = Some (File d)"
proof -
  obtain tx where tx: "Serialize x v = Ok tx" using v(2) by (cases "Serialize x v") (simp_all add: saveValue_def)
  note p = saveValue_single(1) [OF r n v(1) tx v(2)]
  have sv: "saveValue x r v fs = save_paths (repo_root r) (bytes_of tx) [abs_path (ds @ [n])] [] fs"
    by (simp add: saveValue_def v tx)
  have "prefix (repo_root r @ ''/'') path"
    using v(2) unfolding sv save_paths.simps save_path [OF r n] p by (simp add: Let_def split: if_splits)
  then have "os_step (MkdirAll (path_Dir path) fs) fs (\<lambda>fs. os_step (WriteFile path (bytes_of tx) fs) fs (\<lambda>fs. (fs, Ok path))) = (fs', Ok path)"
    using v(2) unfolding sv save_paths.simps save_path [OF r n] p by (simp add: Let_def)
  then obtain fs1 where m: "MkdirAll (path_Dir path) fs = Ok fs1"
    and "os_step (WriteFile path (bytes_of tx) fs1) fs1 (\<lambda>fs. (fs, Ok path)) = (fs', Ok path)"
    by (auto dest: os_step_Ok)
  then have w: "WriteFile path (bytes_of tx) fs1 = Ok fs'" by (auto dest: os_step_Ok)
  have "lookup fs1 q = Some (File d)" using mkdirs_lookup [OF m [unfolded MkdirAll_def], of q] q(1) by auto
  then show ?thesis using WriteFile_lookup [OF w] q(2) p by simp
qed

lemma MasterCert_abs:
  assumes "repo_ok rs r"
  shows "MasterCert r = abs_path (rs @ [accessDir, masterFile @ certExt])"
proof -
  have "\<forall>c \<in> set rs. normal c" "repo_root r = abs_path rs" using assms by (simp_all add: repo_ok_def)
  then show ?thesis
    using path_Join_names [of rs "[accessDir, masterFile @ certExt]"]
    by (simp add: MasterCert_def normal_def repo_names abs_path_def del: path_Join.simps)
qed

lemma MasterCert_not_secret:
  assumes "repo_ok rs r" "\<forall>c \<in> set ds. normal c" "normal n"
  shows "MasterCert r \<noteq> abs_path (rs @ [secretsDir] @ ds @ [n @ ext])"
proof
  assume "MasterCert r = abs_path (rs @ [secretsDir] @ ds @ [n @ ext])"
  moreover have "\<forall>c \<in> set rs. normal c" "normal accessDir" "normal (masterFile @ certExt)" "normal (n @ ext)"
    using assms(1,3) normal_ext by (simp_all add: repo_ok_def) (simp_all add: normal_def repo_names)
  ultimately have "rs @ [accessDir, masterFile @ certExt] = rs @ [secretsDir] @ ds @ [n @ ext]"
    unfolding MasterCert_abs [OF assms(1)] using assms(2) by (intro abs_path_inj) auto
  then show False by (simp add: accessDir_def secretsDir_def)
qed

section \<open>Where a secret is saved\<close>

lemma Join_entry:
  assumes "repo_ok rs r" "es \<noteq> []"
  obtains cs where "\<forall>c \<in> set cs. normal c" "path_Join (repo_root r # es) = abs_path cs"
proof -
  have r: "\<forall>c \<in> set rs. normal c" "repo_root r = abs_path rs" using assms(1) by (simp_all add: repo_ok_def)
  let ?cs = "clean_parts True (rev rs) (concat (map path_parts es))"
  have "\<forall>c \<in> set (concat (map path_parts es)). CHR ''/'' \<notin> set c"
    by (auto simp: path_parts_def dest: Split_on_pieces)
  then have "\<forall>c \<in> set ?cs. normal c" using r(1) by (intro clean_parts_all_normal) simp_all
  then show thesis using that path_Join_abs [OF r(1) assms(2)] r(2) by simp
qed

text \<open>
  The path below which a value is written, and what a step may change: nothing outside of the
  repository, and no existing entry but the files \<open>T\<close>.
\<close>

definition value_file :: "repository \<Rightarrow> string \<Rightarrow> string" where
  "value_file r p = path_Join [repo_root r, secretsDir, p @ ext]"

definition confined :: "string \<Rightarrow> string set \<Rightarrow> fs \<Rightarrow> fs \<Rightarrow> bool" where
  "confined root T fs fs' \<longleftrightarrow>
     (\<forall>q. \<not> prefix (root @ ''/'') q \<longrightarrow> lookup fs' q = lookup fs q) \<and>
     (\<forall>q n. q \<notin> T \<longrightarrow> lookup fs q = Some n \<longrightarrow> lookup fs' q = Some n)"

lemma confined_refl [simp]: "confined root T fs fs"
  by (simp add: confined_def)

lemma confined_trans: "confined root T fs fs1 \<Longrightarrow> confined root T' fs1 fs' \<Longrightarrow> confined root (T \<union> T') fs fs'"
  by (auto simp: confined_def)

lemma wf_ancestors:
  assumes "fs_wf fs" "\<forall>c \<in> set cs. normal c" "lookup fs (abs_path cs) = Some Directory"
  shows "lookup fs (abs_path (take k cs)) = Some Directory"
  using assms(2,3)
proof (induction cs rule: rev_induct)
  case (snoc c cs)
  have n: "\<forall>c \<in> set cs. normal c" "normal c" using snoc.prems(1) by simp_all
  have "abs_path (cs @ [c]) \<noteq> ''/''"
    using abs_path_inj [of "cs @ [c]" "[]"] snoc.prems(1) by (auto simp: abs_path_def)
  then have "abs_path (cs @ [c]) \<in> fst ` set fs"
    using snoc.prems(2) by (auto simp: lookup_def dest!: map_of_SomeD intro: rev_image_eqI)
  then have "lookup fs (abs_path cs) = Some Directory"
    using assms(1) path_Dir_abs_path [OF n] by (auto simp: fs_wf_iff)
  with snoc.IH n(1) have IH: "lookup fs (abs_path (take k cs)) = Some Directory" by blast
  show ?case
  proof (cases "k \<le> length cs")
    case True
    with IH show ?thesis by simp
  qed (use snoc.prems(2) in simp)
qed (simp add: abs_path_def)

lemma Join_with_append: "ps \<noteq> [] \<Longrightarrow> qs \<noteq> [] \<Longrightarrow> Join_with sep (ps @ qs) = Join_with sep ps @ sep @ Join_with sep qs"
proof (induction qs rule: rev_induct)
  case (snoc q qs)
  then show ?case by (cases "qs = []") (simp_all add: Join_with_snoc flip: append_assoc)
qed simp

lemma below_root:
  assumes "\<forall>c \<in> set rs. normal c" "rs \<noteq> []" "\<forall>c \<in> set cs. normal c"
  shows "prefix (abs_path rs @ ''/'') (abs_path cs) \<longleftrightarrow> (\<exists>es. es \<noteq> [] \<and> cs = rs @ es)"
proof
  assume "prefix (abs_path rs @ ''/'') (abs_path cs)"
  then obtain z where z: "abs_path cs = abs_path rs @ CHR ''/'' # z" by (auto simp: prefix_def)
  have "path_parts (abs_path cs) = path_parts (abs_path rs) @ path_parts z"
    unfolding z path_parts_def by (rule Split_on_append)
  moreover have "path_parts z \<noteq> []" by (simp add: path_parts_def)
  ultimately have "cs = rs @ path_parts z"
    using assms by (cases "cs = []") (auto simp: path_parts_abs_path Cons_eq_append_conv)
  then show "\<exists>es. es \<noteq> [] \<and> cs = rs @ es" by (metis path_parts_def Split_on_nonempty)
next
  assume "\<exists>es. es \<noteq> [] \<and> cs = rs @ es"
  then obtain es where "es \<noteq> []" "cs = rs @ es" by blast
  then have "abs_path cs = abs_path rs @ ''/'' @ Join_with ''/'' es" using assms(2) by (simp add: abs_path_def Join_with_append)
  then show "prefix (abs_path rs @ ''/'') (abs_path cs)" by (simp add: prefix_def)
qed

lemma ancestors_self:
  "\<forall>c \<in> set ds. normal c \<Longrightarrow> ancestors (abs_path ds) @ [abs_path ds] = map (\<lambda>k. abs_path (take k ds)) [0..<Suc (length ds)]"
  by (simp add: ancestors_def Let_def)

lemma MkdirAll_confined:
  assumes n: "\<forall>c \<in> set (rs @ es). normal c" "rs \<noteq> []" and wf: "fs_wf fs" "lookup fs (abs_path rs) = Some Directory"
    and m: "MkdirAll (abs_path (rs @ es)) fs = Ok fs1"
  shows "confined (abs_path rs) {} fs fs1"
proof -
  let ?ds = "rs @ es"
  have l: "set (ancestors (abs_path ?ds) @ [abs_path ?ds]) = (\<lambda>k. abs_path (take k ?ds)) ` {..length ?ds}"
    unfolding ancestors_self [OF n(1)] by (simp only: set_map set_upt atLeast0LessThan lessThan_Suc_atMost)
  have look: "lookup fs1 q = lookup fs q \<or> lookup fs q = None \<and> (\<exists>k \<le> length ?ds. q = abs_path (take k ?ds))" for q
    using mkdirs_lookup [OF m [unfolded MkdirAll_def], of q] unfolding l by auto
  have "lookup fs1 q = lookup fs q" if q: "\<not> prefix (abs_path rs @ ''/'') q" for q
  proof (rule ccontr)
    assume "lookup fs1 q \<noteq> lookup fs q"
    with look [of q] obtain k where k: "lookup fs q = None" "q = abs_path (take k ?ds)" by blast
    show False
    proof (cases "k \<le> length rs")
      case True
      then show ?thesis using k wf_ancestors [OF wf(1) _ wf(2), of k] n(1) by simp
    next
      case False
      then have "take k ?ds = rs @ take (k - length rs) es" by simp
      moreover from this have "take (k - length rs) es \<noteq> [] \<or> es = []" using False by (cases es) auto
      moreover have "\<forall>c \<in> set (take k ?ds). normal c" using n(1) by (meson in_set_takeD)
      ultimately show ?thesis
        using below_root [of rs "take k ?ds"] q k n wf(2) by auto
    qed
  qed
  moreover have "lookup fs1 q = Some x" if "lookup fs q = Some x" for q x using look [of q] that by auto
  ultimately show ?thesis by (simp add: confined_def)
qed

lemma WriteFile_confined: "prefix (root @ ''/'') p \<Longrightarrow> WriteFile p data fs = Ok fs1 \<Longrightarrow> confined root {p} fs fs1"
  by (auto simp: confined_def WriteFile_lookup)

text \<open>One path of a value, when it passes the check.\<close>

lemma save_target:
  assumes "repo_ok rs r" "prefix (repo_root r @ ''/'') (value_file r p)"
  obtains es d where "value_file r p = abs_path (rs @ es @ [d])" "\<forall>c \<in> set (rs @ es @ [d]). normal c"
    "path_Dir (value_file r p) = abs_path (rs @ es)"
proof -
  have r: "\<forall>c \<in> set rs. normal c" "rs \<noteq> []" "repo_root r = abs_path rs" using assms(1) by (simp_all add: repo_ok_def)
  obtain cs where cs: "\<forall>c \<in> set cs. normal c" "value_file r p = abs_path cs"
    using Join_entry [OF assms(1), of "[secretsDir, p @ ext]"] by (auto simp: value_file_def)
  obtain fs where "fs \<noteq> []" "cs = rs @ fs" using assms(2) below_root [OF r(1,2) cs(1)] unfolding cs(2) r(3) by blast
  then obtain es d where d: "cs = rs @ es @ [d]" by (metis rev_exhaust)
  have "path_Dir (abs_path ((rs @ es) @ [d])) = abs_path (rs @ es)" by (rule path_Dir_abs_path) (use cs(1) d in simp_all)
  then show thesis using that cs d by simp
qed

lemma save_one:
  assumes r: "repo_ok rs r" and p: "prefix (repo_root r @ ''/'') (value_file r p)"
    and wf: "fs_wf fs" "lookup fs (repo_root r) = Some Directory"
    and m: "MkdirAll (path_Dir (value_file r p)) fs = Ok fs1"
  shows "fs_wf fs1" "confined (repo_root r) {} fs fs1"
    "WriteFile (value_file r p) data fs1 = Ok fs2 \<Longrightarrow> fs_wf fs2 \<and> confined (repo_root r) {value_file r p} fs fs2 \<and>
       lookup fs2 (value_file r p) = Some (File data)"
proof -
  have rs: "rs \<noteq> []" "repo_root r = abs_path rs" using r by (simp_all add: repo_ok_def)
  obtain es d where d: "value_file r p = abs_path (rs @ es @ [d])" "\<forall>c \<in> set (rs @ es @ [d]). normal c"
    "path_Dir (value_file r p) = abs_path (rs @ es)" using save_target [OF r p] by blast
  show w: "fs_wf fs1" by (rule fs_wf_MkdirAll [OF _ wf(1) m [unfolded d(3)]]) (use d(2) in simp)
  show c: "confined (repo_root r) {} fs fs1"
    unfolding rs(2) by (rule MkdirAll_confined [OF _ rs(1) wf(1)]) (use d wf(2) m rs(2) in simp_all)
  assume f: "WriteFile (value_file r p) data fs1 = Ok fs2"
  have "entry_name (value_file r p)" unfolding d(1) by (rule entry_nameI) (use d(2) in simp_all)
  from fs_wf_WriteFile [OF w this f] confined_trans [OF c WriteFile_confined [OF p f]]
  show "fs_wf fs2 \<and> confined (repo_root r) {value_file r p} fs fs2 \<and> lookup fs2 (value_file r p) = Some (File data)"
    by (simp add: WriteFile_lookup [OF f])
qed

lemma save_paths_Cons:
  "save_paths (repo_root r) data (p # ps) path fs =
     (if \<not> prefix (repo_root r @ ''/'') (value_file r p) then (fs, Err (OutsideRoot (value_file r p)))
      else os_step (MkdirAll (path_Dir (value_file r p)) fs) fs (\<lambda>fs.
           os_step (WriteFile (value_file r p) data fs) fs (save_paths (repo_root r) data ps (value_file r p))))"
  by (simp add: value_file_def Let_def del: path_Join.simps)

lemma save_paths_confined:
  assumes r: "repo_ok rs r"
  shows "fs_wf fs \<Longrightarrow> lookup fs (repo_root r) = Some Directory \<Longrightarrow> save_paths (repo_root r) data ps path fs = (fs', res) \<Longrightarrow>
    fs_wf fs' \<and> confined (repo_root r) (value_file r ` set ps) fs fs' \<and>
    (\<forall>path'. res = Ok path' \<longrightarrow> (\<forall>p \<in> set ps. lookup fs' (value_file r p) = Some (File data)))"
proof (induction ps arbitrary: path fs)
  case (Cons p ps)
  note sv = Cons.prems(3) [unfolded save_paths_Cons]
  show ?case
  proof (cases "prefix (repo_root r @ ''/'') (value_file r p)")
    case False
    then show ?thesis using sv Cons.prems(1) by auto
  next
    case True
    note one = save_one [OF r True Cons.prems(1,2)]
    show ?thesis
    proof (cases "MkdirAll (path_Dir (value_file r p)) fs")
      case m: (Ok fs1)
      show ?thesis
      proof (cases "WriteFile (value_file r p) data fs1")
        case f: (Ok fs2)
        have rest: "save_paths (repo_root r) data ps (value_file r p) fs2 = (fs', res)" using sv True m f by (simp add: os_step_def)
        note o3 = one(3) [OF m f]
        have "\<not> prefix (repo_root r @ ''/'') (repo_root r)" by (simp add: prefix_def)
        then have "lookup fs2 (repo_root r) = Some Directory" using o3 Cons.prems(2) by (simp add: confined_def)
        with Cons.IH [OF _ this rest] o3 have IH: "fs_wf fs'" "confined (repo_root r) (value_file r ` set ps) fs2 fs'"
          "\<forall>path'. res = Ok path' \<longrightarrow> (\<forall>p \<in> set ps. lookup fs' (value_file r p) = Some (File data))" by blast+
        have "confined (repo_root r) (value_file r ` set (p # ps)) fs fs'"
          using confined_trans [of _ "{value_file r p}" fs fs2 "value_file r ` set ps"] o3 IH(2) by simp
        moreover have "lookup fs' (value_file r p) = Some (File data)" if "res = Ok path'" for path'
          using o3 IH(2,3) that by (cases "value_file r p \<in> value_file r ` set ps") (auto simp: confined_def)
        ultimately show ?thesis using IH(1,3) by auto
      qed (use sv True m one(1,2) [OF m] in \<open>auto simp: os_step_def confined_def\<close>)
    qed (use sv True Cons.prems(1) in \<open>auto simp: os_step_def\<close>)
  qed
qed simp

text \<open>A single path is written unless something is in the way.\<close>

lemma save_paths_succeeds:
  assumes r: "repo_ok rs r" and p: "prefix (repo_root r @ ''/'') (value_file r p)"
    and way: "\<forall>a \<in> set (ancestors (value_file r p)). \<not> is_file (lookup fs a)" "lookup fs (value_file r p) \<noteq> Some Directory"
  shows "snd (save_paths (repo_root r) data [p] path fs) = Ok (value_file r p)"
proof -
  obtain es d where d: "value_file r p = abs_path (rs @ es @ [d])" "\<forall>c \<in> set (rs @ es @ [d]). normal c"
    "path_Dir (value_file r p) = abs_path (rs @ es)" using save_target [OF r p] by blast
  let ?ds = "rs @ es"
  have n: "\<forall>c \<in> set ?ds. normal c" "normal d" using d(2) by simp_all
  have up: "ancestors (value_file r p) = map (\<lambda>k. abs_path (take k ?ds)) [0..<Suc (length ?ds)]"
    unfolding d(1) using d(2) by (simp add: ancestors_def Let_def flip: append_assoc)
  then have a: "ancestors (abs_path ?ds) @ [abs_path ?ds] = ancestors (value_file r p)" by (simp only: ancestors_self [OF n(1)])
  have "lookup fs q \<in> {None, Some Directory}" if "q \<in> set (ancestors (value_file r p))" for q
    using way(1) that by (cases "lookup fs q"; cases "the (lookup fs q)") auto
  then obtain fs1 where m: "MkdirAll (abs_path ?ds) fs = Ok fs1"
    using mkdirs_Ok [of "ancestors (value_file r p)" fs] unfolding MkdirAll_def a by blast
  have "value_file r p \<noteq> abs_path (take k ?ds)" for k
  proof
    assume "value_file r p = abs_path (take k ?ds)"
    moreover have "\<forall>c \<in> set (take k ?ds). normal c" using n(1) by (meson in_set_takeD)
    ultimately have "rs @ es @ [d] = take k ?ds" unfolding d(1) using d(2) by (intro abs_path_inj)
    then have "length (rs @ es @ [d]) = length (take k ?ds)" by (rule arg_cong)
    then show False by simp
  qed
  then have "value_file r p \<notin> set (ancestors (value_file r p))" unfolding up by (simp only: set_map image_iff) blast
  then have "lookup fs1 (value_file r p) \<noteq> Some Directory" "lookup fs1 (abs_path ?ds) = Some Directory"
    using MkdirAll_lookup [OF m, of "value_file r p"] MkdirAll_lookup [OF m, of "abs_path ?ds"] way(2) unfolding a by (simp_all flip: a)
  then have "WriteFile (value_file r p) data fs1 = Ok ((value_file r p, File data) # fs1)" using d(3) by (simp add: WriteFile_Ok)
  then show ?thesis unfolding save_paths_Cons using p m d(3) by (simp add: os_step_def)
qed

text \<open>The parent directory is the last one that is looked at.\<close>

lemma secret_file_slash:
  assumes "repo_ok rs r"
  shows "secret_file (repo_root r) (d @ ''/'') w = secret_file (repo_root r) d w"
proof -
  have r: "\<forall>c \<in> set rs. normal c" "repo_root r = abs_path rs" using assms by (simp_all add: repo_ok_def)
  have skip: "clean_parts True st (xs @ [] # ys) = clean_parts True st (xs @ ys)" for st xs ys
    by (simp add: clean_parts_append)
  have "path_parts (d @ ''/'') = path_parts d @ [[]]"
    using Split_on_append [of "CHR ''/''" d "[]"] by (simp add: path_parts_def)
  then show ?thesis
    using skip [of "rev rs" "path_parts secretsDir @ path_parts d" "path_parts w"]
      path_Join_abs [OF r(1), of "[secretsDir, d @ ''/'', w]"] path_Join_abs [OF r(1), of "[secretsDir, d, w]"]
    by (simp add: secret_file_def r(2) del: path_Join.simps)
qed

lemma search_two_levels:
  assumes r: "repo_ok rs r" and n: "\<forall>c \<in> set cs. normal c" "2 \<le> length cs"
    and s: "\<not> stored fs (repo_root r) (what @ ext) (abs_path cs)" "\<not> stored fs (repo_root r) (what @ ext) (abs_path (butlast cs))"
  shows "Search x fs r what [abs_path cs @ ''/''] = Err NotFound"
proof -
  obtain ds d where d: "cs = ds @ [d]" using n(2) by (cases cs rule: rev_cases) auto
  then have ne: "ds \<noteq> []" using n(2) by auto
  have c: "Clean (abs_path cs @ ''/'') = abs_path cs" by (rule Clean_slash [OF n(1)])
  have "path_Split (abs_path (ds @ [d])) = (abs_path ds @ ''/'', d)"
    using n(1) d ne by (simp add: abs_path_snoc normal_def)
  then have "parent_of (abs_path cs) = abs_path ds @ ''/''" by (simp add: parent_of_def d)
  then have "\<not> in_parent fs (repo_root r) (what @ ext) (abs_path cs)"
    using s(2) d by (simp add: in_parent_def stored_def secret_file_slash [OF r])
  with s(1) c show ?thesis by (simp add: Search_eq search_spec_def)
qed

section \<open>Properties\<close>

text \<open>
  C9. What \<open>Search\<close> does: it loads the file in the first allowed directory that holds the secret, else
  the file in the first allowed directory whose parent holds it, else reports that nothing was
  found.  It looks in no directory above the parent, whereas \<open>docs/cli_overview.md\<close> promises that
  read access to \<open>/test/servers/\<close> covers \<open>/secret\<close>: a secret that is stored two or more levels above
  the only allowed directory, and not in it or in its parent, is not found.
\<close>

theorem search_equals_reference:
  "Search x fs r what dirs =
      (if what = [] then Err NotFound
       else case search_spec fs (repo_root r) (what @ ext) dirs of None \<Rightarrow> Err NotFound | Some p \<Rightarrow> load_found x fs p) \<and>
    (\<forall>rs cs k. repo_ok rs r \<and> dirs = [abs_path cs @ ''/''] \<and> (\<forall>c \<in> set cs. normal c) \<and> k + 2 \<le> length cs \<and>
        stored fs (repo_root r) (what @ ext) (abs_path (take k cs)) \<and>
        \<not> stored fs (repo_root r) (what @ ext) (abs_path cs) \<and> \<not> stored fs (repo_root r) (what @ ext) (abs_path (butlast cs)) \<longrightarrow>
      Search x fs r what dirs = Err NotFound)"
  using Search_eq [of x fs r what dirs] search_two_levels [of _ r _ fs what x] by auto

text \<open>The example of the documentation: \<open>/secret\<close>, and a reader of \<open>/test/servers/\<close>.\<close>

definition docs_fs :: fs where
  "docs_fs = [(''/r'', Directory), (''/r/secrets'', Directory), (''/r/secrets/secret.x'', File [])]"

theorem search_equals_reference_witness:
  "stored docs_fs ''/r'' ''secret.x'' ''/'' \<and> Search demo_crypto docs_fs \<lparr>repo_root = ''/r''\<rparr> ''secret'' [''/test/servers/''] = Err NotFound"
proof -
  have p: "abs_path [''test'', ''servers''] = ''/test/servers''" "abs_path [''test''] = ''/test''" "abs_path [] = ''/''"
    by (simp_all add: abs_path_def)
  have s: "stored docs_fs ''/r'' ''secret.x'' ''/''" by code_simp
  have n: "\<not> stored docs_fs ''/r'' ''secret.x'' ''/test/servers''" "\<not> stored docs_fs ''/r'' ''secret.x'' ''/test''" by code_simp+
  have r: "repo_ok [''r''] \<lparr>repo_root = ''/r''\<rparr>" by (simp add: repo_ok_def normal_def abs_path_def)
  have x: "''secret'' @ ext = ''secret.x''" by (simp add: ext_def)
  note e = conjunct2 [OF search_equals_reference [of demo_crypto docs_fs "\<lparr>repo_root = ''/r''\<rparr>" "''secret''" "[''/test/servers/'']"],
      rule_format, of "[''r'']" "[''test'', ''servers'']" 0]
  have "Search demo_crypto docs_fs \<lparr>repo_root = ''/r''\<rparr> ''secret'' [''/test/servers/''] = Err NotFound"
    by (rule e) (unfold x, use s n r in \<open>simp add: p normal_def\<close>)
  with s show ?thesis by blast
qed

text \<open>
  C37. Saving a certificate terminates and never overwrites: after at most one attempt more than
  there are entries in the file system, the certificate is in a file that did not exist before and
  everything else is unchanged, or there is an error and nothing has changed.
\<close>

theorem cert_saved_in_new_file:
  assumes "length fs < 2 ^ 63"
  shows "\<exists>fs' res. saveCert (length fs + 1) check_cert glob marshal r c fs = Some (fs', res) \<and>
    (case res of
       Ok path \<Rightarrow> lookup fs path = None \<and> lookup fs' path = Some (File (marshal c)) \<and> (\<forall>q. q \<noteq> path \<longrightarrow> lookup fs' q = lookup fs q)
     | _ \<Rightarrow> fs' = fs)"
  using assms by (rule saveCert_total)

definition demo_fs :: fs where
  "demo_fs = [(''/r'', Directory), (''/r/access'', Directory), (''/r/access/user'', Directory), (''/r/access/user/bob.01.cert'', File [])]"

theorem cert_saved_in_new_file_witness:
  "\<exists>fs' res. saveCert (length demo_fs + 1) (\<lambda>_ _ _. True) (\<lambda>_. []) (\<lambda>_. [1]) \<lparr>repo_root = ''/r''\<rparr> demo_user_cert demo_fs = Some (fs', res) \<and>
    (case res of
       Ok path \<Rightarrow> lookup demo_fs path = None \<and> lookup fs' path = Some (File [1]) \<and> (\<forall>q. q \<noteq> path \<longrightarrow> lookup fs' q = lookup demo_fs q)
     | _ \<Rightarrow> fs' = demo_fs)"
  by (rule cert_saved_in_new_file) (simp add: demo_fs_def)

text \<open>
  C38. A repository that was created in the working directory is found there again: \<open>Open\<close> returns
  the same root, with more fuel than the path has elements, and the master certificate is stored
  where \<open>MasterCert\<close> says.
\<close>

theorem created_repository_opens:
  assumes "\<forall>c \<in> set cs. normal c" "cs \<noteq> []" "Create x (abs_path cs) ''.'' master fs = (fs', Ok r)" "length cs < fuel"
  shows "repo_Open fuel (abs_path cs) fs' ''.'' = Some (Ok r) \<and> lookup fs' (MasterCert r) = Some (File (x_MarshalCert x master))"
proof -
  note c = Create_here [OF assms(1,3)]
  have "rev [1..<Suc (length cs)] = length cs # rev [1..<length cs]" using assms(2) by (cases cs) simp_all
  then have "find (is_root fs') (map (\<lambda>k. abs_path (take k cs)) (rev [1..<Suc (length cs)])) = Some (abs_path cs)"
    using c(2) by (simp del: upt_Suc)
  then have "repo_Open fuel (abs_path cs) fs' ''.'' = Some (Ok r)"
    using findRoot_loop_nearest [OF assms(1,4), of fs' "abs_path cs"] c(1)
    by (simp add: repo_Open_def findRoot_def path_Abs_dot [OF assms(1)] del: upt_Suc)
  moreover have "MasterCert r = abs_path (cs @ [accessDir, masterFile @ certExt])"
    by (rule MasterCert_abs) (use assms(1,2) c(1) in \<open>simp add: repo_ok_def\<close>)
  ultimately show ?thesis using c(3) by simp
qed

definition demo_mcert :: mcert where
  "demo_mcert =
     \<lparr>cert_Key = demo_key, KeyId = ''AA=='', ValidPrincipals = [], CriticalOptions = [masterTag], Serial = 0, cert_ValidAfter = 0,
      cert_ValidBefore = 0, cert_SignatureKey = Some demo_key, cert_Reserved = replicate 64 0\<rparr>"

lemma demo_create:
  "snd (Create demo_crypto (abs_path [''r'']) ''.'' demo_mcert [(''/r'', Directory)]) = Ok \<lparr>repo_root = ''/r''\<rparr>"
  by code_simp

theorem created_repository_opens_witness:
  "\<exists>fs' r. Create demo_crypto (abs_path [''r'']) ''.'' demo_mcert [(''/r'', Directory)] = (fs', Ok r) \<and>
    repo_Open 2 (abs_path [''r'']) fs' ''.'' = Some (Ok r) \<and> lookup fs' (MasterCert r) = Some (File (x_MarshalCert demo_crypto demo_mcert))"
proof -
  obtain fs' where c: "Create demo_crypto (abs_path [''r'']) ''.'' demo_mcert [(''/r'', Directory)] = (fs', Ok \<lparr>repo_root = ''/r''\<rparr>)"
    using demo_create by (metis prod.collapse)
  show ?thesis
    using created_repository_opens [OF _ _ c, of 2] c by (auto simp: normal_def)
qed

text \<open>
  C12. Saving a value is confined to the repository, whatever paths the value has: nothing changes
  outside of the repository's directory, also when an error stops it half way, and no existing entry
  is changed but the files of the value.  When it succeeds, the file of every path holds the
  serialized value; and a value with one path inside the repository is saved unless a file stands
  where a directory is needed or a directory where the file is to be.
\<close>

theorem save_value_confined:
  assumes "fs_wf fs" "repo_ok rs r" "lookup fs (repo_root r) = Some Directory" "saveValue x r v fs = (fs', res)"
  shows "(\<forall>q. \<not> prefix (repo_root r @ ''/'') q \<longrightarrow> lookup fs' q = lookup fs q) \<and>
    (\<forall>q n. lookup fs q = Some n \<and> (\<forall>p \<in> set (v_Path v). q \<noteq> value_file r p) \<longrightarrow> lookup fs' q = Some n) \<and>
    (\<forall>path. res = Ok path \<longrightarrow> (\<exists>text. Serialize x v = Ok text \<and>
       (\<forall>p \<in> set (v_Path v). lookup fs' (value_file r p) = Some (File (bytes_of text))))) \<and>
    (\<forall>p text. v_Path v = [p] \<and> Serialize x v = Ok text \<and> prefix (repo_root r @ ''/'') (value_file r p) \<and>
       (\<forall>a \<in> set (ancestors (value_file r p)). \<not> is_file (lookup fs a)) \<and> lookup fs (value_file r p) \<noteq> Some Directory \<longrightarrow>
       res = Ok (value_file r p))"
proof (cases "Serialize x v")
  case (Ok tx)
  then have s: "save_paths (repo_root r) (bytes_of tx) (v_Path v) [] fs = (fs', res)" using assms(4) by (simp add: saveValue_def)
  note c = save_paths_confined [OF assms(2,1,3) s]
  have "res = Ok (value_file r p)" if "v_Path v = [p]" "prefix (repo_root r @ ''/'') (value_file r p)"
    "\<forall>a \<in> set (ancestors (value_file r p)). \<not> is_file (lookup fs a)" "lookup fs (value_file r p) \<noteq> Some Directory" for p
    using save_paths_succeeds [OF assms(2) that(2-4), of "bytes_of tx" "[]"] s that(1) by simp
  then show ?thesis using c Ok unfolding confined_def by auto
qed (use assms(4) in \<open>auto simp: saveValue_def\<close>)

definition confined_fs :: fs where
  "confined_fs = [(''/r'', Directory), (''/x'', Directory), (''/x/k.x'', File [1])]"

theorem save_value_confined_witness:
  "\<exists>fs' res. saveValue demo_crypto \<lparr>repo_root = ''/r''\<rparr> (demo_signed\<lparr>v_Path := [''/../../x/k'']\<rparr>) confined_fs = (fs', res) \<and>
     value_file \<lparr>repo_root = ''/r''\<rparr> ''/../../x/k'' = ''/x/k.x'' \<and> lookup fs' ''/x/k.x'' = Some (File [1])"
proof -
  have e: "entry_name ''/r''" "entry_name ''/x''" "entry_name ''/x/k.x''"
    using entry_nameI [of "[''r'']"] entry_nameI [of "[''x'']"] entry_nameI [of "[''x'', ''k.x'']"] by (simp_all add: normal_def abs_path_def)
  have "list_all (\<lambda>p. lookup confined_fs (path_Dir p) = Some Directory) (map fst confined_fs)" by code_simp
  then have wf: "fs_wf confined_fs" using e by (simp add: fs_wf_iff confined_fs_def)
  have r: "repo_ok [''r''] \<lparr>repo_root = ''/r''\<rparr>" by (simp add: repo_ok_def normal_def abs_path_def)
  obtain fs' res where s: "saveValue demo_crypto \<lparr>repo_root = ''/r''\<rparr> (demo_signed\<lparr>v_Path := [''/../../x/k'']\<rparr>) confined_fs = (fs', res)"
    by fastforce
  have v: "value_file \<lparr>repo_root = ''/r''\<rparr> ''/../../x/k'' = ''/x/k.x''" by code_simp
  have "lookup confined_fs ''/r'' = Some Directory" "lookup confined_fs ''/x/k.x'' = Some (File [1])" by (simp_all add: confined_fs_def lookup_def)
  with save_value_confined [OF wf r _ s] s v show ?thesis by auto
qed

end
