(* ===== verification/Server.thy ===== *)
theory Server
  imports Repo
begin

text \<open>
  The server that answers requests for secrets (\<open>src/secrets/server\<close>), with the durations of
  \<open>src/secrets/util/duration.go\<close>: requests and responses, the ssh session around them, starting the
  server from a repository, and its host certificates.
\<close>

section \<open>Collected errors (multierr.go)\<close>

text \<open>What \<open>Errorf\<close> looks at in an argument: nil, an error that is \<open>io.EOF\<close>, or anything else.\<close>

datatype errarg = NilArg | EofArg | OtherArg

definition multi_Error :: "'e option \<Rightarrow> 'e list \<Rightarrow> 'e list" where
  "multi_Error e m = (case e of None \<Rightarrow> m | Some e \<Rightarrow> m @ [e])"

definition multi_Sum :: "'e list \<Rightarrow> 'e list option" where
  "multi_Sum m = (if m = [] then None else Some m)"

definition multi_Errorf :: "'e \<Rightarrow> errarg list \<Rightarrow> 'e list \<Rightarrow> 'e list" where
  "multi_Errorf formatted args m =
     (let countNotNil = length (filter (\<lambda>a. a = OtherArg) args)
      in if length args > 0 \<and> countNotNil = 0 then m else multi_Error (Some formatted) m)"

definition multi_String :: "('e \<Rightarrow> string) \<Rightarrow> 'e list \<Rightarrow> string" where
  "multi_String msg m = Join_with ''; '' (map msg m)"

section \<open>Requests (api.go)\<close>

datatype api_error =
    InvalidJson | InvalidJsonEmpty | EmptyQuery
  | SearchFailed string repo_error | DecryptFailed string value_error

text \<open>The map \<open>Secrets\<close> as an association list, the latest entry first.\<close>

record response =
  rs_Secrets :: "(string \<times> bytes) list"
  rs_Errors :: "api_error list"

definition newResponse :: response where
  "newResponse = \<lparr>rs_Secrets = [], rs_Errors = []\<rparr>"

definition response_Set :: "string \<Rightarrow> bytes \<Rightarrow> response \<Rightarrow> response" where
  "response_Set n s r = r\<lparr>rs_Secrets := (n, s) # rs_Secrets r\<rparr>"

definition response_Errorf :: "api_error \<Rightarrow> errarg list \<Rightarrow> response \<Rightarrow> response" where
  "response_Errorf e args r = r\<lparr>rs_Errors := multi_Errorf e args (rs_Errors r)\<rparr>"

text \<open>What decoding the request as a JSON list of names gives.\<close>

datatype json = JsonEOF | JsonInvalid | Query "string list"

text \<open>One name of the query; a panic while decrypting takes the server down.\<close>

definition answer ::
    "crypto \<Rightarrow> fs \<Rightarrow> repository \<Rightarrow> master_key \<Rightarrow> string list \<Rightarrow> string \<Rightarrow> response \<Rightarrow> (unit, response) res" where
  "answer x fs r master allowed key resp =
     (case Search x fs r key allowed of
        Panic \<Rightarrow> Panic
      | Err e \<Rightarrow> Ok (response_Errorf (SearchFailed key e) [OtherArg, OtherArg] resp)
      | Ok v \<Rightarrow>
          (case Decrypt x master v of
             Panic \<Rightarrow> Panic
           | Err e \<Rightarrow> Ok (response_Errorf (DecryptFailed key e) [OtherArg, OtherArg] resp)
           | Ok plaintext \<Rightarrow> Ok (response_Set key plaintext resp)))"

definition handleAPI ::
    "crypto \<Rightarrow> nat \<Rightarrow> fs \<Rightarrow> repository \<Rightarrow> acl \<Rightarrow> master_key \<Rightarrow> pubkey \<Rightarrow> json \<Rightarrow> (unit, response) res" where
  "handleAPI x now fs r a master key request =
     (case request of
        JsonEOF \<Rightarrow> Ok (response_Errorf InvalidJsonEmpty [OtherArg] newResponse)
      | JsonInvalid \<Rightarrow> Ok (response_Errorf InvalidJson [OtherArg] newResponse)
      | Query query \<Rightarrow>
          if length query = 0 then Ok (response_Errorf EmptyQuery [] newResponse)
          else each (answer x fs r master (AllowedRead (x_Fingerprint x) now a key)) query newResponse)"

definition response_Status :: "(api_error \<Rightarrow> string) \<Rightarrow> response option \<Rightarrow> string" where
  "response_Status msg r =
     (case r of
        None \<Rightarrow> ''NIL''
      | Some r \<Rightarrow>
          if length (rs_Errors r) = 0 then ''OK''
          else let tag = (if length (rs_Secrets r) \<noteq> 0 then ''client error (partial)'' else ''client error'')
            in tag @ '': '' @ multi_String msg (rs_Errors r))"

section \<open>Connections (server.go)\<close>

text \<open>The callback that authenticates a client: it must be allowed to read something.\<close>

definition PublicKeyCallback ::
    "(string \<Rightarrow> string \<Rightarrow> bool) \<Rightarrow> crypto \<Rightarrow> nat \<Rightarrow> acl \<Rightarrow> pubkey \<Rightarrow> (access_error, bytes) res" where
  "PublicKeyCallback glob x now a key =
     res_bind (Check glob (x_Fingerprint x) now a key Read ''/'') (\<lambda>_. Ok (key_Marshal key))"

datatype ssh_error = UnknownChannel string | AcceptFailed | BadClientKey | Reply string

text \<open>
  \<open>handleSSH\<close> on the first channel of a connection (\<open>None\<close>: the channels were closed).  \<open>client\<close> is
  the client key parsed from the connection's permissions, \<open>sends\<close> how the four messages that end
  the session went.
\<close>

definition handleSSH ::
    "(api_error \<Rightarrow> string) \<Rightarrow> crypto \<Rightarrow> nat \<Rightarrow> fs \<Rightarrow> repository \<Rightarrow> acl \<Rightarrow> master_key \<Rightarrow> string option \<Rightarrow> bool \<Rightarrow>
     pubkey option \<Rightarrow> json \<Rightarrow> errarg list \<Rightarrow> (unit, string \<times> ssh_error list option) res" where
  "handleSSH msg x now fs r a master channel accepted client request sends =
     (case channel of
        None \<Rightarrow> Ok ([], None)
      | Some t \<Rightarrow>
          if t \<noteq> ''session'' then Ok ([], Some [UnknownChannel t])
          else if \<not> accepted then Ok ([], Some [AcceptFailed])
          else case client of
              None \<Rightarrow> Ok ([], Some [BadClientKey])
            | Some key \<Rightarrow>
                res_bind (handleAPI x now fs r a master key request) (\<lambda>resp.
                  let errs = fold (\<lambda>(what, arg). multi_Errorf (Reply what) [arg])
                        (zip [''sending SSH response'', ''closing SSH channel for writing'', ''sending eow'', ''sending exit-status''] sends) []
                  in Ok (response_Status msg (Some resp), multi_Sum errs)))"

definition log_message :: "string \<Rightarrow> string" where
  "log_message message = TrimRight message [newline, CHR 0x0D, CHR 0x09, CHR '' '']"

text \<open>Replies to the requests on a channel: type and \<open>WantReply\<close> of each, nil requests are skipped.\<close>

fun discard_requests :: "(string \<times> bool) option list \<Rightarrow> bool list" where
  "discard_requests [] = []"
| "discard_requests (None # reqs) = discard_requests reqs"
| "discard_requests (Some (t, wantReply) # reqs) =
     (let allow = (t = ''shell'' \<or> t = ''pty-req'')
      in if wantReply then allow # discard_requests reqs else discard_requests reqs)"

definition listen_address :: "string \<Rightarrow> string \<Rightarrow> string \<Rightarrow> (string \<times> string) option" where
  "listen_address scheme host path =
     (if scheme = ''unix'' then Some (scheme, path)
      else if scheme = ''tcp'' \<or> scheme = ''tcp4'' \<or> scheme = ''tcp6'' then Some (scheme, host)
      else if scheme = ''ssh'' then Some (''tcp'', host)
      else None)"

section \<open>Starting the server (server.go, access/acl.go)\<close>

definition acl_Open :: "crypto \<Rightarrow> fs \<Rightarrow> string \<Rightarrow> (master_error, acl) res" where
  "acl_Open x fs path = res_bind (master_LoadCertificate x fs path) (\<lambda>c. Ok \<lparr>acl_master = cert_Key c, acl_db = []\<rparr>)"

text \<open>A certificate file as the access package reads it.\<close>

definition parse_cert :: "crypto \<Rightarrow> fs \<Rightarrow> string \<Rightarrow> cert option" where
  "parse_cert x fs path = (case util_LoadCertificate x fs path of Ok c \<Rightarrow> Some (cert.truncate c) | _ \<Rightarrow> None)"

text \<open>What a process finds around it: working directory, clock, SQLite, ssh-agent.\<close>

record host =
  h_cwd :: string
  h_fuel :: nat
  h_now :: int
  h_glob :: "string \<Rightarrow> string \<Rightarrow> bool"
  h_check :: "string list \<Rightarrow> string \<Rightarrow> cert \<Rightarrow> bool"
  h_iter :: "(string \<times> cert) list \<Rightarrow> (string \<times> cert) list"
  h_keys :: "pubkey list option"
  h_agent :: "pubkey \<Rightarrow> signer option"

datatype start_error = BadListen | StartRepo repo_error | StartMaster master_error | StartAccess access_error

record server =
  sv_proto :: string
  sv_addr :: string
  sv_acl :: acl
  sv_repo :: repository
  sv_master :: master_key

definition load_acl :: "crypto \<Rightarrow> host \<Rightarrow> fs \<Rightarrow> repository \<Rightarrow> (start_error, acl) res" where
  "load_acl x h fs r =
     res_bind (map_err StartMaster (acl_Open x fs (MasterCert r))) (\<lambda>a.
     res_bind (map_err StartAccess (acl_Load (h_glob h) (x_Fingerprint x) (nat (unix (h_now h)))
         (LoadCertificate (h_check h) (parse_cert x fs)) (h_iter h) (AdminCerts fs r) (UserCerts fs r) a)) (\<lambda>(warnings, a). Ok a))"

definition server_New ::
    "crypto \<Rightarrow> host \<Rightarrow> fs \<Rightarrow> string \<Rightarrow> string \<Rightarrow> string \<Rightarrow> string \<Rightarrow> (start_error, server) res option" where
  "server_New x h fs scheme host path repository =
     (case listen_address scheme host path of
        None \<Rightarrow> Some (Err BadListen)
      | Some (proto, addr) \<Rightarrow>
          map_option (\<lambda>opened.
            res_bind (map_err StartRepo opened) (\<lambda>r.
            res_bind (load_acl x h fs r) (\<lambda>a.
            res_bind (map_err StartMaster (master_Open x (h_agent h) fs (MasterCert r))) (\<lambda>m.
              Ok \<lparr>sv_proto = proto, sv_addr = addr, sv_acl = a, sv_repo = r, sv_master = m\<rparr>))))
          (repo_Open (h_fuel h) (h_cwd h) fs repository))"

section \<open>Host certificates (hostcert.go)\<close>

definition hostCertLifetime :: int where "hostCertLifetime = 24 * 3600 * 1000000000"
definition hostCertRenewThreshold :: int where "hostCertRenewThreshold = 3600 * 1000000000"

record host_cert =
  hc_Key :: pubkey
  hc_KeyId :: string
  hc_Serial :: nat
  hc_ValidAfter :: nat
  hc_ValidBefore :: nat

text \<open>The certificate for a fresh key, and when it expires; signing is left to the ssh package.\<close>

definition ephemeralHostCert :: "int \<Rightarrow> pubkey \<Rightarrow> host_cert \<times> int" where
  "ephemeralHostCert now key =
     (let expires = now + hostCertLifetime
      in (\<lparr>hc_Key = key, hc_KeyId = ''secretd host key'', hc_Serial = uint64 (unix now),
           hc_ValidAfter = uint64 (int (uint64 (unix now)) - 1), hc_ValidBefore = uint64 (unix expires)\<rparr>, expires))"

text \<open>When the certificate made at \<open>now\<close> is renewed.\<close>

definition renew_at :: "int \<Rightarrow> int" where
  "renew_at expires = expires - hostCertRenewThreshold"

section \<open>Durations (util/duration.go)\<close>

text \<open>\<open>FindAllString(s, n)\<close> for \<open>[0-9]+d\<close>: the leftmost, longest matches; and what is left without them.\<close>

definition is_digit :: "char \<Rightarrow> bool" where
  "is_digit c \<longleftrightarrow> digit10 c \<noteq> None"

lemma digits_consumed:
  "dropWhile (\<lambda>c. \<not> is_digit c) s \<noteq> [] \<Longrightarrow>
   length (dropWhile is_digit (dropWhile (\<lambda>c. \<not> is_digit c) s)) < length s"
proof -
  let ?t = "dropWhile (\<lambda>c. \<not> is_digit c) s"
  assume t: "?t \<noteq> []"
  then have "is_digit (hd ?t)" using hd_dropWhile [of "\<lambda>c. \<not> is_digit c" s] by auto
  then have "length (dropWhile is_digit ?t) < length ?t" using t by (cases ?t) (auto intro: le_imp_less_Suc length_dropWhile_le)
  also have "\<dots> \<le> length s" by (rule length_dropWhile_le)
  finally show ?thesis .
qed

function day_tags :: "string \<Rightarrow> string list" where
  "day_tags s =
     (let t = dropWhile (\<lambda>c. \<not> is_digit c) s; ds = takeWhile is_digit t; u = dropWhile is_digit t
      in if t = [] then []
         else if u \<noteq> [] \<and> hd u = CHR ''d'' then (ds @ ''d'') # day_tags (tl u)
         else day_tags u)"
  by pat_completeness auto
termination by (relation "measure length") (simp_all add: digits_consumed less_imp_diff_less del: dropWhile_eq_Nil_conv)

function without_days :: "string \<Rightarrow> string" where
  "without_days s =
     (let p = takeWhile (\<lambda>c. \<not> is_digit c) s; t = dropWhile (\<lambda>c. \<not> is_digit c) s;
          ds = takeWhile is_digit t; u = dropWhile is_digit t
      in if t = [] then p
         else if u \<noteq> [] \<and> hd u = CHR ''d'' then p @ without_days (tl u)
         else p @ ds @ without_days u)"
  by pat_completeness auto
termination by (relation "measure length") (simp_all add: digits_consumed less_imp_diff_less del: dropWhile_eq_Nil_conv)

declare day_tags.simps [simp del] without_days.simps [simp del]

datatype duration_error = InvalidDuration | RepeatedDays | DaysOutOfRange

text \<open>
  \<open>std\<close> is \<open>time.ParseDuration\<close>, in nanoseconds.  Durations are \<open>int64\<close>: the multiplication by the
  length of a day and the addition wrap.
\<close>

definition ParseDuration :: "(string \<Rightarrow> int option) \<Rightarrow> string \<Rightarrow> (duration_error, int) res" where
  "ParseDuration std s =
     (case std s of
        Some d \<Rightarrow> Ok d
      | None \<Rightarrow>
          (case day_tags s of
             [] \<Rightarrow> Err InvalidDuration
           | [tag] \<Rightarrow>
               (case ParseInt (butlast tag) 10 of
                  None \<Rightarrow> Err DaysOutOfRange
                | Some daysCount \<Rightarrow>
                    let days = int64 (daysCount * 3600000000000 * 24);
                        remainder = without_days s;
                        neg = (remainder \<noteq> [] \<and> hd remainder = CHR ''-'');
                        remainder = (if neg then tl remainder else remainder);
                        sign = (if neg then - 1 else 1)
                    in if remainder = [] then Ok (int64 (sign * days))
                       else case std remainder of
                           None \<Rightarrow> Err InvalidDuration
                         | Some d \<Rightarrow> Ok (int64 (sign * int64 (d + days))))
           | _ \<Rightarrow> Err RepeatedDays))"
section \<open>Answers\<close>

lemma normal_nonempty: "normal c \<Longrightarrow> c \<noteq> []"
  by (simp add: normal_def)

lemma Search_first:
  assumes "repo_ok rs r" "\<forall>c \<in> set ds. normal c" "what \<noteq> []"
    and "lookup fs (secret_file (repo_root r) (abs_path ds) (what @ ext)) = Some node"
  shows "Search x fs r what ((abs_path ds @ ''/'') # dirs) =
    load_found x fs (secret_file (repo_root r) (abs_path ds) (what @ ext))"
proof -
  have "stored fs (repo_root r) (what @ ext) (abs_path ds)" using assms(4) by (simp add: stored_def is_ok_iff)
  then show ?thesis using assms(2,3) by (simp add: Search_eq search_spec_def Clean_slash)
qed

lemma handleAPI_single:
  "handleAPI x now fs r a master key (Query [n]) = answer x fs r master (AllowedRead (x_Fingerprint x) now a key) n newResponse"
  by (cases "answer x fs r master (AllowedRead (x_Fingerprint x) now a key) n newResponse") (simp_all add: handleAPI_def)

lemma answer_found:
  assumes "Search x fs r n allowed = Ok v" "Decrypt x master v = Ok plaintext"
  shows "answer x fs r master allowed n newResponse = Ok \<lparr>rs_Secrets = [(n, plaintext)], rs_Errors = []\<rparr>"
  by (simp add: answer_def assms response_Set_def newResponse_def)

lemma server_New_Ok:
  assumes "server_New x h fs scheme host path repository = Some (Ok s)"
  obtains c sg where "master_LoadCertificate x fs (MasterCert (sv_repo s)) = Ok c" "NewKey x sg c = Ok (sv_master s)"
  using assms by (auto simp: server_New_def master_Open_def split: option.splits)

section \<open>Properties\<close>

text \<open>
  C39. A client that may read a single directory reads every secret of the repository: the name in a
  request is joined to the allowed directory without checking it, so a name that starts with
  \<open>../\<close> leads to any file of the repository's \<open>secrets\<close> directory, and the server answers with the
  plaintext.
\<close>

theorem any_reader_reads_every_secret:
  assumes "repo_ok rs r" "\<forall>c \<in> set ds. normal c" "\<forall>c \<in> set es. normal c" "normal n"
    and "AllowedRead (x_Fingerprint x) now a key = (abs_path ds @ ''/'') # dirs"
    and "value_Load x fs (abs_path (rs @ [secretsDir] @ es @ [n @ ext])) = Ok v" "Decrypt x master v = Ok plaintext"
  shows "handleAPI x now fs r a master key (Query [climb ds es n]) =
    Ok \<lparr>rs_Secrets = [(climb ds es n, plaintext)], rs_Errors = []\<rparr>"
proof -
  let ?p = "abs_path (rs @ [secretsDir] @ es @ [n @ ext])"
  have p: "secret_file (repo_root r) (abs_path ds) (climb ds es n @ ext) = ?p" by (rule secret_file_climb [OF assms(1-4)])
  obtain d where "lookup fs ?p = Some (File d)" using assms(6) by (auto simp: value_Load_def)
  moreover have "climb ds es n \<noteq> []"
  proof -
    have "\<forall>p \<in> set (replicate (length ds) ''..'' @ es @ [n]). p \<noteq> []"
      using assms(3,4) normal_nonempty by auto
    from Join_with_nonempty [OF this, of "''/''"] show ?thesis by (simp add: climb_def)
  qed
  ultimately have "Search x fs r (climb ds es n) ((abs_path ds @ ''/'') # dirs) = Ok v"
    using Search_first [OF assms(1,2), of "climb ds es n" fs "File d" x dirs] assms(6) by (simp add: p load_found_def)
  then show ?thesis unfolding handleAPI_single assms(5) by (rule answer_found) (rule assms(7))
qed

definition demo_acl :: acl where
  "demo_acl =
     \<lparr>acl_master = demo_key,
      acl_db = [\<lparr>row_Fingerprint = ''SHA256:x'', row_Capability = caps Read, row_Path = ''/a/'', row_Priority = 0,
                 row_ValidAfter = 0, row_ValidBefore = 10\<rparr>]\<rparr>"

lemma demo_allowed: "AllowedRead (x_Fingerprint demo_crypto) 5 demo_acl demo_key = [abs_path [''a''] @ ''/'']"
  by (simp add: AllowedRead_def demo_acl_def demo_crypto_def ValidACL_def abs_path_def)

text \<open>A secret that was encrypted, signed and written.\<close>

lemma demo_secret:
  obtains key v tx where "Decrypt demo_crypto key v = Ok [1, 2, 3]" "Serialize demo_crypto v = Ok tx" "Deserialize demo_crypto tx = Ok v"
proof -
  obtain c where c: "master_NewCertificate demo_crypto (replicate 256 0) 0 demo_signer = Ok c"
    by (simp add: master_NewCertificate_def boxKey_def sha512_Size_def demo_signer_def demo_crypto_def Let_def)
  have key: "NewKey demo_crypto demo_signer c = Ok \<lparr>mk_signer = demo_signer, mk_seed = replicate 256 0\<rparr>"
    by (rule NewKey_NewCertificate [OF demo_laws(1,2) _ c]) (simp add: demo_crypto_def)
  obtain v where v: "Encrypt demo_crypto (replicate 24 0) [] (replicate 65 5) c [1, 2, 3] demo_value = Ok v"
    "Decrypt demo_crypto \<lparr>mk_signer = demo_signer, mk_seed = replicate 256 0\<rparr> v = Ok [1, 2, 3]"
    "v_Path v = v_Path demo_value" "v_Created v = v_Created demo_value" "v_Expires v = v_Expires demo_value"
    "length (v_blob v) \<le> 203"
    using Decrypt_Encrypt [OF demo_laws(1) key, of "replicate 24 0" "replicate 65 5" "[1, 2, 3]" "[]" demo_value]
    by (auto simp: paddingMaxBytes_def MaxValueBytes_def)
  obtain w where w: "value_Sign (replicate 64 0) [] demo_signer v = Ok w"
    by (simp add: value_Sign_def demo_signer_def demo_key_def expectedFormat_def sigFormat_def)
  have nonce: "length (replicate 64 (0 :: byte)) = sigNonceBytes" by (simp add: sigNonceBytes_def)
  note sg = Verify_Sign [OF demo_laws(3) nonce w]
  have sig: "v_signature w = replicate 64 0 @ [7]"
    using w bytesToSign_nonce(1) [OF nonce, of v]
    by (auto simp: value_Sign_def demo_signer_def demo_key_def expectedFormat_def sigFormat_def)
  have "length (v_blob v) < 0xD800" using v(6) by simp
  then have "value_ok demo_crypto demo_key w"
    using demo_value_ok sg v(3-5) by (simp add: value_ok_def demo_signed_def demo_signer_def packable_def sig valid_rune_def MaxRune_def)
  with sg(1) demo_laws(4) obtain tx where "Serialize demo_crypto w = Ok tx" "Deserialize demo_crypto tx = Ok w"
    using Deserialize_Serialize by blast
  moreover have "Decrypt demo_crypto \<lparr>mk_signer = demo_signer, mk_seed = replicate 256 0\<rparr> w = Ok [1, 2, 3]"
    using v(2) sg(5) by (simp add: Decrypt_def)
  ultimately show thesis by (intro that)
qed

theorem any_reader_reads_every_secret_witness:
  "\<exists>master text v. value_Load demo_crypto [(''/r/secrets/b/k.x'', File (bytes_of text))] ''/r/secrets/b/k.x'' = Ok v \<and>
    handleAPI demo_crypto 5 [(''/r/secrets/b/k.x'', File (bytes_of text))] \<lparr>repo_root = ''/r''\<rparr> demo_acl master demo_key
      (Query [''../b/k'']) = Ok \<lparr>rs_Secrets = [(''../b/k'', [1, 2, 3])], rs_Errors = []\<rparr>"
proof -
  obtain key v tx where s: "Decrypt demo_crypto key v = Ok [1, 2, 3]" "Serialize demo_crypto v = Ok tx"
    "Deserialize demo_crypto tx = Ok v" by (rule demo_secret)
  let ?fs = "[(''/r/secrets/b/k.x'', File (bytes_of tx))]"
  have l: "value_Load demo_crypto ?fs ''/r/secrets/b/k.x'' = Ok v"
    using s(3) by (simp add: value_Load_def ReadFile_def Stat_def lookup_def)
  have p: "abs_path ([''r''] @ [secretsDir] @ [''b''] @ [''k'' @ ext]) = ''/r/secrets/b/k.x''"
    by (simp add: abs_path_def secretsDir_def ext_def)
  have c: "climb [''a''] [''b''] ''k'' = ''../b/k''" by (simp add: climb_def)
  have r: "repo_ok [''r''] \<lparr>repo_root = ''/r''\<rparr>" by (simp add: repo_ok_def abs_path_def normal_def)
  have "handleAPI demo_crypto 5 ?fs \<lparr>repo_root = ''/r''\<rparr> demo_acl key demo_key (Query [climb [''a''] [''b''] ''k'']) =
      Ok \<lparr>rs_Secrets = [(climb [''a''] [''b''] ''k'', [1, 2, 3])], rs_Errors = []\<rparr>"
    by (rule any_reader_reads_every_secret [OF r _ _ _ demo_allowed _ s(1)]) (simp_all only: p l, simp_all add: normal_def)
  with l c show ?thesis by auto
qed

end
