(* ===== verification/Secretctl.thy ===== *)
theory Secretctl
  imports Server
begin

text \<open>
  The command line tool (\<open>src/secrets/cmd/secretctl\<close>): storing a secret, issuing certificates and
  initializing a repository, composed from the packages below it.
\<close>

section \<open>secretctl set\<close>

datatype ctl_error =
    CtlRepo repo_error | CtlMaster master_error | CtlStart start_error | CtlAccess access_error | CtlValue value_error
  | CtlDuration duration_error | CtlTwoValues | CtlNoStdin | CtlEditor | CtlFile os_error
  | CtlEmptyPath | CtlRelativePath string | CtlNoPaths | CtlNoClass | CtlNoCapability

text \<open>
  Where the plaintext comes from: \<open>stdin\<close> is what is piped in (\<open>None\<close> when standard input is not a
  pipe), \<open>editor\<close> what the editor leaves behind.
\<close>

definition read_value ::
    "string \<Rightarrow> string \<Rightarrow> (string \<Rightarrow> (os_error, bytes) res) \<Rightarrow> bytes option \<Rightarrow> bytes option \<Rightarrow> (ctl_error, bytes) res" where
  "read_value arg name read stdin editor =
     (if arg \<noteq> [] \<and> name \<noteq> [] then Err CtlTwoValues
      else if arg \<noteq> [] then Ok (bytes_of arg)
      else if name \<noteq> [] \<and> name \<noteq> ''-'' then map_err CtlFile (read name)
      else let piped = (case stdin of Some d \<Rightarrow> d | None \<Rightarrow> [])
        in if piped \<noteq> [] then Ok piped
           else if name = ''-'' then Err CtlNoStdin
           else case editor of None \<Rightarrow> Err CtlEditor | Some d \<Rightarrow> Ok d)"

record randomness =
  rn_nonce :: bytes
  rn_seed :: bytes
  rn_padding :: bytes
  rn_sig :: bytes
  rn_signer :: bytes

text \<open>Everything \<open>set\<close> does before it saves the value: authorization, encryption and signature.\<close>

definition prepare_value ::
    "crypto \<Rightarrow> host \<Rightarrow> randomness \<Rightarrow> fs \<Rightarrow> repository \<Rightarrow> string \<Rightarrow> bytes \<Rightarrow> int \<Rightarrow> (ctl_error, Value) res" where
  "prepare_value x h rn fs r path val lifetime =
     (let v = \<lparr>v_Path = [path], v_Created = unix (h_now h), v_Expires = unix (h_now h + lifetime), v_Signer = None,
               v_blob = [], v_signature = []\<rparr>
      in res_bind (map_err CtlMaster (master_LoadCertificate x fs (MasterCert r))) (\<lambda>master.
         res_bind (map_err CtlStart (load_acl x h fs r)) (\<lambda>a.
         res_bind (map_err CtlAccess (FindAgent (h_glob h) (x_Fingerprint x) (nat (unix (h_now h))) a (h_keys h)
             (\<lambda>k. h_agent h k \<noteq> None) (map path_Dir (v_Path v)) [Write])) (\<lambda>key.
           case h_agent h key of
             None \<Rightarrow> Err (CtlAccess IdentityFailed)
           | Some sg \<Rightarrow>
               res_bind (map_err CtlValue (Encrypt x (rn_nonce rn) (rn_seed rn) (rn_padding rn) master val v)) (\<lambda>v.
               map_err CtlValue (value_Sign (rn_sig rn) (rn_signer rn) sg v))))))"

definition secretctl_set ::
    "crypto \<Rightarrow> host \<Rightarrow> randomness \<Rightarrow> string \<Rightarrow> bytes \<Rightarrow> int \<Rightarrow> fs \<Rightarrow> (fs \<times> (ctl_error, string) res) option" where
  "secretctl_set x h rn path val lifetime fs =
     map_option (\<lambda>opened.
       case opened of
         Panic \<Rightarrow> (fs, Panic)
       | Err e \<Rightarrow> (fs, Err (CtlRepo e))
       | Ok r \<Rightarrow>
           (case prepare_value x h rn fs r path val lifetime of
              Panic \<Rightarrow> (fs, Panic)
            | Err e \<Rightarrow> (fs, Err e)
            | Ok v \<Rightarrow> (case saveValue x r v fs of (fs', out) \<Rightarrow> (fs', map_err CtlRepo out))))
     (repo_Open (h_fuel h) (h_cwd h) fs ''.'')"

text \<open>The whole command; \<open>std\<close> is \<open>time.ParseDuration\<close>.\<close>

definition SetCmd_Run ::
    "crypto \<Rightarrow> host \<Rightarrow> randomness \<Rightarrow> (string \<Rightarrow> int option) \<Rightarrow> string \<Rightarrow> string \<Rightarrow> string \<Rightarrow> string \<Rightarrow> bytes option \<Rightarrow> bytes option \<Rightarrow>
     fs \<Rightarrow> (fs \<times> (ctl_error, string) res) option" where
  "SetCmd_Run x h rn std dest arg name expires stdin editor fs =
     (case res_bind (read_value arg name (\<lambda>p. ReadFile (path_Abs (h_cwd h) p) fs) stdin editor) (\<lambda>val.
             res_bind (map_err CtlDuration (ParseDuration std expires)) (\<lambda>lifetime. Ok (val, lifetime))) of
        Ok (val, lifetime) \<Rightarrow> secretctl_set x h rn dest val lifetime fs
      | Err e \<Rightarrow> Some (fs, Err e)
      | Panic \<Rightarrow> Some (fs, Panic))"

section \<open>secretctl cert and init\<close>

text \<open>
  The arguments of \<open>cert\<close>; \<open>sign_cert\<close> is \<open>SignCert\<close> by the agent for a key, \<open>glob\<close> is
  \<open>filepath.Glob\<close>, \<open>marshal\<close> writes a certificate.
\<close>

record cert_cmd =
  cc_User :: string
  cc_Admin :: string
  cc_Key :: string
  cc_Read :: bool
  cc_Write :: bool
  cc_Expires :: string
  cc_Path :: "string list"

definition check_paths :: "string list \<Rightarrow> (ctl_error, unit) res" where
  "check_paths ps =
     res_bind (each (\<lambda>p _. if length p = 0 then Err CtlEmptyPath
                           else if p ! 0 \<noteq> CHR ''/'' then Err (CtlRelativePath p) else Ok ()) ps ())
       (\<lambda>_. if length ps = 0 then Err CtlNoPaths else Ok ())"

definition delegateUser ::
    "crypto \<Rightarrow> host \<Rightarrow> (pubkey \<Rightarrow> cert \<Rightarrow> cert option) \<Rightarrow> fs \<Rightarrow> repository \<Rightarrow> cert_cmd \<Rightarrow> pubkey \<Rightarrow> int \<Rightarrow> (ctl_error, cert) res" where
  "delegateUser x h sign_cert fs r c to lifetime =
     (let cs = (if cc_Read c then [Read] else []) @ (if cc_Write c then [Write] else [])
      in if length cs = 0 then Err CtlNoCapability
         else res_bind (map_err CtlMaster (acl_Open x fs (MasterCert r))) (\<lambda>a.
              res_bind (map_err CtlAccess (LoadAdmin (h_glob h) (x_Fingerprint x) (nat (unix (h_now h)))
                  (LoadCertificate (h_check h) (parse_cert x fs)) (h_iter h) (AdminCerts fs r) a)) (\<lambda>(warnings, a).
              res_bind (map_err CtlAccess (FindAgent (h_glob h) (x_Fingerprint x) (nat (unix (h_now h))) a (h_keys h)
                  (\<lambda>k. h_agent h k \<noteq> None) (cc_Path c) cs)) (\<lambda>signer.
                map_err CtlAccess (DelegateUser (h_check h) sign_cert (h_now h) signer to cs (cc_Path c) (cc_User c) lifetime)))))"

definition delegateAdmin ::
    "crypto \<Rightarrow> host \<Rightarrow> (pubkey \<Rightarrow> cert \<Rightarrow> cert option) \<Rightarrow> fs \<Rightarrow> repository \<Rightarrow> cert_cmd \<Rightarrow> pubkey \<Rightarrow> int \<Rightarrow> (ctl_error, cert) res" where
  "delegateAdmin x h sign_cert fs r c to lifetime =
     (let cs = (if cc_Read c then [ManageReaders] else []) @ (if cc_Write c then [ManageWriters] else [])
      in if length cs = 0 then Err CtlNoCapability
         else res_bind (map_err CtlMaster (master_Open x (h_agent h) fs (MasterCert r))) (\<lambda>m.
                map_err CtlAccess (DelegateAdmin (h_check h) sign_cert (h_now h) (sg_PublicKey (mk_signer m)) to cs
                  (cc_Path c) (cc_Admin c) lifetime)))"

definition save_cert_result ::
    "host \<Rightarrow> (string \<Rightarrow> string list) \<Rightarrow> (cert \<Rightarrow> bytes) \<Rightarrow> repository \<Rightarrow> fs \<Rightarrow> (ctl_error, cert) res \<Rightarrow> (fs \<times> (ctl_error, string) res) option" where
  "save_cert_result h glob marshal r fs made =
     (case made of
        Panic \<Rightarrow> Some (fs, Panic)
      | Err e \<Rightarrow> Some (fs, Err e)
      | Ok c \<Rightarrow> map_option (\<lambda>(fs, out). (fs, map_err CtlRepo out)) (saveCert (h_fuel h) (h_check h) glob marshal r c fs))"

definition CertCmd_Run ::
    "crypto \<Rightarrow> host \<Rightarrow> (pubkey \<Rightarrow> cert \<Rightarrow> cert option) \<Rightarrow> (string \<Rightarrow> string list) \<Rightarrow> (cert \<Rightarrow> bytes) \<Rightarrow> (string \<Rightarrow> int option) \<Rightarrow>
     cert_cmd \<Rightarrow> fs \<Rightarrow> (fs \<times> (ctl_error, string) res) option" where
  "CertCmd_Run x h sign_cert glob marshal std c fs =
     (case res_bind (map_err CtlMaster (LoadPublicKey x fs (path_Abs (h_cwd h) (cc_Key c)))) (\<lambda>to.
             res_bind (check_paths (cc_Path c)) (\<lambda>_.
             res_bind (map_err CtlDuration (ParseDuration std (cc_Expires c))) (\<lambda>lifetime. Ok (to, lifetime)))) of
        Err e \<Rightarrow> Some (fs, Err e)
      | Panic \<Rightarrow> Some (fs, Panic)
      | Ok (to, lifetime) \<Rightarrow>
          Option.bind (repo_Open (h_fuel h) (h_cwd h) fs ''.'') (\<lambda>opened.
            case opened of
              Err e \<Rightarrow> Some (fs, Err (CtlRepo e))
            | Panic \<Rightarrow> Some (fs, Panic)
            | Ok r \<Rightarrow>
                if cc_User c \<noteq> [] then save_cert_result h glob marshal r fs (delegateUser x h sign_cert fs r c to lifetime)
                else if cc_Admin c \<noteq> [] then save_cert_result h glob marshal r fs (delegateAdmin x h sign_cert fs r c to lifetime)
                else Some (fs, Err CtlNoClass)))"

definition InitCmd_Run :: "crypto \<Rightarrow> host \<Rightarrow> bytes \<Rightarrow> string \<Rightarrow> fs \<Rightarrow> fs \<times> (ctl_error, repository) res" where
  "InitCmd_Run x h seed pubkey fs =
     (case res_bind (map_err CtlMaster (LoadPublicKey x fs (path_Abs (h_cwd h) pubkey))) (\<lambda>key.
             case h_agent h key of
               None \<Rightarrow> Err (CtlMaster AgentFailed)
             | Some sg \<Rightarrow> map_err CtlMaster (master_NewCertificate x seed (h_now h) sg)) of
        Err e \<Rightarrow> (fs, Err e)
      | Panic \<Rightarrow> (fs, Panic)
      | Ok c \<Rightarrow> (case Create x (h_cwd h) ''.'' c fs of (fs', out) \<Rightarrow> (fs', map_err CtlRepo out)))"

section \<open>What a successful set has done\<close>

lemma prepare_value_Ok:
  assumes "prepare_value x h rn fs r path val lifetime = Ok v"
  obtains master key sg v0 v1 where
    "master_LoadCertificate x fs (MasterCert r) = Ok master" "h_agent h key = Some sg"
    "v_Path v0 = [path]" "Encrypt x (rn_nonce rn) (rn_seed rn) (rn_padding rn) master val v0 = Ok v1"
    "value_Sign (rn_sig rn) (rn_signer rn) sg v1 = Ok v"
    "v_Created v0 = unix (h_now h)" "v_Expires v0 = unix (h_now h + lifetime)"
proof -
  let ?v = "\<lparr>v_Path = [path], v_Created = unix (h_now h), v_Expires = unix (h_now h + lifetime), v_Signer = None,
    v_blob = [], v_signature = []\<rparr>"
  from assms obtain master key sg v1 where "master_LoadCertificate x fs (MasterCert r) = Ok master" "h_agent h key = Some sg"
    "Encrypt x (rn_nonce rn) (rn_seed rn) (rn_padding rn) master val ?v = Ok v1" "value_Sign (rn_sig rn) (rn_signer rn) sg v1 = Ok v"
    by (auto simp: prepare_value_def Let_def split: option.splits)
  then show thesis using that [of master key sg ?v v1] by simp
qed

lemma secretctl_set_Ok:
  assumes "secretctl_set x h rn path val lifetime fs = Some (fs', Ok out)"
  obtains r v where "repo_Open (h_fuel h) (h_cwd h) fs ''.'' = Some (Ok r)"
    "prepare_value x h rn fs r path val lifetime = Ok v" "saveValue x r v fs = (fs', Ok out)"
proof -
  from assms obtain opened where o1: "repo_Open (h_fuel h) (h_cwd h) fs ''.'' = Some opened"
    by (auto simp: secretctl_set_def)
  show thesis
  proof (cases opened)
    case (Ok r)
    show thesis
    proof (cases "prepare_value x h rn fs r path val lifetime")
      case Ok2: (Ok v)
      then have "saveValue x r v fs = (fs', Ok out)"
        using assms o1 Ok by (cases "saveValue x r v fs") (simp add: secretctl_set_def)
      with that Ok2 o1 Ok show thesis by simp
    qed (use assms o1 Ok in \<open>simp_all add: secretctl_set_def\<close>)
  qed (use assms o1 in \<open>simp_all add: secretctl_set_def\<close>)
qed

lemma saved_secret_served:
  assumes x: "box_law x" "signer_ok x sg" and len: "length nonce = 24" "length padding = 1 + paddingMaxBytes"
      "length random = sigNonceBytes" "length plaintext \<le> MaxValueBytes"
    and r: "repo_ok rs r" "\<forall>c \<in> set ds. normal c" "normal n"
    and v0: "v_Path v0 = [abs_path (ds @ [n])]" "field_ok (abs_path (ds @ [n]))" "year_ok (v_Created v0)" "year_ok (v_Expires v0)"
    and key: "NewKey x msg master = Ok mk"
    and steps: "Encrypt x nonce seed padding master plaintext v0 = Ok v1" "value_Sign random rnd sg v1 = Ok v2"
      "saveValue x r v2 fs = (fs', Ok out)"
    and allowed: "AllowedRead (x_Fingerprint x) now a client = (abs_path ds @ ''/'') # dirs"
  shows "handleAPI x now fs' r a mk client (Query [n]) = Ok \<lparr>rs_Secrets = [(n, plaintext)], rs_Errors = []\<rparr>"
proof -
  have v1: "Decrypt x mk v1 = Ok plaintext" "v_Path v1 = v_Path v0" "v_Created v1 = v_Created v0" "v_Expires v1 = v_Expires v0"
    "length (v_blob v1) \<le> length plaintext + 200"
    using Decrypt_Encrypt [OF x(1) key len(1,2,4), of seed v0] steps(1) by auto
  have sl: "signer_law x sg" "parse_law x (sg_PublicKey sg)" using x(2) by (simp_all add: signer_ok_def)
  note sg = Verify_Sign [OF sl(1) len(3) steps(2)]
  have "value_ok x (sg_PublicKey sg) v2"
    by (rule value_ok_Sign [OF x(2) len(3) steps(2)]) (use v0 v1 len(4) in \<open>simp_all add: MaxValueBytes_def\<close>)
  from Deserialize_Serialize [OF this sg(1) sl(2)] obtain tx where tx: "Serialize x v2 = Ok tx" "Deserialize x tx = Ok v2" by blast
  have path: "v_Path v2 = [abs_path (ds @ [n])]" using sg(2) v1(2) v0(1) by simp
  note s = saveValue_single [OF r path tx(1) steps(3)]
  have f: "secret_file (repo_root r) (abs_path ds) (n @ ext) = out" using secret_file_abs [OF r] s(1) by simp
  have "Search x fs' r n ((abs_path ds @ ''/'') # dirs) = load_found x fs' out"
    using Search_first [OF r(1,2) normal_nonempty [OF r(3)], of fs' _ x dirs] f s(2) by simp
  then have "Search x fs' r n ((abs_path ds @ ''/'') # dirs) = Ok v2"
    using s(2) tx(2) by (simp add: load_found_def value_Load_def ReadFile_def Stat_def)
  moreover have "Decrypt x mk v2 = Ok plaintext" using v1(1) sg(5) by (simp add: Decrypt_def)
  ultimately show ?thesis
    by (simp add: handleAPI_single allowed answer_found)
qed

section \<open>An example\<close>

text \<open>
  A repository with a master key, an administrator and a user, in which the administrator stores a
  secret with \<open>secretctl set\<close> and on which the server is then started.
\<close>

abbreviation e2e_repo :: repository where "e2e_repo \<equiv> \<lparr>repo_root = ''/r''\<rparr>"

definition e2e_master_cert :: mcert where
  "e2e_master_cert =
     \<lparr>cert_Key = demo_master, KeyId = b64_encode (replicate 32 2), ValidPrincipals = [], CriticalOptions = [masterTag], Serial = 0,
      cert_ValidAfter = 0, cert_ValidBefore = 1000, cert_SignatureKey = Some demo_master, cert_Reserved = replicate 64 0\<rparr>"

definition e2e_crypto :: crypto where
  "e2e_crypto = demo_crypto
     \<lparr>x_ParseAuthorizedKey := (\<lambda>b.
        if b = [77] then Some (demo_master, Some e2e_master_cert)
        else if b = [65] then Some (demo_admin, Some (cert.extend demo_admin_cert (mcert.fields [])))
        else if b = [85] then Some (demo_user, Some (cert.extend demo_user_cert (mcert.fields [])))
        else if b = [1] then Some (demo_master, None) else if b = [2] then Some (demo_admin, None) else None),
      x_MarshalAuthorizedKey := key_Marshal, x_Verify := (\<lambda>k _ s. s = (key_Type k, [7])), x_Fingerprint := key_Type\<rparr>"

definition e2e_signer :: "pubkey \<Rightarrow> signer" where
  "e2e_signer k = \<lparr>sg_PublicKey = k, sg_Sign = (\<lambda>_ _. Ok (key_Type k, [7]))\<rparr>"

definition e2e_host :: host where
  "e2e_host =
     \<lparr>h_cwd = ''/r'', h_fuel = 2, h_now = 100000000000, h_glob = glob_match, h_check = (\<lambda>_ _ _. True), h_iter = id,
      h_keys = Some [demo_admin],
      h_agent = (\<lambda>k. if k = demo_admin \<or> k = demo_master then Some (e2e_signer k) else None)\<rparr>"

definition e2e_rand :: randomness where
  "e2e_rand = \<lparr>rn_nonce = replicate 24 0, rn_seed = [], rn_padding = replicate 65 5, rn_sig = replicate 64 0, rn_signer = []\<rparr>"

definition e2e_fs :: fs where
  "e2e_fs =
    [(''/r'', Directory), (''/r/access'', Directory), (''/r/secrets'', Directory), (''/r/access/master.cert'', File [77]),
     (''/r/access/admin'', Directory), (''/r/access/user'', Directory), (''/r/access/admin/a.01.cert'', File [65]),
     (''/r/access/user/u.01.cert'', File [85])]"

definition e2e_saved :: "string \<Rightarrow> fs" where
  "e2e_saved tx = [(''/r/secrets/srv/k.x'', File (bytes_of tx)), (''/r/secrets/srv'', Directory)] @ e2e_fs"

lemma e2e_laws: "box_law e2e_crypto" "signer_ok e2e_crypto (e2e_signer demo_admin)" "signer_ok e2e_crypto (e2e_signer demo_master)"
  by (simp_all add: box_law_def e2e_crypto_def demo_crypto_def signer_ok_def signer_law_def e2e_signer_def parse_law_def
      demo_admin_def demo_master_def signer_field_def field_ok_def blanks_def newline_def)

lemma e2e_fields: "x_Fingerprint e2e_crypto = key_Type" "h_cwd e2e_host = ''/r''" "h_fuel e2e_host = 2" "unix (h_now e2e_host) = 100"
  "h_glob e2e_host = glob_match" "h_check e2e_host = (\<lambda>_ _ _. True)" "h_iter e2e_host = id" "h_keys e2e_host = Some [demo_admin]"
  "h_agent e2e_host = (\<lambda>k. if k = demo_admin \<or> k = demo_master then Some (e2e_signer k) else None)"
  by (simp_all add: e2e_crypto_def e2e_host_def unix_def)

lemma e2e_paths:
  "path_Join [''/r'', accessDir, masterFile @ certExt] = ''/r/access/master.cert''"
  "path_Join [''/r'', accessDir] = ''/r/access''" "path_Join [''/r'', secretsDir] = ''/r/secrets''"
  "path_Join [''/r'', accessDir, adminDir] = ''/r/access/admin''" "path_Join [''/r'', accessDir, usersDir] = ''/r/access/user''"
  "path_Join [''/r/access/admin'', ''a.01.cert''] = ''/r/access/admin/a.01.cert''"
  "path_Join [''/r/access/user'', ''u.01.cert''] = ''/r/access/user/u.01.cert''"
  "path_Join [''/r'', secretsDir, ''/srv/k'' @ ext] = ''/r/secrets/srv/k.x''"
  "path_Abs ''/r'' ''.'' = ''/r''" "path_Dir ''/r/secrets/srv/k.x'' = ''/r/secrets/srv''" "path_Dir ''/srv/k'' = ''/srv''"
  by code_simp+

lemma e2e_lookup:
  assumes "fs = e2e_fs \<or> fs = e2e_saved tx"
  shows "lookup fs ''/r/access'' = Some Directory" "lookup fs ''/r/secrets'' = Some Directory"
    "lookup fs ''/r/access/master.cert'' = Some (File [77])" "lookup fs ''/r/access/admin'' = Some Directory"
    "lookup fs ''/r/access/user'' = Some Directory" "lookup fs ''/r/access/admin/a.01.cert'' = Some (File [65])"
    "lookup fs ''/r/access/user/u.01.cert'' = Some (File [85])"
  using assms by (auto simp: lookup_def e2e_saved_def e2e_fs_def)

lemma e2e_open:
  assumes "fs = e2e_fs \<or> fs = e2e_saved tx"
  shows "repo_Open 2 ''/r'' fs ''.'' = Some (Ok e2e_repo)"
proof -
  have "is_root fs ''/r''"
    using e2e_lookup [OF assms] by (simp add: is_root_def is_dir_def e2e_paths Stat_def del: path_Join.simps)
  then show ?thesis by (simp add: repo_Open_def findRoot_def e2e_paths numeral_2_eq_2)
qed

lemma e2e_readdir:
  assumes "fs = e2e_fs \<or> fs = e2e_saved tx"
  shows "AdminCerts fs e2e_repo = [''/r/access/admin/a.01.cert'']" "UserCerts fs e2e_repo = [''/r/access/user/u.01.cert'']"
proof -
  have k: "map fst fs = map fst e2e_fs \<or> map fst fs = map fst (e2e_saved [])"
    using assms by (auto simp: e2e_saved_def)
  have a: "sort (remdups (map (\<lambda>k. snd (path_Split k)) (filter (\<lambda>k. k \<noteq> ''/'' \<and> path_Dir k = ''/r/access/admin'') (map fst fs)))) = [''a.01.cert'']"
    "sort (remdups (map (\<lambda>k. snd (path_Split k)) (filter (\<lambda>k. k \<noteq> ''/'' \<and> path_Dir k = ''/r/access/user'') (map fst fs)))) = [''u.01.cert'']"
    using k by (elim disjE; simp only: ; code_simp)+
  have "ReadDir ''/r/access/admin'' fs = Ok [''a.01.cert'']" "ReadDir ''/r/access/user'' fs = Ok [''u.01.cert'']"
    using a e2e_lookup [OF assms] by (simp_all add: ReadDir_def Stat_def)
  then show "AdminCerts fs e2e_repo = [''/r/access/admin/a.01.cert'']" "UserCerts fs e2e_repo = [''/r/access/user/u.01.cert'']"
    by (simp_all add: AdminCerts_def UserCerts_def listCerts_def e2e_paths HasSuffix_def certExt_def suffix_def del: path_Join.simps)
qed

lemma e2e_load_file:
  assumes "fs = e2e_fs \<or> fs = e2e_saved tx"
  shows "master_LoadCertificate e2e_crypto fs (MasterCert e2e_repo) = Ok e2e_master_cert"
    "LoadCertificate (\<lambda>_ _ _. True) (parse_cert e2e_crypto fs) ''/r/access/admin/a.01.cert'' = Ok demo_admin_cert"
    "LoadCertificate (\<lambda>_ _ _. True) (parse_cert e2e_crypto fs) ''/r/access/user/u.01.cert'' = Ok demo_user_cert"
proof -
  note f = e2e_lookup [OF assms]
  have u: "util_LoadCertificate e2e_crypto fs ''/r/access/master.cert'' = Ok e2e_master_cert"
    "parse_cert e2e_crypto fs ''/r/access/admin/a.01.cert'' = Some demo_admin_cert"
    "parse_cert e2e_crypto fs ''/r/access/user/u.01.cert'' = Some demo_user_cert"
    by (simp_all add: util_LoadCertificate_def parse_cert_def parse_key_file_def ReadFile_def Stat_def f e2e_crypto_def cert.defs mcert.defs)
  have "master_Validate e2e_crypto None e2e_master_cert = Ok ()"
    by (simp add: master_Validate_def e2e_master_cert_def e2e_crypto_def demo_crypto_def EqualSSH_def sha512_Size_def masterTag_def b64_encode_nonempty)
  with u show "master_LoadCertificate e2e_crypto fs (MasterCert e2e_repo) = Ok e2e_master_cert"
    by (simp add: master_LoadCertificate_def MasterCert_def e2e_paths del: path_Join.simps)
  have "cert_Validate (\<lambda>_ _ _. True) demo_admin_cert = Ok ()" "cert_Validate (\<lambda>_ _ _. True) demo_user_cert = Ok ()"
    by code_simp+
  then show "LoadCertificate (\<lambda>_ _ _. True) (parse_cert e2e_crypto fs) ''/r/access/admin/a.01.cert'' = Ok demo_admin_cert"
    "LoadCertificate (\<lambda>_ _ _. True) (parse_cert e2e_crypto fs) ''/r/access/user/u.01.cert'' = Ok demo_user_cert"
    using u by (simp_all add: LoadCertificate_def)
qed

lemma e2e_acl:
  assumes "fs = e2e_fs \<or> fs = e2e_saved tx"
  shows "load_acl e2e_crypto e2e_host fs e2e_repo = Ok \<lparr>acl_master = demo_master, acl_db = demo_rows\<rparr>"
proof -
  have "acl_Load glob_match key_Type 100 (LoadCertificate (\<lambda>_ _ _. True) (parse_cert e2e_crypto fs)) id
      [''/r/access/admin/a.01.cert''] [''/r/access/user/u.01.cert''] \<lparr>acl_master = demo_master, acl_db = []\<rparr> =
      Ok ([], \<lparr>acl_master = demo_master, acl_db = demo_rows\<rparr>)"
    using e2e_load_file [OF assms] demo_rows_of demo_valid
    by (simp add: acl_Load_def LoadAdmin_def LoadUser_def loadCerts_def demo_rows_def caps_def)
  moreover have "cert_Key e2e_master_cert = demo_master" by (simp add: e2e_master_cert_def)
  ultimately show ?thesis
    using e2e_load_file(1) [OF assms] e2e_readdir [OF assms]
    by (simp add: load_acl_def acl_Open_def e2e_fields)
qed

lemma e2e_key: "NewKey e2e_crypto (e2e_signer demo_master) e2e_master_cert = Ok \<lparr>mk_signer = e2e_signer demo_master, mk_seed = replicate 64 0\<rparr>"
proof -
  have "SendTo e2e_master_cert = Some (replicate 32 2)"
    by (simp add: SendTo_def e2e_master_cert_def copy_array_def)
  moreover have "boxKey e2e_crypto (e2e_signer demo_master) (replicate 64 0) = Ok (replicate 32 2, replicate 32 1)"
    by (simp add: boxKey_def sha512_Size_def e2e_signer_def derivePublicKey_def e2e_crypto_def demo_crypto_def)
  moreover have "master_Validate e2e_crypto (Some demo_master) e2e_master_cert = Ok ()"
    by (simp add: master_Validate_def e2e_master_cert_def e2e_crypto_def demo_crypto_def EqualSSH_def sha512_Size_def masterTag_def b64_encode_nonempty)
  ultimately show ?thesis by (simp add: NewKey_def e2e_signer_def e2e_master_cert_def)
qed

lemma e2e_allowed: "AllowedRead key_Type 100 \<lparr>acl_master = demo_master, acl_db = demo_rows\<rparr> demo_user = [''/srv/'']"
  by code_simp

lemma e2e_agent:
  "FindAgent glob_match key_Type 100 \<lparr>acl_master = demo_master, acl_db = demo_rows\<rparr> (Some [demo_admin])
     (\<lambda>k. (if k = demo_admin \<or> k = demo_master then Some (e2e_signer k) else None) \<noteq> None) [''/srv''] [Write] = Ok demo_admin"
  by code_simp

lemma e2e_year: "year_ok 100"
  by (rule year_okI) simp_all

lemma e2e_prepare:
  obtains v tx where "prepare_value e2e_crypto e2e_host e2e_rand e2e_fs e2e_repo ''/srv/k'' [1, 2, 3] 0 = Ok v"
    "v_Path v = [''/srv/k'']" "Serialize e2e_crypto v = Ok tx"
proof -
  let ?v = "\<lparr>v_Path = [''/srv/k''], v_Created = 100, v_Expires = 100, v_Signer = None, v_blob = [], v_signature = []\<rparr>"
  let ?sg = "e2e_signer demo_admin"
  have nonce: "length (replicate 64 (0 :: byte)) = sigNonceBytes" by (simp add: sigNonceBytes_def)
  obtain v1 where v1: "Encrypt e2e_crypto (replicate 24 0) [] (replicate 65 5) e2e_master_cert [1, 2, 3] ?v = Ok v1"
    "v_Path v1 = v_Path ?v" "v_Created v1 = v_Created ?v" "v_Expires v1 = v_Expires ?v" "length (v_blob v1) \<le> 203"
    using Decrypt_Encrypt [OF e2e_laws(1) e2e_key, of "replicate 24 0" "replicate 65 5" "[1, 2, 3]" "[]" ?v]
    by (auto simp: paddingMaxBytes_def MaxValueBytes_def)
  obtain w where w: "value_Sign (replicate 64 0) [] ?sg v1 = Ok w"
    by (simp add: value_Sign_def e2e_signer_def expectedFormat_def sigFormat_def demo_admin_def)
  have sl: "signer_law e2e_crypto ?sg" "parse_law e2e_crypto (sg_PublicKey ?sg)" using e2e_laws(2) by (simp_all add: signer_ok_def)
  note sg = Verify_Sign [OF sl(1) nonce w]
  have "field_ok ''/srv/k''" by (simp add: field_ok_def blanks_def newline_def)
  then have "value_ok e2e_crypto (sg_PublicKey ?sg) w"
    by (intro value_ok_Sign [OF e2e_laws(2) nonce w]) (use v1 e2e_year in simp_all)
  from Deserialize_Serialize [OF this sg(1) sl(2)] obtain tx where tx: "Serialize e2e_crypto w = Ok tx" by blast
  have "prepare_value e2e_crypto e2e_host e2e_rand e2e_fs e2e_repo ''/srv/k'' [1, 2, 3] 0 = Ok w"
    using v1(1) w e2e_load_file(1) [of e2e_fs] e2e_acl [of e2e_fs] e2e_agent
    by (simp add: prepare_value_def Let_def e2e_fields e2e_rand_def e2e_paths)
  then show thesis using that [of w tx] tx sg(2) v1(2) by simp
qed

lemma e2e_save:
  assumes "v_Path v = [''/srv/k'']" "Serialize e2e_crypto v = Ok tx"
  shows "saveValue e2e_crypto e2e_repo v e2e_fs = (e2e_saved tx, Ok ''/r/secrets/srv/k.x'')"
proof -
  have j: "path_Join [''/r'', secretsDir, ''/srv/k'' @ ext] = ''/r/secrets/srv/k.x''" by (rule e2e_paths)
  have "ancestors ''/r/secrets/srv'' = [''/'', ''/r'', ''/r/secrets'']" by code_simp
  then have "MkdirAll ''/r/secrets/srv'' e2e_fs = Ok ((''/r/secrets/srv'', Directory) # e2e_fs)"
    by (simp add: MkdirAll_def lookup_def e2e_fs_def)
  moreover have "WriteFile ''/r/secrets/srv/k.x'' (bytes_of tx) ((''/r/secrets/srv'', Directory) # e2e_fs) = Ok (e2e_saved tx)"
    by (simp add: WriteFile_def lookup_def parent_dir_def Stat_def e2e_paths e2e_saved_def) (simp add: e2e_fs_def)
  ultimately show ?thesis
    unfolding saveValue_def assms res.case save_paths.simps repository.simps j
    by (simp add: e2e_paths os_step_def Let_def)
qed

lemma e2e_set:
  obtains tx where "secretctl_set e2e_crypto e2e_host e2e_rand ''/srv/k'' [1, 2, 3] 0 e2e_fs =
    Some (e2e_saved tx, Ok ''/r/secrets/srv/k.x'')"
proof -
  from e2e_prepare obtain v tx where v: "prepare_value e2e_crypto e2e_host e2e_rand e2e_fs e2e_repo ''/srv/k'' [1, 2, 3] 0 = Ok v"
    "v_Path v = [''/srv/k'']" "Serialize e2e_crypto v = Ok tx" by blast
  show thesis
    by (rule that [of tx]) (simp add: secretctl_set_def e2e_fields e2e_open [of e2e_fs] v(1) e2e_save [OF v(2,3)])
qed

definition e2e_server :: server where
  "e2e_server = \<lparr>sv_proto = ''tcp'', sv_addr = ''h:22'', sv_acl = \<lparr>acl_master = demo_master, acl_db = demo_rows\<rparr>, sv_repo = e2e_repo,
     sv_master = \<lparr>mk_signer = e2e_signer demo_master, mk_seed = replicate 64 0\<rparr>\<rparr>"

lemma e2e_New: "server_New e2e_crypto e2e_host (e2e_saved tx) ''ssh'' ''h:22'' [] ''.'' = Some (Ok e2e_server)"
proof -
  have "cert_Key e2e_master_cert = demo_master" by (simp add: e2e_master_cert_def)
  then show ?thesis
    using e2e_open [of "e2e_saved tx" tx] e2e_acl [of "e2e_saved tx" tx] e2e_load_file(1) [of "e2e_saved tx" tx] e2e_key
    by (simp add: server_New_def listen_address_def e2e_fields master_Open_def e2e_server_def)
qed

end
