(* ===== verification/NbdServer.thy ===== *)
theory NbdServer
  imports Cache Transmit
begin

text \<open>
  The NBD server over the cache (\<open>src/nbd/server/server.go\<close> and \<open>Cache.ReadAt\<close> as its backend): the
  phases of a connection, the accept loop, the shutdown, and the refinement of the remote object.
\<close>

section \<open>The cache as a backend\<close>

text \<open>
  \<open>Cache.ReadAt\<close> once its channel is closed, as the server sees it: the bytes delivered, and whether
  an error accompanies them.  \<open>os.File.ReadAt\<close> reports \<open>io.EOF\<close> with every short read.
\<close>

definition cache_ReadAt :: "cache \<Rightarrow> backend" where
  "cache_ReadAt ca len off =
     (case ReadAt_data (int len) off ca of
        None \<Rightarrow> ([], True)
      | Some d \<Rightarrow> (d, length d < min len (nat chunkSize)))"

text \<open>A cache whose local file holds the object serves every read of it.\<close>

interpretation cached: reader_at "\<lambda>_. cache_ReadAt ca" "ca_local ca" for ca
proof
  fix len and off :: int and k :: nat
  show "length (fst (cache_ReadAt ca len off)) \<le> len"
    by (auto simp: cache_ReadAt_def ReadAt_data_def split: option.splits)
  assume "0 < len" "0 \<le> off" "off < int (length (ca_local ca))"
  moreover from this have "take (nat (min (int len) chunkSize)) (drop (nat off) (ca_local ca)) \<noteq> []"
    by (simp add: chunkSize_def) linarith
  moreover have "prefix (take (nat (min (int len) chunkSize)) xs) (take len xs)" for xs :: bytes
    using take_is_prefix [of "nat (min (int len) chunkSize)" "take len xs"] by (simp add: min_def split: if_splits)
  ultimately show "fst (cache_ReadAt ca len off) \<noteq> [] \<and>
      prefix (fst (cache_ReadAt ca len off)) (take len (drop (nat off) (ca_local ca)))"
    by (simp add: cache_ReadAt_def ReadAt_data_def)
qed

section \<open>Reads in blocks\<close>

definition aligned :: "reader \<Rightarrow> bool" where
  "aligned r \<longleftrightarrow> (rd_cur r < rd_end r \<longrightarrow> rd_cur r mod int buffer_Size = 0 \<and> rd_buf r = buffer_Size)"

text \<open>
  The contract of a backend that serves aligned reads of at most one buffer completely.  The handler
  only issues such reads when the request starts at a multiple of the buffer's size.
\<close>

locale block_reader =
  fixes ReadAt :: "nat \<Rightarrow> backend" and object :: bytes
  assumes full: "0 < len \<Longrightarrow> len \<le> buffer_Size \<Longrightarrow> 0 \<le> off \<Longrightarrow> off mod int buffer_Size = 0 \<Longrightarrow>
      off + int len \<le> int (length object) \<Longrightarrow> fst (ReadAt k len off) = take len (drop (nat off) object)"
begin

lemma round_block:
  assumes "served object cookie start r" and "aligned r" and "rd_cur r < rd_end r"
  shows "\<exists>r'. read_round cookie (ReadAt k) r = Inr r' \<and> served object cookie start r' \<and> aligned r' \<and>
    rd_end r' = rd_end r \<and> rd_cur r < rd_cur r'"
proof -
  define buf where "buf = (if rd_end r - rd_cur r < int (rd_buf r) then nat (rd_end r - rd_cur r) else rd_buf r)"
  let ?cur = "nat (rd_cur r)"
  note sv = assms(1) [unfolded served_def]
  have al: "rd_cur r mod int buffer_Size = 0" "rd_buf r = buffer_Size" using assms(2,3) by (simp_all add: aligned_def)
  have buf: "0 < buf" "buf \<le> buffer_Size" "rd_cur r + int buf \<le> rd_end r"
    using sv assms(3) al(2) by (auto simp: buf_def)
  obtain data ioerr where ra: "ReadAt k buf (rd_cur r) = (data, ioerr)" by fastforce
  have data: "data = take buf (drop ?cur object)"
    using full [OF buf(1,2) _ al(1), of k] sv buf(3) ra by simp
  have len: "length data = buf" "data \<noteq> []"
    using data buf sv by (auto simp: nat_le_iff)
  define r' where "r' = \<lparr>rd_cur = rd_cur r + int (length data), rd_end = rd_end r, rd_buf = buf, rd_in = True,
    rd_errs = (if ioerr then rd_errs r else 0), rd_out = rd_out r @ (if rd_in r then [] else replyHeader 0 cookie) @ data\<rparr>"
  have rr: "read_round cookie (ReadAt k) r = Inr r'"
    using len(2) by (simp add: read_round_def buf_def [symmetric] ra Let_def r'_def)
  have step: "take (?cur + buf - start) (drop start object) = take (?cur - start) (drop start object) @ data"
  proof -
    have e: "?cur + buf - start = (?cur - start) + buf" "?cur - start + start = ?cur" using sv by linarith+
    show ?thesis unfolding e(1) take_add by (simp add: e(2) data)
  qed
  have "served object cookie start r'"
    unfolding served_def using sv buf len step by (auto simp: r'_def nat_add_distrib)
  moreover have "aligned r'"
    using al len by (auto simp: aligned_def r'_def buf_def mod_add_right_eq split: if_splits)
  ultimately show ?thesis using rr len by (auto simp: r'_def)
qed

lemma loop_block:
  "served object cookie start r \<Longrightarrow> aligned r \<Longrightarrow> start < nat (rd_end r) \<Longrightarrow> nat (rd_end r - rd_cur r) < fuel \<Longrightarrow>
   read_loop fuel cookie ReadAt k r = Some (replyHeader 0 cookie @ take (nat (rd_end r) - start) (drop start object))"
proof (induction fuel arbitrary: k r)
  case 0
  then show ?case by simp
next
  case (Suc fuel)
  show ?case
  proof (cases "rd_cur r < rd_end r")
    case True
    from round_block [OF Suc.prems(1,2) True, of k] obtain r' where r': "read_round cookie (ReadAt k) r = Inr r'"
      "served object cookie start r'" "aligned r'" "rd_end r' = rd_end r" "rd_cur r < rd_cur r'" by blast
    moreover have "nat (rd_end r' - rd_cur r') < fuel" using r'(4,5) Suc.prems(4) True by linarith
    ultimately show ?thesis using Suc.IH [of r' "Suc k"] Suc.prems(3) True by simp
  next
    case False
    then have "rd_cur r = rd_end r" using Suc.prems(1) by (simp add: served_def)
    with Suc.prems show ?thesis by (auto simp: served_def)
  qed
qed

lemma handle_read_block:
  assumes "rq_Offset cmd mod buffer_Size = 0" "rq_Offset cmd + rq_Len cmd \<le> length object" "length object < 2 ^ 63"
    and "0 < rq_Len cmd" "rq_Len cmd < fuel"
  shows "handle_read fuel ReadAt cmd =
    Some (replyHeader 0 (rq_Cookie cmd) @ take (rq_Len cmd) (drop (rq_Offset cmd) object))"
proof -
  have lt: "rq_Offset cmd + rq_Len cmd < 2 ^ 63" using assms(2,3) by linarith
  note b = read_begin_in_range [OF lt]
  have bs: "rd_buf (read_begin cmd) = buffer_Size" by (simp add: read_begin_def Let_def)
  have s: "served object (rq_Cookie cmd) (rq_Offset cmd) (read_begin cmd)"
    using b assms(2) by (simp add: served_def) (simp add: read_begin_def Let_def buffer_Size_def)
  have "aligned (read_begin cmd)" using assms(1) b bs by (simp add: aligned_def zmod_int [symmetric])
  from loop_block [OF s this, of fuel 0] b assms(4,5) show ?thesis by (simp add: handle_read_def nat_add_distrib)
qed

end

interpretation cached_block: block_reader "\<lambda>_. cache_ReadAt ca" "ca_local ca" for ca
  by unfold_locales (simp add: cache_ReadAt_def ReadAt_data_def chunkSize_def buffer_Size_def min_def)

section \<open>Reads that wait for the cache\<close>

text \<open>
  Each call of \<open>ReadAt\<close> finds the cache in some reachable state, and answers in a later state in which
  the channel it has waited for is closed.
\<close>

definition answers_from_cache :: "(int \<Rightarrow> int \<Rightarrow> bytes) \<Rightarrow> bytes \<Rightarrow> (nat \<Rightarrow> backend) \<Rightarrow> bool" where
  "answers_from_cache Reader object ReadAt \<longleftrightarrow>
     (\<forall>k len off. 0 \<le> off \<longrightarrow> off < int (length object) \<longrightarrow>
        (\<exists>ca ready ca1 ca2. reach (cache_init object) (cache_next Reader object) ca \<and>
           ReadAt_wait off ca = Ok (ready, ca1) \<and> reach ((=) ca1) (cache_step Reader) ca2 \<and>
           ready \<in> set (cm_closed (ca_chunk ca2)) \<and> ReadAt k len off = cache_ReadAt ca2 len off))"

lemma answers_block_reader:
  assumes "serves_ranges get_object object" "object_fits object"
    and "answers_from_cache (minioRemote_Reader get_object (int (length object))) object ReadAt"
  shows "block_reader ReadAt object"
proof
  fix k len :: nat and off :: int
  assume a: "0 < len" "len \<le> buffer_Size" "0 \<le> off" "off mod int buffer_Size = 0" "off + int len \<le> int (length object)"
  then have lt: "off < int (length object)" by simp
  obtain ca ready ca1 ca2 where c:
    "reach (cache_init object) (cache_next (minioRemote_Reader get_object (int (length object))) object) ca"
    "ReadAt_wait off ca = Ok (ready, ca1)" "reach ((=) ca1) (cache_step (minioRemote_Reader get_object (int (length object)))) ca2"
    "ready \<in> set (cm_closed (ca_chunk ca2))" and r: "ReadAt k len off = cache_ReadAt ca2 len off"
    using assms(3) a(3) lt unfolding answers_from_cache_def by blast
  obtain q where q: "off = int buffer_Size * q" using a(4) by (auto simp: mod_eq_0_iff_dvd)
  have "off mod chunkSize + int len \<le> chunkSize"
  proof -
    have "chunkSize = int buffer_Size * 128" by (simp add: chunkSize_def buffer_Size_def)
    then have "off mod chunkSize = int buffer_Size * (q mod 128)" by (simp only: q mult_mod_right)
    moreover have "q mod 128 \<le> 127" by simp
    ultimately show ?thesis using a(2) by (simp add: chunkSize_def buffer_Size_def)
  qed
  from within_chunk_read [OF assms(1,2) c a(3) lt _ this] r
  show "fst (ReadAt k len off) = take len (drop (nat off) object)" by (simp add: cache_ReadAt_def)
qed
section \<open>One connection (serveNBD)\<close>

datatype serve_error = HandshakeError nbd_error | NegotiationError nbd_error

text \<open>
  The phases of a connection up to the start of the transmission, which then runs as \<open>trans_step\<close> on
  the rest of the input with the selected backend.
\<close>

definition serveNBD ::
    "(nat \<Rightarrow> bool) \<Rightarrow> (nat \<Rightarrow> bytes) \<Rightarrow> (string \<Rightarrow> 'b option) option \<Rightarrow> conn \<Rightarrow> (serve_error, 'b \<times> bytes \<times> transmission) res" where
  "serveNBD shutdown stale export c =
     (case handshake c of
        Panic \<Rightarrow> Panic
      | Err e \<Rightarrow> Err (HandshakeError e)
      | Ok c \<Rightarrow>
          (case negotiate shutdown stale export 0 c of
             (Panic, _) \<Rightarrow> Panic
           | (Err e, _) \<Rightarrow> Err (NegotiationError e)
           | (Ok backend, c) \<Rightarrow> Ok (backend, conn_out c, transmission_begin (conn_in c))))"

lemma handshake_accepts:
  "handshake \<lparr>conn_in = be_put 2 0 @ be_put 2 NBD_FLAG_FIXED_NEWSTYLE @ rest, conn_out = out\<rparr> = Ok \<lparr>conn_in = rest, conn_out = out @ hello\<rparr>"
  by (simp add: handshake_def send_def be.get_put_id NBD_FLAG_FIXED_NEWSTYLE_def)

lemma serveNBD_go:
  assumes "\<And>k. length (stale k) = buffer_Size" "\<And>k. \<not> shutdown k" "length (go_payload name infos) \<le> buffer_Size" "2 \<le> length infos"
    and "export name = Some b"
  shows "\<exists>out. serveNBD shutdown stale (Some export)
      \<lparr>conn_in = be_put 2 0 @ be_put 2 NBD_FLAG_FIXED_NEWSTYLE @ client_option NBD_OPT_GO (go_payload name infos) @ rest, conn_out = []\<rparr> =
    Ok (b, out, transmission_begin rest)"
proof -
  have "negotiate shutdown stale (Some export) 0 \<lparr>conn_in = client_option NBD_OPT_GO (go_payload name infos) @ rest, conn_out = hello\<rparr> =
    (Ok b, \<lparr>conn_in = rest, conn_out = hello @
       option_reply NBD_OPT_GO NBD_REP_INFO export_info @ option_reply NBD_OPT_GO NBD_REP_ACK []\<rparr>)"
    using negotiate_go [of stale 0 name infos shutdown export b, where c = "\<lparr>conn_in = [], conn_out = hello\<rparr>" and rest = rest] assms by simp
  then show ?thesis by (simp add: serveNBD_def handshake_accepts)
qed

text \<open>Reads are only started for commands of the client.\<close>

lemma reads_taken_step: "trans_step t t' \<Longrightarrow> set (t_reads t) \<subseteq> set (t_taken t) \<Longrightarrow> set (t_reads t') \<subseteq> set (t_taken t')"
  by (erule trans_step.cases)
    (auto simp: receive_command_def take_command_def discard_some_def Let_def split: if_splits main_state.splits option.splits action.splits)

lemma reads_are_commands:
  assumes cmds: "\<forall>c \<in> set cmds. request_ok c \<and> no_write c"
    and r: "reach ((=) (transmission_begin (concat (map encode_request cmds)))) trans_step t"
  shows "set (t_reads t) \<subseteq> set cmds"
proof -
  have "set (t_reads t) \<subseteq> set (t_taken t)" using r
    by (induction rule: reach.induct) (auto simp: transmission_begin_def dest: reads_taken_step)
  moreover have "in_order cmds t" by (rule invariant_system.reach_inv [OF transmission_in_order [OF cmds] r])
  ultimately show ?thesis by (auto simp: in_order_def)
qed

section \<open>The accept loop and shutdown\<close>

text \<open>
  One round of \<open>Listen\<close>: what the two contexts report, which of them \<open>select\<close> prefers when both are
  done, whether setting the deadline fails, and the outcome of \<open>Accept\<close>.
\<close>

datatype cancel_cause = ESHUTDOWN | OtherCause

datatype 'c accept_result = Accepted 'c | AcceptTimeout | AcceptFailed

record 'c listen_round =
  lr_soft :: "cancel_cause option"
  lr_strict :: "cancel_cause option"
  lr_prefer_soft :: bool
  lr_deadline_fails :: bool
  lr_accept :: "'c accept_result"

datatype listen_error = Cancelled cancel_cause | DeadlineError

definition listen_select :: "'c listen_round \<Rightarrow> cancel_cause option" where
  "listen_select r =
     (case (lr_soft r, lr_strict r) of
        (Some e, Some e') \<Rightarrow> Some (if lr_prefer_soft r then e else e')
      | (Some e, None) \<Rightarrow> Some e
      | (None, e) \<Rightarrow> e)"

text \<open>The connections handed to goroutines, and what \<open>Listen\<close> returns (\<open>None\<close>: it is still running).\<close>

fun Listen :: "'c listen_round list \<Rightarrow> 'c list \<times> (listen_error, unit) res option" where
  "Listen [] = ([], None)"
| "Listen (r # rs) =
     (case listen_select r of
        Some ESHUTDOWN \<Rightarrow> ([], Some (Ok ()))
      | Some e \<Rightarrow> ([], Some (Err (Cancelled e)))
      | None \<Rightarrow>
          if lr_deadline_fails r then ([], Some (Err DeadlineError))
          else (case lr_accept r of
              Accepted c \<Rightarrow> (case Listen rs of (cs, res) \<Rightarrow> (c # cs, res))
            | _ \<Rightarrow> Listen rs))"

text \<open>
  \<open>Shutdown\<close> beside the \<open>n\<close> listeners and the goroutines of the connections.  A listener looks at
  the contexts, and then waits in \<open>Accept\<close>; the goroutine of a connection is first started, then
  adds itself to the wait group, and leaves it at its end.
\<close>

datatype shutdown_phase = Running | Draining | Stopped

record nbd_server =
  ns_phase :: shutdown_phase
  ns_accepting :: nat
  ns_started :: nat
  ns_counted :: nat

definition server_begin :: nbd_server where
  "server_begin = \<lparr>ns_phase = Running, ns_accepting = 0, ns_started = 0, ns_counted = 0\<rparr>"

inductive server_step :: "nat \<Rightarrow> nbd_server \<Rightarrow> nbd_server \<Rightarrow> bool" for n where
  wait: "ns_phase s = Running \<Longrightarrow> ns_accepting s < n \<Longrightarrow> server_step n s (s\<lparr>ns_accepting := Suc (ns_accepting s)\<rparr>)"
| retry: "0 < ns_accepting s \<Longrightarrow> server_step n s (s\<lparr>ns_accepting := ns_accepting s - 1\<rparr>)"
| accept: "0 < ns_accepting s \<Longrightarrow> server_step n s (s\<lparr>ns_accepting := ns_accepting s - 1, ns_started := Suc (ns_started s)\<rparr>)"
| add: "0 < ns_started s \<Longrightarrow> server_step n s (s\<lparr>ns_started := ns_started s - 1, ns_counted := Suc (ns_counted s)\<rparr>)"
| leave: "0 < ns_counted s \<Longrightarrow> server_step n s (s\<lparr>ns_counted := ns_counted s - 1\<rparr>)"
| cancelSoft: "ns_phase s = Running \<Longrightarrow> server_step n s (s\<lparr>ns_phase := Draining\<rparr>)"
| drained: "ns_phase s = Draining \<Longrightarrow> ns_counted s = 0 \<Longrightarrow> server_step n s (s\<lparr>ns_phase := Stopped\<rparr>)"
| expired: "ns_phase s = Draining \<Longrightarrow> server_step n s (s\<lparr>ns_phase := Stopped\<rparr>)"

text \<open>
  The wait group does not cover an accepted connection: with a listener, and without the timeout,
  \<open>Shutdown\<close> can cancel everything while a connection is being served.
\<close>

lemma shutdown_misses_connection:
  "\<exists>s. reach ((=) server_begin) (server_step 1) s \<and> ns_phase s = Stopped \<and> ns_counted s = 1"
proof (intro exI conjI)
  let ?s = "\<lambda>p a m n. \<lparr>ns_phase = p, ns_accepting = a, ns_started = m, ns_counted = n\<rparr>"
  let ?r = "reach ((=) server_begin) (server_step 1)"
  have "?r (?s Running 0 0 0)" by (auto simp: server_begin_def)
  then have "?r (?s Running 1 0 0)" by (rule reach_step) (use server_step.wait [of "?s Running 0 0 0" 1] in simp)
  then have "?r (?s Running 0 1 0)" by (rule reach_step) (use server_step.accept [of "?s Running 1 0 0" 1] in simp)
  then have "?r (?s Draining 0 1 0)" by (rule reach_step) (use server_step.cancelSoft [of "?s Running 0 1 0" 1] in simp)
  then have "?r (?s Stopped 0 1 0)" by (rule reach_step) (use server_step.drained [of "?s Draining 0 1 0" 1] in simp)
  then show "?r (?s Stopped 0 0 1)" by (rule reach_step) (use server_step.add [of "?s Stopped 0 1 0" 1] in simp)
qed simp_all

section \<open>Properties\<close>

text \<open>
  C2. For aligned reads the server refines reading the remote object: a client that shakes hands,
  selects an export and sends only read requests that start at multiples of 64 KiB and lie inside the
  object gets, for every request the server starts to handle, under any scheduling of the server's
  goroutines and of the cache's fetches, exactly the object's bytes behind a success header.  It is
  assumed that every read of the backend finds the cache in a state it can reach, waits for its
  channel and does not fail.  Reads that cross a chunk at another offset can return data that was
  never fetched, as the theory \<open>Cache\<close> shows.
\<close>

theorem nbd_refines_object:
  assumes "serves_ranges get_object object" "object_fits object"
    and "export name = Some ReadAt" "answers_from_cache (minioRemote_Reader get_object (int (length object))) object ReadAt"
    and "\<And>k. length (stale k) = buffer_Size" "\<And>k. \<not> shutdown k" "length (go_payload name infos) \<le> buffer_Size" "2 \<le> length infos"
    and "\<forall>c \<in> set cmds. request_ok c \<and> no_write c \<and> rq_Offset c mod buffer_Size = 0 \<and> 0 < rq_Len c \<and> rq_Offset c + rq_Len c \<le> length object"
  shows "\<exists>out t. serveNBD shutdown stale (Some export)
      \<lparr>conn_in = be_put 2 0 @ be_put 2 NBD_FLAG_FIXED_NEWSTYLE @ client_option NBD_OPT_GO (go_payload name infos) @
         concat (map encode_request cmds), conn_out = []\<rparr> = Ok (ReadAt, out, t) \<and>
    (\<forall>t' cmd. reach ((=) t) trans_step t' \<longrightarrow> cmd \<in> set (t_reads t') \<longrightarrow>
       handle_read (Suc (rq_Len cmd)) ReadAt cmd =
         Some (replyHeader 0 (rq_Cookie cmd) @ take (rq_Len cmd) (drop (rq_Offset cmd) object)))"
proof -
  note br = answers_block_reader [OF assms(1,2,4)]
  have fits: "length object < 2 ^ 63" using assms(2) by (simp add: object_fits_def chunkSize_def)
  obtain out where out: "serveNBD shutdown stale (Some export)
      \<lparr>conn_in = be_put 2 0 @ be_put 2 NBD_FLAG_FIXED_NEWSTYLE @ client_option NBD_OPT_GO (go_payload name infos) @
         concat (map encode_request cmds), conn_out = []\<rparr> = Ok (ReadAt, out, transmission_begin (concat (map encode_request cmds)))"
    using serveNBD_go [where stale = stale and shutdown = shutdown and export = export, OF assms(5-8,3)] by blast
  have "handle_read (Suc (rq_Len cmd)) ReadAt cmd =
      Some (replyHeader 0 (rq_Cookie cmd) @ take (rq_Len cmd) (drop (rq_Offset cmd) object))"
    if r: "reach ((=) (transmission_begin (concat (map encode_request cmds)))) trans_step t'" and c: "cmd \<in> set (t_reads t')" for t' cmd
  proof -
    have "cmd \<in> set cmds" using reads_are_commands [OF _ r] assms(9) c by blast
    then show ?thesis using assms(9) fits by (intro block_reader.handle_read_block [OF br]) auto
  qed
  with out show ?thesis by blast
qed

text \<open>A backend for the example: every read finds the cache of two bytes with its chunk fetched.\<close>

lemma demo_answers: "answers_from_cache (demo_Reader [7, 8]) [7, 8] (\<lambda>_. cache_ReadAt (demo_fetched [7, 8]))"
  unfolding answers_from_cache_def
proof (intro allI impI)
  fix k :: nat and len and off :: int
  let ?ca = "demo_fetched [7, 8]"
  assume off: "0 \<le> off" "off < int (length [7, 8 :: byte])"
  have f: "object_fits [7, 8]" by (rule demo_fits) (simp add: chunkSize_def)
  have r: "reach (cache_init [7, 8]) (cache_next (demo_Reader [7, 8]) [7, 8]) ?ca" by (rule demo_reach [OF f]) simp
  have "off div chunkSize = 0" using off by (simp add: chunkSize_def)
  then have "ReadAt_wait off ?ca = Ok (0, ?ca)"
    using off demo_done(1) [of "[7, 8]"] by (auto simp: ReadAt_wait_def chunkSize_def chunk_check_def)
  moreover have "0 \<in> set (cm_closed (ca_chunk ?ca))" by (simp add: demo_fetched_def)
  ultimately show "\<exists>ca ready ca1 ca2. reach (cache_init [7, 8]) (cache_next (demo_Reader [7, 8]) [7, 8]) ca \<and>
      ReadAt_wait off ca = Ok (ready, ca1) \<and> reach ((=) ca1) (cache_step (demo_Reader [7, 8])) ca2 \<and>
      ready \<in> set (cm_closed (ca_chunk ca2)) \<and> cache_ReadAt ?ca len off = cache_ReadAt ca2 len off"
    using r reach_self [of ?ca "cache_step (demo_Reader [7, 8])"] by blast
qed

theorem nbd_refines_object_witness:
  "\<exists>out t. serveNBD (\<lambda>_. False) (\<lambda>_. replicate buffer_Size 0)
      (Some (\<lambda>name. if name = ''disk'' then Some (\<lambda>_ :: nat. cache_ReadAt (demo_fetched [7, 8])) else None))
      \<lparr>conn_in = be_put 2 0 @ be_put 2 NBD_FLAG_FIXED_NEWSTYLE @ client_option NBD_OPT_GO (go_payload ''disk'' [0, 0]) @
         concat (map encode_request [demo_request NBD_CMD_READ 5 2]), conn_out = []\<rparr> =
      Ok (\<lambda>_. cache_ReadAt (demo_fetched [7, 8]), out, t) \<and>
    (\<forall>t' cmd. reach ((=) t) trans_step t' \<longrightarrow> cmd \<in> set (t_reads t') \<longrightarrow>
       handle_read (Suc (rq_Len cmd)) (\<lambda>_. cache_ReadAt (demo_fetched [7, 8])) cmd =
         Some (replyHeader 0 (rq_Cookie cmd) @ take (rq_Len cmd) (drop (rq_Offset cmd) [7, 8])))"
proof (rule nbd_refines_object [OF _ _ _ demo_answers])
  show "serves_ranges (range_get [7, 8]) [7, 8]" by (simp add: serves_ranges_def)
  show "object_fits [7, 8]" by (rule demo_fits) (simp add: chunkSize_def)
qed (auto simp: go_payload_def buffer_Size_def request_ok_def no_write_def demo_request_def NBD_REQUEST_MAGIC_def nbd_cmds)

end
