(* ===== verification/Daemon.thy ===== *)
theory Daemon
  imports NbdServer GoLib
begin

text \<open>
  The NBD daemon (\<open>src/nbd/daemon\<close>): its lock file as a transition system of processes, the opening of
  a cache (\<open>src/nbd/s3\<close>) and the exports.
\<close>

section \<open>The lock file (lockfile.go)\<close>

text \<open>
  Processes that use the same path.  A file is an inode; \<open>lw_path\<close> is the inode the path leads to, and
  \<open>lw_lock\<close> the process that holds the \<open>flock\<close> of an inode.  Every system call of \<open>Lock\<close> and \<open>Close\<close>
  is a step; a process that dies leaves its lock to the kernel and the file where it is.
\<close>

datatype lock_state = NoLock | Opened nat | Holding nat | Unlocked nat | FileClosed

record lock_world =
  lw_path :: "nat option"
  lw_inodes :: nat
  lw_lock :: "nat \<Rightarrow> nat option"
  lw_proc :: "nat \<Rightarrow> lock_state"

definition lock_begin :: lock_world where
  "lock_begin = \<lparr>lw_path = None, lw_inodes = 0, lw_lock = Map.empty, lw_proc = (\<lambda>_. NoLock)\<rparr>"

definition set_proc :: "nat \<Rightarrow> lock_state \<Rightarrow> lock_world \<Rightarrow> lock_world" where
  "set_proc p st w = w\<lparr>lw_proc := (lw_proc w)(p := st)\<rparr>"

text \<open>\<open>os.OpenFile\<close> with \<open>O_CREATE\<close>\<close>

definition lock_open :: "nat \<Rightarrow> lock_world \<Rightarrow> lock_world" where
  "lock_open p w =
     (case lw_path w of
        Some i \<Rightarrow> set_proc p (Opened i) w
      | None \<Rightarrow> set_proc p (Opened (lw_inodes w)) (w\<lparr>lw_path := Some (lw_inodes w), lw_inodes := Suc (lw_inodes w)\<rparr>))"

inductive lock_keep :: "lock_world \<Rightarrow> lock_world \<Rightarrow> bool" where
  open_file: "lw_proc w p = NoLock \<Longrightarrow> lock_keep w (lock_open p w)"
| flock: "lw_proc w p = Opened i \<Longrightarrow> lw_lock w i = None \<Longrightarrow>
    lock_keep w (set_proc p (Holding i) (w\<lparr>lw_lock := (lw_lock w)(i \<mapsto> p)\<rparr>))"
| flock_busy: "lw_proc w p = Opened i \<Longrightarrow> lw_lock w i \<noteq> None \<Longrightarrow> lock_keep w (set_proc p NoLock w)"
| die: "lw_proc w p = Holding i \<Longrightarrow> lock_keep w (set_proc p NoLock (w\<lparr>lw_lock := (lw_lock w)(i := None)\<rparr>))"

inductive lock_close :: "lock_world \<Rightarrow> lock_world \<Rightarrow> bool" where
  unlock: "lw_proc w p = Holding i \<Longrightarrow> lock_close w (set_proc p (Unlocked i) (w\<lparr>lw_lock := (lw_lock w)(i := None)\<rparr>))"
| close: "lw_proc w p = Unlocked i \<Longrightarrow> lock_close w (set_proc p FileClosed w)"
| remove: "lw_proc w p = FileClosed \<Longrightarrow> lock_close w (set_proc p NoLock (w\<lparr>lw_path := None\<rparr>))"

definition lock_step :: "lock_world \<Rightarrow> lock_world \<Rightarrow> bool" where
  "lock_step w w' \<longleftrightarrow> lock_keep w w' \<or> lock_close w w'"

text \<open>
  Without \<open>Close\<close> the path never changes its inode, so that all processes compete for one lock.
\<close>

definition one_file :: "lock_world \<Rightarrow> bool" where
  "one_file w \<longleftrightarrow>
     (\<forall>p i. lw_proc w p = Opened i \<or> lw_proc w p = Holding i \<longrightarrow> lw_path w = Some i) \<and>
     (\<forall>p i. lw_proc w p = Holding i \<longrightarrow> lw_lock w i = Some p) \<and>
     (\<forall>p i. lw_proc w p \<noteq> Unlocked i) \<and> (\<forall>p. lw_proc w p \<noteq> FileClosed)"

interpretation lk: invariant_system "(=) lock_begin" lock_keep one_file
proof
  show "one_file s" if "lock_begin = s" for s using that by (auto simp: one_file_def lock_begin_def)
  show "one_file w'" if "one_file w" "lock_keep w w'" for w w'
    using that(2,1)
    by cases (auto simp: one_file_def set_proc_def lock_open_def split: option.splits, (metis option.inject)+)
qed

lemma lock_exclusive_without_close:
  assumes "reach ((=) lock_begin) lock_keep w" "lw_proc w p = Holding i" "lw_proc w q = Holding j"
  shows "p = q"
proof -
  have "one_file w" using assms(1) by (rule lk.reach_inv)
  with assms(2,3) show ?thesis unfolding one_file_def by (metis option.inject)
qed

text \<open>The steps of the race: process 1 closes while process 2 has opened the file, process 3 comes later.\<close>

definition race_world :: "nat option \<Rightarrow> nat \<Rightarrow> (nat \<Rightarrow> nat option) \<Rightarrow> lock_state \<Rightarrow> lock_state \<Rightarrow> lock_state \<Rightarrow> lock_world" where
  "race_world path n lock p1 p2 p3 =
     \<lparr>lw_path = path, lw_inodes = n, lw_lock = lock, lw_proc = (\<lambda>_. NoLock)(1 := p1, 2 := p2, 3 := p3)\<rparr>"

lemma race_simps [simp]:
  "lw_path (race_world a n l x y z) = a" "lw_inodes (race_world a n l x y z) = n" "lw_lock (race_world a n l x y z) = l"
  "lw_proc (race_world a n l x y z) 1 = x" "lw_proc (race_world a n l x y z) (Suc 0) = x"
  "lw_proc (race_world a n l x y z) 2 = y" "lw_proc (race_world a n l x y z) 3 = z"
  "(race_world a n l x y z)\<lparr>lw_lock := l'\<rparr> = race_world a n l' x y z"
  "(race_world a n l x y z)\<lparr>lw_path := a'\<rparr> = race_world a' n l x y z"
  "(race_world a n l x y z)\<lparr>lw_inodes := n'\<rparr> = race_world a n' l x y z"
  "set_proc 1 st (race_world a n l x y z) = race_world a n l st y z"
  "set_proc (Suc 0) st (race_world a n l x y z) = race_world a n l st y z"
  "set_proc 2 st (race_world a n l x y z) = race_world a n l x st z"
  "set_proc 3 st (race_world a n l x y z) = race_world a n l x y st"
  by (auto simp: race_world_def set_proc_def fun_eq_iff)

section \<open>Opening a cache (s3/cache.go, s3/remote.go, s3/local.go)\<close>

text \<open>
  The parts of the S3 client: \<open>url.Parse\<close> (scheme and host), \<open>minio.New\<close> (whether it accepts host,
  credentials and the use of TLS) and the size \<open>StatObject\<close> reports for a bucket and an object.
\<close>

record s3_client =
  s3_parse :: "string \<Rightarrow> (string \<times> string) option"
  s3_New :: "string \<Rightarrow> string \<Rightarrow> string \<Rightarrow> bool \<Rightarrow> bool"
  s3_Stat :: "string \<Rightarrow> string \<Rightarrow> int option"

datatype open_step = MakeDir | OpenLocal | SyscallConn | SyscallControl | OpenChunks

datatype open_error =
    EmptyEndpoint | EmptyBucket | EmptyObject | BadURL | ClientRefused | StatFailed
  | OpenFailed open_step | FallocateInvalid | OpenChunkMap chunk_error

definition openMinioRemote :: "s3_client \<Rightarrow> string \<Rightarrow> string \<Rightarrow> string \<Rightarrow> string \<Rightarrow> string \<Rightarrow> (open_error, int) res" where
  "openMinioRemote s endpoint access secret bucket object =
     (if endpoint = [] then Err EmptyEndpoint
      else if bucket = [] then Err EmptyBucket
      else if object = [] then Err EmptyObject
      else case s3_parse s endpoint of
          None \<Rightarrow> Err BadURL
        | Some (scheme, host) \<Rightarrow>
            let useTLS = (scheme \<noteq> ''http'')
            in if \<not> s3_New s host access secret useTLS then Err ClientRefused
               else case s3_Stat s bucket object of None \<Rightarrow> Err StatFailed | Some sz \<Rightarrow> Ok sz)"

text \<open>
  \<open>openFileBackend\<close>: \<open>fallocate\<close> refuses a length that is not positive, and extends a shorter file by
  zeros; a longer file keeps its length.  \<open>fails\<close> tells which of the other calls fail.
\<close>

definition openFileBackend ::
    "(open_step \<Rightarrow> bool) \<Rightarrow> string \<Rightarrow> int \<Rightarrow> file_system \<Rightarrow> (open_error, bytes) res \<times> file_system" where
  "openFileBackend fails path sz fs =
     (if fails MakeDir then (Err (OpenFailed MakeDir), fs)
      else if fails OpenLocal then (Err (OpenFailed OpenLocal), fs)
      else let old = (case fs path of None \<Rightarrow> [] | Some d \<Rightarrow> d); fs = fs(path \<mapsto> old)
        in if fails SyscallConn then (Err (OpenFailed SyscallConn), fs)
           else if fails SyscallControl then (Err (OpenFailed SyscallControl), fs)
           else if sz \<le> 0 then (Err FallocateInvalid, fs)
           else let data = old @ replicate (nat sz - length old) 0 in (Ok data, fs(path \<mapsto> data)))"

text \<open>\<open>Open\<close> up to the start of the background goroutines, whose actions are those of \<open>cache_step\<close>.\<close>

definition chunk_path :: "string \<Rightarrow> string \<Rightarrow> string" where
  "chunk_path localdir object = path_Join [localdir, object @ ''.chunk'']"

definition cache_Open ::
    "s3_client \<Rightarrow> (open_step \<Rightarrow> bool) \<Rightarrow> int \<Rightarrow> string \<Rightarrow> string \<Rightarrow> string \<Rightarrow> string \<Rightarrow> string \<Rightarrow> string \<Rightarrow> file_system \<Rightarrow>
     (open_error, cache) res \<times> file_system" where
  "cache_Open s fails now endpoint access secret bucket object localdir fs =
     (case openMinioRemote s endpoint access secret bucket object of
        Panic \<Rightarrow> (Panic, fs)
      | Err e \<Rightarrow> (Err e, fs)
      | Ok sz \<Rightarrow>
          (case openFileBackend fails (path_Join [localdir, object]) sz fs of
             (Panic, fs) \<Rightarrow> (Panic, fs)
           | (Err e, fs) \<Rightarrow> (Err e, fs)
           | (Ok local, fs) \<Rightarrow>
               if fails OpenChunks then (Err (OpenFailed OpenChunks), fs)
               else let path = chunk_path localdir object;
                        saved = (case fs path of None \<Rightarrow> [] | Some d \<Rightarrow> d);
                        fs = fs(path \<mapsto> saved)
                 in (case openChunkMap now path saved sz of
                       Panic \<Rightarrow> (Panic, fs)
                     | Err e \<Rightarrow> (Err (OpenChunkMap e), fs)
                     | Ok m \<Rightarrow> (Ok \<lparr>ca_chunk = m, ca_local = local, ca_saved = saved, ca_fetchers = []\<rparr>, fs))))"

section \<open>Exports (daemon.go)\<close>

record daemon =
  d_Endpoint :: string
  d_Bucket :: string
  d_Prefix :: string
  d_Access :: string
  d_Secret :: string
  d_Dir :: string

definition lock_path :: "string \<Rightarrow> daemon \<Rightarrow> string" where
  "lock_path cwd d = path_Join [path_Abs cwd (d_Dir d), ''lock'']"

text \<open>
  The closure \<open>export\<close>, with the map \<open>volume\<close> of the caches opened so far.  The wrapper \<open>dontClose\<close>
  passes reads on.
\<close>

definition export ::
    "s3_client \<Rightarrow> (open_step \<Rightarrow> bool) \<Rightarrow> int \<Rightarrow> daemon \<Rightarrow> string \<Rightarrow> (string \<Rightarrow> cache option) \<times> file_system \<Rightarrow>
     (open_error, cache) res \<times> (string \<Rightarrow> cache option) \<times> file_system" where
  "export s fails now d name =
     (\<lambda>(volume, fs). case volume name of
        Some ca \<Rightarrow> (Ok ca, volume, fs)
      | None \<Rightarrow>
          (case cache_Open s fails now (d_Endpoint d) (d_Access d) (d_Secret d) (d_Bucket d) (path_Join [d_Prefix d, name]) (d_Dir d) fs of
             (Ok ca, fs) \<Rightarrow> (Ok ca, volume(name \<mapsto> ca), fs)
           | (Err e, fs) \<Rightarrow> (Err e, volume, fs)
           | (Panic, fs) \<Rightarrow> (Panic, volume, fs)))"

text \<open>An export that was opened is found again, and nothing else happens.\<close>

lemma export_memo:
  assumes "export s fails now d name (volume, fs) = (Ok ca, volume', fs')"
  shows "export s fails' now' d name (volume', fs'') = (Ok ca, volume', fs'')"
proof -
  have "volume' name = Some ca"
  proof (cases "volume name")
    case None
    let ?o = "cache_Open s fails now (d_Endpoint d) (d_Access d) (d_Secret d) (d_Bucket d) (path_Join [d_Prefix d, name]) (d_Dir d) fs"
    obtain res fs1 where "?o = (res, fs1)" by fastforce
    with None assms show ?thesis by (cases res) (auto simp: export_def simp del: path_Join.simps)
  qed (use assms in \<open>simp add: export_def\<close>)
  then show ?thesis by (simp add: export_def)
qed

text \<open>A cache that is opened for the first time starts in an initial state of the cache's transition system.\<close>

lemma cache_Open_fresh:
  assumes "openMinioRemote s endpoint access secret bucket obj = Ok (int (length object))" "object \<noteq> []"
    and "\<And>st. \<not> fails st" "fs (path_Join [localdir, obj]) = None" "fs (chunk_path localdir obj) = None"
    and "path_Join [localdir, obj] \<noteq> chunk_path localdir obj"
  shows "\<exists>ca fs'. cache_Open s fails now endpoint access secret bucket obj localdir fs = (Ok ca, fs') \<and> cache_init object ca"
  using assms
  by (simp add: cache_Open_def openFileBackend_def Let_def openChunkMap_def header_size_def cache_init_def del: path_Join.simps) blast

section \<open>Properties\<close>

text \<open>
  C40. The lock on the cache directory is not exclusive: \<open>Close\<close> removes the file after it has released
  the lock, so that a process that takes the lock in between is left with a file no path leads to,
  and the next process creates and locks a new one.  Two daemons then hold the lock at once.
\<close>

theorem lock_not_exclusive:
  "\<exists>w. reach ((=) lock_begin) lock_step w \<and> lw_proc w 2 = Holding 0 \<and> lw_proc w 3 = Holding 1"
proof (intro exI conjI)
  let ?r = "reach ((=) lock_begin) lock_step" and ?l = "Map.empty(0 := None, 0 \<mapsto> 2, Suc 0 \<mapsto> 3)"
  note st = lock_step_def lock_open_def
  have "lock_begin = race_world None 0 Map.empty NoLock NoLock NoLock"
    by (auto simp: lock_begin_def race_world_def fun_eq_iff)
  then have "?r (race_world None 0 Map.empty NoLock NoLock NoLock)" by (metis reach_self)
  then have "?r (race_world (Some 0) (Suc 0) Map.empty (Opened 0) NoLock NoLock)"
    by (rule reach_step) (use lock_keep.open_file [of "race_world None 0 Map.empty NoLock NoLock NoLock" 1] in \<open>simp add: st\<close>)
  then have "?r (race_world (Some 0) (Suc 0) [0 \<mapsto> 1] (Holding 0) NoLock NoLock)"
    by (rule reach_step) (use lock_keep.flock [of "race_world (Some 0) (Suc 0) Map.empty (Opened 0) NoLock NoLock" 1 0] in \<open>simp add: st\<close>)
  then have "?r (race_world (Some 0) (Suc 0) [0 \<mapsto> 1] (Holding 0) (Opened 0) NoLock)"
    by (rule reach_step) (use lock_keep.open_file [of "race_world (Some 0) (Suc 0) [0 \<mapsto> 1] (Holding 0) NoLock NoLock" 2] in \<open>simp add: st\<close>)
  then have "?r (race_world (Some 0) (Suc 0) (Map.empty(0 := None)) (Unlocked 0) (Opened 0) NoLock)"
    by (rule reach_step) (use lock_close.unlock [of "race_world (Some 0) (Suc 0) [0 \<mapsto> 1] (Holding 0) (Opened 0) NoLock" 1 0] in \<open>simp add: st\<close>)
  then have "?r (race_world (Some 0) (Suc 0) (Map.empty(0 := None, 0 \<mapsto> 2)) (Unlocked 0) (Holding 0) NoLock)"
    by (rule reach_step) (use lock_keep.flock [of "race_world (Some 0) (Suc 0) (Map.empty(0 := None)) (Unlocked 0) (Opened 0) NoLock" 2 0] in \<open>simp add: st\<close>)
  then have "?r (race_world (Some 0) (Suc 0) (Map.empty(0 := None, 0 \<mapsto> 2)) FileClosed (Holding 0) NoLock)"
    by (rule reach_step) (use lock_close.close [of "race_world (Some 0) (Suc 0) (Map.empty(0 := None, 0 \<mapsto> 2)) (Unlocked 0) (Holding 0) NoLock" 1 0] in \<open>simp add: st\<close>)
  then have "?r (race_world None (Suc 0) (Map.empty(0 := None, 0 \<mapsto> 2)) NoLock (Holding 0) NoLock)"
    by (rule reach_step) (use lock_close.remove [of "race_world (Some 0) (Suc 0) (Map.empty(0 := None, 0 \<mapsto> 2)) FileClosed (Holding 0) NoLock" 1] in \<open>simp add: st\<close>)
  then have "?r (race_world (Some 1) 2 (Map.empty(0 := None, 0 \<mapsto> 2)) NoLock (Holding 0) (Opened 1))"
    by (rule reach_step) (use lock_keep.open_file [of "race_world None (Suc 0) (Map.empty(0 := None, 0 \<mapsto> 2)) NoLock (Holding 0) NoLock" 3]
        in \<open>simp add: st numeral_2_eq_2\<close>)
  then show "?r (race_world (Some 1) 2 ?l NoLock (Holding 0) (Holding 1))"
    by (rule reach_step) (use lock_keep.flock [of "race_world (Some 1) 2 (Map.empty(0 := None, 0 \<mapsto> 2)) NoLock (Holding 0) (Opened 1)" 3 1]
        in \<open>simp add: st\<close>)
qed simp_all

text \<open>
  The prefix of the daemon does not confine its exports: a name that starts with \<open>../\<close> selects an
  object beside the prefix.
\<close>

lemma export_leaves_prefix:
  assumes "normal p" "normal n"
  shows "path_Join [p, ''../'' @ n] = n"
proof -
  have n: "CHR ''/'' \<notin> set p" "CHR ''/'' \<notin> set n" "p \<noteq> []" "n \<noteq> []" using assms by (auto simp: normal_def)
  have "hd p \<noteq> CHR ''/''" using n by (metis hd_in_set)
  moreover have "path_parts (p @ ''/../'' @ n) = [p, ''..'', n]"
    using n Split_on_append [of "CHR ''/''" p] by (simp add: path_parts_def Split_on_no_sep)
  ultimately show ?thesis using assms n by (auto simp: Clean_def IsAbs_def normal_def Let_def hd_append)
qed

end
