(* ===== verification/Cpio.thy ===== *)
theory Cpio
  imports Binary GoLib
begin

text \<open>
  The archive writer of the initramfs builder (\<open>src/initramfs/cpio\<close>): headers, entries and the
  directories above them, and a reader of the format that gives back what was written.
\<close>

section \<open>Headers (header.go)\<close>

definition modeRegular :: nat where "modeRegular = 0x8000"
definition modeDirectory :: nat where "modeDirectory = 0x4000"
definition modeSymlink :: nat where "modeSymlink = 0xA000"
definition magicNewAsciiNoChecksum :: bytes where "magicNewAsciiNoChecksum = [7, 7, 1]"

text \<open>The fields of \<open>Header\<close>; \<open>magic\<close> and \<open>namesize\<close> are set by \<open>Write\<close>.\<close>

record header =
  h_inode :: nat
  h_mode :: nat
  h_uid :: nat
  h_gid :: nat
  h_nlink :: nat
  h_mtime :: nat
  h_filesize :: nat
  h_maj :: nat
  h_min :: nat
  h_rmaj :: nat
  h_rmin :: nat
  h_checksum :: nat

definition zero_header :: header where
  "zero_header = \<lparr>h_inode = 0, h_mode = 0, h_uid = 0, h_gid = 0, h_nlink = 0, h_mtime = 0, h_filesize = 0,
     h_maj = 0, h_min = 0, h_rmaj = 0, h_rmin = 0, h_checksum = 0\<rparr>"

text \<open>\<open>encoding/hex\<close>: two lower case digits for each byte.\<close>

definition hex_encode :: "bytes \<Rightarrow> bytes" where
  "hex_encode bs = bytes_of (concat (map (\<lambda>b. [digits ! (unat b div 16), digits ! (unat b mod 16)]) bs))"

definition header_fields :: "header \<Rightarrow> nat \<Rightarrow> nat list" where
  "header_fields h namesize =
     [h_inode h, h_mode h, h_uid h, h_gid h, if h_nlink h = 0 then 1 else h_nlink h, h_mtime h, h_filesize h,
      h_maj h, h_min h, h_rmaj h, h_rmin h, namesize, h_checksum h]"

text \<open>The number of bytes up to the next multiple of four\<close>

definition cpio_padding :: "nat \<Rightarrow> nat" where
  "cpio_padding n = (if n mod 4 \<noteq> 0 then 4 - n mod 4 else 0)"

definition header_Write :: "header \<Rightarrow> string \<Rightarrow> bytes" where
  "header_Write h path =
     (let namesize = (length path + 1) mod 2 ^ 32
      in hex_encode (magicNewAsciiNoChecksum @ concat (map (be_put 4) (header_fields h namesize))) @
         bytes_of path @ replicate (1 + cpio_padding (length magicNewAsciiNoChecksum * 2 + length path + 1)) 0)"

section \<open>Archives (cpio.go)\<close>

datatype cpio_error = EmptyArchivePath | AbsoluteArchivePath | SizeMismatch nat nat string | SourceError | NotRegular string

record archive =
  ar_out :: bytes
  ar_dirs :: "string list"
  ar_copied :: "(string \<times> string) list"
  ar_linked :: "(string \<times> string) list"
  ar_inode :: nat

definition cpio_New :: archive where
  "cpio_New = \<lparr>ar_out = [], ar_dirs = [], ar_copied = [], ar_linked = [], ar_inode = 0\<rparr>"

text \<open>The part of \<open>write\<close> under the writer's lock; the writer itself does not fail.\<close>

definition write_entry :: "bytes option \<Rightarrow> string \<Rightarrow> header \<Rightarrow> archive \<Rightarrow> archive \<times> (cpio_error, unit) res" where
  "write_entry data path h a =
     (let h = h\<lparr>h_inode := ar_inode a\<rparr>;
          a = a\<lparr>ar_inode := (ar_inode a + 1) mod 2 ^ 32, ar_out := ar_out a @ header_Write h path\<rparr>
      in case data of
           None \<Rightarrow> (a, Ok ())
         | Some d \<Rightarrow>
             let a = a\<lparr>ar_out := ar_out a @ d\<rparr>
             in if length d \<noteq> h_filesize h then (a, Err (SizeMismatch (length d) (h_filesize h) path))
                else (a\<lparr>ar_out := ar_out a @ replicate (cpio_padding (h_filesize h)) 0\<rparr>, Ok ()))"

text \<open>The directories above a path, outermost first.\<close>

definition parent_dirs :: "string \<Rightarrow> string list" where
  "parent_dirs path = (let elements = path_parts path in map (\<lambda>i. Join_with ''/'' (take i elements)) [1..<length elements])"

lemma path_parts_Join_plain: "ps \<noteq> [] \<Longrightarrow> \<forall>p \<in> set ps. CHR ''/'' \<notin> set p \<Longrightarrow> path_parts (Join_with ''/'' ps) = ps"
  unfolding path_parts_def by (rule Split_on_Join)

lemma length_clean_parts: "length (clean_parts a st cs) \<le> length st + length cs"
proof (induction a st cs rule: clean_parts.induct)
  case (2 a st c cs)
  then show ?case by (cases st) auto
qed simp

lemma clean_parts_subset: "set (clean_parts a st cs) \<subseteq> set st \<union> set cs"
proof (induction a st cs rule: clean_parts.induct)
  case (2 a st c cs)
  then show ?case by (cases st) auto
qed simp

lemma length_parts_Clean: "length (path_parts (Clean p)) \<le> length (path_parts p)"
proof -
  let ?cs = "clean_parts (IsAbs p) [] (path_parts p)"
  have sl: "\<forall>c \<in> set ?cs. CHR ''/'' \<notin> set c" using clean_parts_subset path_parts_no_slash by fastforce
  have ne: "path_parts p \<noteq> []" by (simp add: path_parts_def)
  then have one: "1 \<le> length (path_parts p)" by (simp add: Suc_le_eq)
  show ?thesis
  proof (cases "IsAbs p")
    case True
    then obtain q where q: "p = CHR ''/'' # q" by (cases p) (auto simp: IsAbs_def)
    have pp: "path_parts p = [] # path_parts q" by (simp add: q path_parts_def)
    have l: "length ?cs \<le> length (path_parts q)" using length_clean_parts [of True "[]" "path_parts q"] True pp by simp
    have "path_parts (Clean p) = [] # path_parts (Join_with ''/'' ?cs)" using True by (simp add: Clean_def path_parts_def)
    moreover have "length (path_parts (Join_with ''/'' ?cs)) \<le> length (path_parts q)"
    proof (cases "?cs = []")
      case True
      then show ?thesis by (simp add: path_parts_def Suc_le_eq)
    qed (use l sl in \<open>simp add: path_parts_Join_plain\<close>)
    ultimately show ?thesis by (simp add: pp)
  next
    case False
    have l: "length ?cs \<le> length (path_parts p)" using length_clean_parts [of False "[]" "path_parts p"] False by simp
    show ?thesis
    proof (cases "Join_with ''/'' ?cs = []")
      case True
      then have "Clean p = ''.''" using False by (simp add: Clean_def)
      then show ?thesis using one by (simp add: path_parts_def)
    next
      case j: False
      then have "?cs \<noteq> []" by auto
      with False j l sl show ?thesis by (simp add: Clean_def path_parts_Join_plain)
    qed
  qed
qed

lemma parent_dirs_shorter:
  "d \<in> set (parent_dirs path) \<Longrightarrow> length (path_parts (Clean d)) < length (path_parts path)"
proof -
  assume "d \<in> set (parent_dirs path)"
  then obtain i where i: "1 \<le> i" "i < length (path_parts path)" "d = Join_with ''/'' (take i (path_parts path))"
    by (auto simp: parent_dirs_def Let_def)
  then have "path_parts d = take i (path_parts path)"
    by (auto intro!: path_parts_Join_plain dest!: in_set_takeD path_parts_no_slash)
  with i length_parts_Clean [of d] show ?thesis by simp
qed

definition depth :: "string \<Rightarrow> nat" where "depth p = length (path_parts (Clean p))"

fun max_depth :: "string list \<Rightarrow> nat" where
  "max_depth [] = 0"
| "max_depth (d # ds) = max (depth d) (max_depth ds)"

lemma max_depth_less: "0 < n \<Longrightarrow> \<forall>d \<in> set ds. depth d < n \<Longrightarrow> max_depth ds < n"
  by (induction ds) auto

lemma max_depth_parents: "max_depth (parent_dirs (Clean p)) < depth p"
  by (rule max_depth_less) (auto simp: depth_def path_parts_def dest: parent_dirs_shorter [unfolded path_parts_def])

text \<open>
  \<open>write\<close> and \<open>mkdir\<close> call each other; \<open>cpio_mkdirs\<close> is the loop of \<open>write\<close>, left at the first error.
\<close>

function cpio_write :: "bytes option \<Rightarrow> string \<Rightarrow> header \<Rightarrow> archive \<Rightarrow> archive \<times> (cpio_error, unit) res"
  and cpio_mkdirs :: "string list \<Rightarrow> archive \<Rightarrow> archive \<times> (cpio_error, unit) res"
  and cpio_mkdir :: "string \<Rightarrow> archive \<Rightarrow> archive \<times> (cpio_error, unit) res" where
  "cpio_write data path h a =
     (if path = [] then (a, Err EmptyArchivePath)
      else if hd path = CHR ''/'' then (a, Err AbsoluteArchivePath)
      else case cpio_mkdirs (parent_dirs (Clean path)) a of
          (a, Ok _) \<Rightarrow> write_entry data (Clean path) h a
        | (a, Err e) \<Rightarrow> (a, Err e)
        | (a, Panic) \<Rightarrow> (a, Panic))"
| "cpio_mkdirs [] a = (a, Ok ())"
| "cpio_mkdirs (d # ds) a =
     (case cpio_mkdir d a of
        (a, Ok _) \<Rightarrow> cpio_mkdirs ds a
      | (a, Err e) \<Rightarrow> (a, Err e)
      | (a, Panic) \<Rightarrow> (a, Panic))"
| "cpio_mkdir path a =
     (if path \<in> set (ar_dirs a) then (a, Ok ())
      else case cpio_write None path (zero_header\<lparr>h_mode := or modeDirectory 0x1ED\<rparr>) a of
          (a, Ok _) \<Rightarrow> (a\<lparr>ar_dirs := path # ar_dirs a\<rparr>, Ok ())
        | (a, Err e) \<Rightarrow> (a, Err e)
        | (a, Panic) \<Rightarrow> (a, Panic))"
  by pat_completeness auto

termination
proof (relation "measures
    [\<lambda>x. case x of Inl (_, p, _, _) \<Rightarrow> 3 * depth p | Inr (Inl (ds, _)) \<Rightarrow> 3 * max_depth ds + 2 | Inr (Inr (p, _)) \<Rightarrow> 3 * depth p + 1,
     \<lambda>x. case x of Inr (Inl (ds, _)) \<Rightarrow> length ds | _ \<Rightarrow> 0]", goal_cases)
  case (2 data path h a)
  then show ?case using max_depth_parents [of path] by simp
qed auto

declare cpio_write.simps [simp del] cpio_mkdir.simps [simp del]

text \<open>A source file: it cannot be opened, is not a regular file, or has permissions and contents.\<close>

datatype source_file = Unreadable | Special | Regular nat bytes

text \<open>An absolute path that is copied to the same location\<close>

definition copy_dest :: "string \<Rightarrow> string \<Rightarrow> string" where
  "copy_dest src dest = (if src = dest \<and> 0 < length dest \<and> dest ! 0 = CHR ''/'' then drop 1 dest else dest)"

definition cpio_Copy :: "(string \<Rightarrow> source_file) \<Rightarrow> string \<Rightarrow> string \<Rightarrow> archive \<Rightarrow> archive \<times> (cpio_error, unit) res" where
  "cpio_Copy files src dest a =
     (let dest = copy_dest src dest
      in case files src of
           Unreadable \<Rightarrow> (a, Err SourceError)
         | Special \<Rightarrow> (a, Err (NotRegular src))
         | Regular perm data \<Rightarrow>
             if (src, dest) \<in> set (ar_copied a) then (a, Ok ())
             else case cpio_write (Some data) dest
                 (zero_header\<lparr>h_mode := or modeRegular perm, h_filesize := length data mod 2 ^ 32\<rparr>) a of
               (a, Ok _) \<Rightarrow> (a\<lparr>ar_copied := (src, dest) # ar_copied a\<rparr>, Ok ())
             | (a, r) \<Rightarrow> (a, r))"

definition cpio_Link :: "string \<Rightarrow> string \<Rightarrow> archive \<Rightarrow> archive \<times> (cpio_error, unit) res" where
  "cpio_Link target linkname a =
     (if (target, linkname) \<in> set (ar_linked a) then (a, Ok ())
      else case cpio_write (Some (bytes_of target @ [0])) linkname
          (zero_header\<lparr>h_mode := modeSymlink, h_filesize := (length target + 1) mod 2 ^ 32\<rparr>) a of
        (a, Ok _) \<Rightarrow> (a\<lparr>ar_linked := (target, linkname) # ar_linked a\<rparr>, Ok ())
      | (a, r) \<Rightarrow> (a, r))"

definition cpio_Close :: "archive \<Rightarrow> archive \<times> (cpio_error, unit) res" where
  "cpio_Close a = cpio_write None ''TRAILER!!!'' zero_header a"
section \<open>A reader of the format\<close>

text \<open>
  The new ASCII format as \<open>cpio(5)\<close> describes it: six magic characters, thirteen fields of eight
  hexadecimal digits, the name with its terminating zero, padded to a multiple of four bytes, and the
  data, padded likewise.
\<close>

record cpio_entry =
  en_fields :: "nat list"
  en_name :: string
  en_data :: bytes

definition read_field :: "bytes \<Rightarrow> nat \<Rightarrow> nat option" where
  "read_field bs k = parse_digits 16 0 (string_of (take 8 (drop (6 + 8 * k) bs)))"

definition read_entry :: "bytes \<Rightarrow> (cpio_entry \<times> bytes) option" where
  "read_entry bs =
     (if length bs < 110 \<or> take 6 bs \<noteq> bytes_of ''070701'' then None
      else case those (map (read_field bs) [0..<13]) of
          None \<Rightarrow> None
        | Some fs \<Rightarrow>
            let namesize = fs ! 11; filesize = fs ! 6;
                body = 110 + namesize + cpio_padding (110 + namesize);
                stop = body + filesize + cpio_padding filesize
            in if namesize = 0 \<or> length bs < stop then None
               else Some (\<lparr>en_fields = fs, en_name = string_of (take (namesize - 1) (drop 110 bs)),
                           en_data = take filesize (drop body bs)\<rparr>, drop stop bs))"

lemma read_entry_shorter: "read_entry bs = Some (e, rest) \<Longrightarrow> length rest < length bs"
  by (auto simp: read_entry_def Let_def split: if_splits option.splits)

function read_archive :: "bytes \<Rightarrow> cpio_entry list option" where
  "read_archive bs =
     (if bs = [] then Some []
      else case read_entry bs of
          None \<Rightarrow> None
        | Some (e, rest) \<Rightarrow> map_option (\<lambda>es. e # es) (read_archive rest))"
  by pat_completeness auto
termination by (relation "measure length") (auto dest: read_entry_shorter)

declare read_archive.simps [simp del]

section \<open>What is written is read back\<close>

lemma length_hex_encode [simp]: "length (hex_encode bs) = 2 * length bs"
  by (induction bs) (simp_all add: hex_encode_def)

lemma hex_encode_append: "hex_encode (xs @ ys) = hex_encode xs @ hex_encode ys"
  by (simp add: hex_encode_def bytes_of_def)

lemma be_get_Cons: "be_get (b # bs) = unat b * 256 ^ length bs + be_get bs"
proof -
  have "le_get (xs @ [b]) = le_get xs + unat b * 256 ^ length xs" for xs
    by (induction xs) (simp_all add: algebra_simps)
  from this [of "rev bs"] show ?thesis by (simp add: be_get_def)
qed

lemma parse_hex: "parse_digits 16 acc (string_of (hex_encode bs)) = Some (acc * 256 ^ length bs + be_get bs)"
proof (induction bs arbitrary: acc)
  case Nil
  then show ?case by (simp add: hex_encode_def bytes_of_def string_of_def be_get_def)
next
  case (Cons b bs)
  have d: "unat b div 16 < 16" "unat b mod 16 < 16"
    using unat_byte_less [of b] less_mult_imp_div_less [of "unat b" 16 16] by simp_all
  have "string_of (hex_encode (b # bs)) = digits ! (unat b div 16) # digits ! (unat b mod 16) # string_of (hex_encode bs)"
    by (simp add: hex_encode_def bytes_of_def string_of_def)
  moreover have "(acc * 16 + unat b div 16) * 16 + unat b mod 16 = acc * 256 + unat b"
    using div_mult_mod_eq [of "unat b" 16] by (simp only: add_mult_distrib)
  ultimately have "parse_digits 16 acc (string_of (hex_encode (b # bs))) = parse_digits 16 (acc * 256 + unat b) (string_of (hex_encode bs))"
    using d digit_val_digits [of "unat b div 16"] digit_val_digits [of "unat b mod 16"] by (simp only: parse_digits.simps) (simp add: add.commute mult.commute)
  moreover have "(acc * 256 + unat b) * 256 ^ length bs + be_get bs = acc * 256 ^ length (b # bs) + be_get (b # bs)"
    by (simp add: be_get_Cons add_mult_distrib)
  ultimately show ?case by (simp only: Cons.IH)
qed

lemma take_drop_concat:
  "k < length xs \<Longrightarrow> \<forall>x \<in> set xs. length (g x) = w \<Longrightarrow> take w (drop (w * k) (concat (map g xs) @ rest)) = g (xs ! k)"
proof (induction xs arbitrary: k)
  case (Cons x xs)
  then show ?case by (cases k) simp_all
qed simp

lemma those_Some [simp]: "those (map Some xs) = Some xs"
  by (induction xs) simp_all

lemma hex_concat: "hex_encode (concat (map f xs)) = concat (map (\<lambda>x. hex_encode (f x)) xs)"
  by (induction xs) (simp_all add: hex_encode_append, simp add: hex_encode_def bytes_of_def)

lemma length_concat_const: "\<forall>x \<in> set xs. length (g x) = w \<Longrightarrow> length (concat (map g xs)) = w * length xs"
  by (induction xs) simp_all

lemma padding_header: "cpio_padding (110 + n) = cpio_padding (6 + n)"
proof -
  have "(110 + n) mod 4 = (6 + n) mod 4" using mod_mult_self3 [of 26 4 "6 + n"] by (simp add: add.commute)
  then show ?thesis by (simp add: cpio_padding_def)
qed

definition header_ok :: "header \<Rightarrow> bool" where
  "header_ok h \<longleftrightarrow> (\<forall>f \<in> set (header_fields h 0). f < 2 ^ 32)"

definition written :: "header \<Rightarrow> string \<Rightarrow> bytes \<Rightarrow> cpio_entry" where
  "written h path data = \<lparr>en_fields = header_fields h (length path + 1), en_name = path, en_data = data\<rparr>"

lemma read_entry_written:
  assumes h: "header_ok h" and p: "length path + 1 < 2 ^ 32" and d: "length data = h_filesize h"
  shows "read_entry (header_Write h path @ data @ replicate (cpio_padding (h_filesize h)) 0 @ rest) = Some (written h path data, rest)"
proof -
  define fs where "fs = header_fields h (length path + 1)"
  define tail where "tail = bytes_of path @ replicate (1 + cpio_padding (6 + length path + 1)) 0 @
    data @ replicate (cpio_padding (h_filesize h)) 0 @ rest"
  define bs where "bs = header_Write h path @ data @ replicate (cpio_padding (h_filesize h)) 0 @ rest"
  let ?g = "\<lambda>n. hex_encode (be_put 4 n)"
  have fs: "length fs = 13" "fs ! 11 = length path + 1" "fs ! 6 = h_filesize h" by (simp_all add: fs_def header_fields_def)
  have magic: "hex_encode magicNewAsciiNoChecksum = bytes_of ''070701''"
    by (simp add: hex_encode_def magicNewAsciiNoChecksum_def digits_def)
  have bs: "bs = bytes_of ''070701'' @ concat (map ?g fs) @ tail"
    using p by (simp add: bs_def header_Write_def Let_def hex_encode_append magic hex_concat fs_def tail_def)
      (simp add: magicNewAsciiNoChecksum_def)
  have small: "\<forall>f \<in> set fs. f < 256 ^ 4" using h p by (auto simp: fs_def header_ok_def header_fields_def)
  have fields: "read_field bs k = Some (fs ! k)" if "k < 13" for k
  proof -
    have "drop (6 + 8 * k) bs = drop (8 * k) (drop 6 bs)" by (simp add: add.commute)
    also have "drop 6 bs = concat (map ?g fs) @ tail" by (simp add: bs bytes_of_def)
    finally have "take 8 (drop (6 + 8 * k) bs) = ?g (fs ! k)"
      using take_drop_concat [of k fs ?g 8 tail] that fs(1) by simp
    moreover have "be_get (be_put 4 (fs ! k)) = fs ! k" using small fs(1) that by (intro be.get_put_id) simp
    ultimately show ?thesis by (simp add: read_field_def parse_hex)
  qed
  have "map (read_field bs) [0..<13] = map Some (map (\<lambda>k. fs ! k) [0..<13])" using fields by simp
  also have "map (\<lambda>k. fs ! k) [0..<13] = fs" using fs(1) by (metis map_nth)
  finally have th: "those (map (read_field bs) [0..<13]) = Some fs" by simp
  have lc: "length (concat (map ?g fs)) = 104" using length_concat_const [of fs ?g 8] fs(1) by simp
  have l6: "length (bytes_of ''070701'') = 6" by simp
  have d110: "drop 110 bs = tail" using lc l6 by (simp add: bs drop_append)
  define body where "body = 110 + (length path + 1) + cpio_padding (110 + (length path + 1))"
  have body: "body = 110 + length (bytes_of path @ replicate (1 + cpio_padding (6 + length path + 1)) (0 :: byte))"
    using padding_header [of "length path + 1"] by (simp add: body_def)
  have dbody: "drop body bs = data @ replicate (cpio_padding (h_filesize h)) 0 @ rest"
    unfolding body drop_drop [symmetric] add.commute [of 110] by (simp add: d110 tail_def)
  have len: "length bs = body + length data + cpio_padding (h_filesize h) + length rest"
    unfolding body using lc l6 by (simp add: bs tail_def)
  have stop: "drop (body + h_filesize h + cpio_padding (h_filesize h)) bs = rest"
    using dbody d by (simp add: add.assoc drop_drop [symmetric] add.commute [of body] flip: drop_drop)
  have ge: "\<not> length bs < 110" "\<not> length bs < body + h_filesize h + cpio_padding (h_filesize h)" using len d by (simp_all add: body_def)
  have t6: "take 6 bs = bytes_of ''070701''" by (simp add: bs bytes_of_def)
  have name: "string_of (take (length path) (drop 110 bs)) = path" by (simp add: d110 tail_def)
  have td: "take (h_filesize h) (drop body bs) = data" using d by (simp add: dbody)
  have "read_entry bs = Some (\<lparr>en_fields = fs, en_name = path, en_data = data\<rparr>, rest)"
    unfolding read_entry_def th option.case Let_def fs(2,3) body_def [symmetric]
    using ge t6 name td stop by simp
  then show ?thesis by (simp add: bs_def written_def fs_def)
qed

text \<open>An archive is the sequence of its entries: header, path and data.\<close>

type_synonym log_entry = "header \<times> string \<times> bytes"

fun entry_bytes :: "log_entry \<Rightarrow> bytes" where
  "entry_bytes (h, path, data) = header_Write h path @ data @ replicate (cpio_padding (h_filesize h)) 0"

fun entry_ok :: "log_entry \<Rightarrow> bool" where
  "entry_ok (h, path, data) \<longleftrightarrow> header_ok h \<and> length path + 1 < 2 ^ 32 \<and> length data = h_filesize h"

definition entry_of :: "log_entry \<Rightarrow> cpio_entry" where
  "entry_of = (\<lambda>(h, path, data). written h path data)"

lemma entry_bytes_nonempty: "entry_bytes e \<noteq> []"
  by (cases e) (simp add: header_Write_def Let_def)

lemma read_archive_log:
  "\<forall>e \<in> set es. entry_ok e \<Longrightarrow> read_archive (concat (map entry_bytes es)) = Some (map entry_of es)"
proof (induction es)
  case Nil
  then show ?case by (simp add: read_archive.simps)
next
  case (Cons e es)
  obtain h path data where e: "e = (h, path, data)" by (metis prod_cases3)
  have "read_entry (concat (map entry_bytes (e # es))) = Some (written h path data, concat (map entry_bytes es))"
    using Cons.prems read_entry_written [of h path data "concat (map entry_bytes es)"] by (simp add: e)
  moreover have "concat (map entry_bytes (e # es)) \<noteq> []" using entry_bytes_nonempty by simp
  ultimately have "read_archive (concat (map entry_bytes (e # es))) =
      map_option (\<lambda>es. written h path data # es) (read_archive (concat (map entry_bytes es)))"
    by (subst read_archive.simps) (simp only: if_False option.case prod.case)
  with Cons show ?case by (simp add: e entry_of_def)
qed

section \<open>Clean relative paths\<close>

text \<open>Clean relative paths are some \<open>..\<close> followed by ordinary names.\<close>

definition rel_clean :: "string list \<Rightarrow> bool" where
  "rel_clean es \<longleftrightarrow> (\<exists>m ns. es = replicate m ''..'' @ ns \<and> (\<forall>n \<in> set ns. normal n))"

lemma rel_clean_snoc: "rel_clean es \<Longrightarrow> normal n \<Longrightarrow> rel_clean (es @ [n])"
proof -
  assume "rel_clean es" "normal n"
  then obtain m ns where "es @ [n] = replicate m ''..'' @ (ns @ [n])" "\<forall>n' \<in> set (ns @ [n]). normal n'"
    by (auto simp: rel_clean_def)
  then show ?thesis unfolding rel_clean_def by blast
qed

lemma rel_clean_dotdot: "rel_clean es \<Longrightarrow> es = [] \<or> last es = ''..'' \<Longrightarrow> rel_clean (es @ [''..''])"
proof -
  assume "rel_clean es" and l: "es = [] \<or> last es = ''..''"
  then obtain m ns where e: "es = replicate m ''..'' @ ns" "\<forall>n \<in> set ns. normal n" by (auto simp: rel_clean_def)
  have "ns = []"
  proof (rule ccontr)
    assume "ns \<noteq> []"
    with e l have "last ns = ''..''" by auto
    moreover have "normal (last ns)" using e(2) \<open>ns \<noteq> []\<close> by (meson last_in_set)
    ultimately show False by (simp add: normal_def)
  qed
  with e have "es @ [''..''] = replicate (Suc m) ''..'' @ []" by (simp add: replicate_append_same)
  then show ?thesis unfolding rel_clean_def by (metis empty_iff empty_set)
qed

lemma rel_clean_take: "rel_clean es \<Longrightarrow> rel_clean (take k es)"
proof -
  assume "rel_clean es"
  then obtain m ns where "es = replicate m ''..'' @ ns" "\<forall>n \<in> set ns. normal n" by (auto simp: rel_clean_def)
  then have "take k es = replicate (min k m) ''..'' @ take (k - m) ns" "\<forall>n \<in> set (take (k - m) ns). normal n"
    by (auto dest: in_set_takeD)
  then show ?thesis unfolding rel_clean_def by blast
qed

lemma rel_clean_parts:
  "rel_clean (rev st) \<Longrightarrow> \<forall>c \<in> set cs. CHR ''/'' \<notin> set c \<Longrightarrow> rel_clean (clean_parts False st cs)"
proof (induction cs arbitrary: st)
  case (Cons c cs)
  have tl: "rel_clean (rev (tl st))"
    using rel_clean_take [OF Cons.prems(1), of "length st - 1"] by (cases st) simp_all
  have up: "rel_clean (rev (''..'' # st))" if "\<not> (st \<noteq> [] \<and> hd st \<noteq> ''..'')"
    using rel_clean_dotdot [OF Cons.prems(1)] that by (cases st) simp_all
  have nm: "rel_clean (rev (c # st))" if "normal c" using rel_clean_snoc [OF Cons.prems(1) that] by simp
  show ?case
    using Cons.IH [OF tl] Cons.IH [OF up] Cons.IH [OF nm] Cons.IH [OF Cons.prems(1)] Cons.prems(2)
    by (auto simp: normal_def)
qed simp

lemma clean_parts_dots: "\<forall>s \<in> set st. s = ''..'' \<Longrightarrow>
   clean_parts False st (replicate m ''..'' @ cs) = clean_parts False (replicate m ''..'' @ st) cs"
proof (induction m arbitrary: st)
  case (Suc m)
  then have "\<not> (st \<noteq> [] \<and> hd st \<noteq> ''..'')" by (cases st) auto
  moreover have "\<forall>s \<in> set (''..'' # st). s = ''..''" using Suc.prems by simp
  ultimately show ?case
    using Suc.IH [of "''..'' # st"] replicate_app_Cons_same [of m "''..''" st] by auto
qed simp

lemma rel_clean_fixed: "rel_clean es \<Longrightarrow> clean_parts False [] es = es"
  by (auto simp: rel_clean_def clean_parts_dots [of "[]"] clean_parts_normal)

lemma rel_clean_member: "rel_clean es \<Longrightarrow> e \<in> set es \<Longrightarrow> e \<noteq> [] \<and> CHR ''/'' \<notin> set e"
proof -
  assume "rel_clean es" "e \<in> set es"
  then have "e = ''..'' \<or> normal e" unfolding rel_clean_def by auto
  then show ?thesis by (elim disjE) (simp_all add: normal_def)
qed

lemma Clean_rel:
  assumes "rel_clean es" "es \<noteq> []"
  shows "Clean (Join_with ''/'' es) = Join_with ''/'' es" "path_parts (Join_with ''/'' es) = es"
    "Join_with ''/'' es \<noteq> []" "hd (Join_with ''/'' es) \<noteq> CHR ''/''"
proof -
  show p: "path_parts (Join_with ''/'' es) = es"
    by (rule path_parts_Join_plain [OF assms(2)]) (use rel_clean_member [OF assms(1)] in blast)
  show ne: "Join_with ''/'' es \<noteq> []" using Join_with_nonempty [of es "''/''"] assms rel_clean_member by blast
  obtain e rest where e: "es = e # rest" using assms(2) by (cases es) auto
  have "e \<noteq> []" "CHR ''/'' \<notin> set e" using rel_clean_member [OF assms(1), of e] e by simp_all
  then have "hd e \<noteq> CHR ''/''" by (metis hd_in_set)
  moreover have "hd (Join_with ''/'' es) = hd e" using \<open>e \<noteq> []\<close> by (cases rest) (simp_all add: e)
  ultimately show h: "hd (Join_with ''/'' es) \<noteq> CHR ''/''" by simp
  show "Clean (Join_with ''/'' es) = Join_with ''/'' es"
    using ne h by (simp add: Clean_def IsAbs_def p rel_clean_fixed [OF assms(1)])
qed

text \<open>A path that names an entry: relative, clean and of ordinary length.\<close>

definition entry_path :: "string \<Rightarrow> bool" where
  "entry_path p \<longleftrightarrow> p \<noteq> [] \<and> hd p \<noteq> CHR ''/'' \<and> Clean p = p \<and> length p + 1 < 2 ^ 32"

lemma length_Join_take: "length (Join_with sep (take k ps)) \<le> length (Join_with sep ps)"
proof (induction sep ps arbitrary: k rule: Join_with.induct)
  case (2 sep p)
  then show ?case by (cases k) simp_all
next
  case (3 sep p q ps)
  show ?case
  proof (cases k)
    case (Suc j)
    with 3 [of j] show ?thesis by (cases j) simp_all
  qed simp
qed simp

lemma parent_dirs_paths:
  assumes "p \<noteq> []" "hd p \<noteq> CHR ''/''" "length (Clean p) + 1 < 2 ^ 32"
  shows "\<forall>d \<in> set (parent_dirs (Clean p)). entry_path d"
proof
  fix d assume "d \<in> set (parent_dirs (Clean p))"
  then obtain i where i: "1 \<le> i" "i < length (path_parts (Clean p))" "d = Join_with ''/'' (take i (path_parts (Clean p)))"
    by (auto simp: parent_dirs_def Let_def)
  define es where "es = clean_parts False [] (path_parts p)"
  have abs: "\<not> IsAbs p" using assms by (simp add: IsAbs_def)
  have es: "rel_clean es" unfolding es_def by (rule rel_clean_parts) (auto simp: rel_clean_def dest: path_parts_no_slash)
  have "es \<noteq> []"
  proof
    assume "es = []"
    then have "Clean p = ''.''" using abs by (simp add: Clean_def es_def)
    with i show False by (simp add: path_parts_def)
  qed
  note c = Clean_rel [OF es this]
  have cp: "Clean p = Join_with ''/'' es" using abs c(3) by (simp add: Clean_def es_def)
  have pp: "path_parts (Clean p) = es" by (simp add: cp c(2))
  have "take i es \<noteq> []" using i pp by (cases es) auto
  note t = Clean_rel [OF rel_clean_take [OF es] this]
  have "length d \<le> length (Clean p)" using length_Join_take [of "''/''" i es] i(3) pp cp by simp
  with t i(3) pp assms(3) show "entry_path d" by (simp add: entry_path_def)
qed
section \<open>Archives as logs\<close>

definition dir_mode :: nat where "dir_mode = or modeDirectory 0x1ED"

definition dir_names :: "log_entry list \<Rightarrow> string set" where
  "dir_names es = {path. \<exists>h data. (h, path, data) \<in> set es \<and> h_mode h = dir_mode}"

definition parents_first :: "log_entry list \<Rightarrow> bool" where
  "parents_first es \<longleftrightarrow> (\<forall>pre h path data post. es = pre @ (h, path, data) # post \<longrightarrow> set (parent_dirs path) \<subseteq> dir_names pre)"

lemma dir_names_append [simp]: "dir_names (xs @ ys) = dir_names xs \<union> dir_names ys"
  by (auto simp: dir_names_def)

lemma parents_first_snoc:
  "parents_first es \<Longrightarrow> set (parent_dirs path) \<subseteq> dir_names es \<Longrightarrow> parents_first (es @ [(h, path, data)])"
  unfolding parents_first_def by (auto simp: append_eq_append_conv2 Cons_eq_append_conv append_eq_Cons_conv) blast

text \<open>
  The archive \<open>a\<close> consists of the entries \<open>es\<close>: they are readable, directories come before what is in
  them, and the directories the archive remembers are there.
\<close>

definition arch_ok :: "archive \<Rightarrow> log_entry list \<Rightarrow> bool" where
  "arch_ok a es \<longleftrightarrow> ar_out a = concat (map entry_bytes es) \<and> (\<forall>e \<in> set es. entry_ok e) \<and> parents_first es \<and>
     set (ar_dirs a) \<subseteq> dir_names es \<and> ar_inode a < 2 ^ 32"

lemma arch_ok_New: "arch_ok cpio_New []"
  by (simp add: arch_ok_def cpio_New_def parents_first_def)

text \<open>What a caller passes to \<open>write\<close>\<close>

definition data_ok :: "bytes option \<Rightarrow> header \<Rightarrow> bool" where
  "data_ok data h \<longleftrightarrow> header_ok h \<and> h_filesize h = (case data of None \<Rightarrow> 0 | Some d \<Rightarrow> length d)"

definition data_of :: "bytes option \<Rightarrow> bytes" where
  "data_of data = (case data of None \<Rightarrow> [] | Some d \<Rightarrow> d)"

lemma header_ok_inode: "header_ok h \<Longrightarrow> i < 2 ^ 32 \<Longrightarrow> header_ok (h\<lparr>h_inode := i\<rparr>)"
  by (auto simp: header_ok_def header_fields_def)

lemma write_entry_ok:
  assumes "arch_ok a es" "data_ok data h" "length path + 1 < 2 ^ 32" "set (parent_dirs path) \<subseteq> dir_names es"
  shows "\<exists>a'. write_entry data path h a = (a', Ok ()) \<and> arch_ok a' (es @ [(h\<lparr>h_inode := ar_inode a\<rparr>, path, data_of data)]) \<and>
    ar_dirs a' = ar_dirs a \<and> ar_copied a' = ar_copied a \<and> ar_linked a' = ar_linked a"
proof -
  have h: "header_ok (h\<lparr>h_inode := ar_inode a\<rparr>)"
    using assms(1,2) by (intro header_ok_inode) (simp_all add: arch_ok_def data_ok_def)
  have "parents_first (es @ [(h\<lparr>h_inode := ar_inode a\<rparr>, path, data_of data)])"
    using assms(1,4) by (intro parents_first_snoc) (simp_all add: arch_ok_def)
  then show ?thesis
    using assms h by (cases data) (auto simp: write_entry_def Let_def arch_ok_def data_ok_def data_of_def cpio_padding_def)
qed

lemma dir_header_ok: "data_ok None (zero_header\<lparr>h_mode := or modeDirectory 0x1ED\<rparr>)"
  by (simp add: data_ok_def header_ok_def header_fields_def zero_header_def modeDirectory_def or_nat_unfold)

lemma cpio_write_ok:
  "arch_ok a es \<Longrightarrow> path \<noteq> [] \<Longrightarrow> hd path \<noteq> CHR ''/'' \<Longrightarrow> length (Clean path) + 1 < 2 ^ 32 \<Longrightarrow> data_ok data h \<Longrightarrow>
   \<exists>a' more i. cpio_write data path h a = (a', Ok ()) \<and> arch_ok a' (es @ more @ [(h\<lparr>h_inode := i\<rparr>, Clean path, data_of data)]) \<and>
     ar_copied a' = ar_copied a \<and> ar_linked a' = ar_linked a"
  "arch_ok a es \<Longrightarrow> \<forall>d \<in> set ds. entry_path d \<Longrightarrow>
   \<exists>a' more. cpio_mkdirs ds a = (a', Ok ()) \<and> arch_ok a' (es @ more) \<and> set ds \<subseteq> dir_names (es @ more) \<and>
     ar_copied a' = ar_copied a \<and> ar_linked a' = ar_linked a"
  "arch_ok a es \<Longrightarrow> entry_path d \<Longrightarrow>
   \<exists>a' more. cpio_mkdir d a = (a', Ok ()) \<and> arch_ok a' (es @ more) \<and> d \<in> dir_names (es @ more) \<and>
     ar_copied a' = ar_copied a \<and> ar_linked a' = ar_linked a"
proof (induction data path h a and ds a and d a arbitrary: es and es and es rule: cpio_write_cpio_mkdirs_cpio_mkdir.induct)
  case (1 data path h a)
  from "1.IH" [OF "1.prems"(2,3,1) parent_dirs_paths [OF "1.prems"(2-4)]] obtain a1 more where
    m: "cpio_mkdirs (parent_dirs (Clean path)) a = (a1, Ok ())" "arch_ok a1 (es @ more)"
      "set (parent_dirs (Clean path)) \<subseteq> dir_names (es @ more)" "ar_copied a1 = ar_copied a" "ar_linked a1 = ar_linked a" by blast
  from write_entry_ok [OF m(2) "1.prems"(5,4) m(3)] m "1.prems" show ?case
    by (auto simp: cpio_write.simps [of data path h a] append_assoc)
next
  case (2 a)
  then show ?case by (auto intro!: exI [of _ "[]"])
next
  case (3 d ds a)
  from "3.IH"(1) [OF "3.prems"(1)] "3.prems"(2) obtain a1 more where
    m: "cpio_mkdir d a = (a1, Ok ())" "arch_ok a1 (es @ more)" "d \<in> dir_names (es @ more)" "ar_copied a1 = ar_copied a" "ar_linked a1 = ar_linked a"
    by auto
  from "3.IH"(2) [OF m(1) [symmetric] refl m(2)] "3.prems"(2) obtain a2 more2 where
    "cpio_mkdirs ds a1 = (a2, Ok ())" "arch_ok a2 ((es @ more) @ more2)" "set ds \<subseteq> dir_names ((es @ more) @ more2)"
    "ar_copied a2 = ar_copied a1" "ar_linked a2 = ar_linked a1" by auto
  with m show ?case by (auto intro!: exI [of _ "more @ more2"])
next
  case (4 path a)
  show ?case
  proof (cases "path \<in> set (ar_dirs a)")
    case True
    with "4.prems" show ?thesis by (auto simp: cpio_mkdir.simps [of path a] arch_ok_def intro!: exI [of _ "[]"])
  next
    case False
    let ?h = "zero_header\<lparr>h_mode := or modeDirectory 0x1ED\<rparr>"
    have p: "path \<noteq> []" "hd path \<noteq> CHR ''/''" "Clean path = path" "length (Clean path) + 1 < 2 ^ 32"
      using "4.prems"(2) by (simp_all add: entry_path_def)
    from "4.IH" [OF False "4.prems"(1) p(1,2,4) dir_header_ok] obtain a' more i where
      w: "cpio_write None path ?h a = (a', Ok ())" "arch_ok a' (es @ more @ [(?h\<lparr>h_inode := i\<rparr>, path, [])])"
        "ar_copied a' = ar_copied a" "ar_linked a' = ar_linked a" by (auto simp: p data_of_def)
    have "path \<in> dir_names (es @ more @ [(?h\<lparr>h_inode := i\<rparr>, path, [])])" by (auto simp: dir_names_def dir_mode_def)
    moreover from this w(2) have "arch_ok (a'\<lparr>ar_dirs := path # ar_dirs a'\<rparr>) (es @ more @ [(?h\<lparr>h_inode := i\<rparr>, path, [])])"
      by (simp add: arch_ok_def)
    ultimately show ?thesis using False w by (auto simp: cpio_mkdir.simps [of path a])
  qed
qed
section \<open>Building an archive\<close>

datatype cpio_op = OpCopy string string | OpLink string string

fun run_cpio_op :: "(string \<Rightarrow> source_file) \<Rightarrow> cpio_op \<Rightarrow> archive \<Rightarrow> archive \<times> (cpio_error, unit) res" where
  "run_cpio_op files (OpCopy src dest) a = cpio_Copy files src dest a"
| "run_cpio_op files (OpLink target linkname) a = cpio_Link target linkname a"

fun cpio_run :: "(string \<Rightarrow> source_file) \<Rightarrow> cpio_op list \<Rightarrow> archive \<Rightarrow> archive \<times> (cpio_error, unit) res" where
  "cpio_run files [] a = cpio_Close a"
| "cpio_run files (op # ops) a =
     (case run_cpio_op files op a of (a, Ok _) \<Rightarrow> cpio_run files ops a | (a, r) \<Rightarrow> (a, r))"

definition dest_ok :: "string \<Rightarrow> bool" where
  "dest_ok p \<longleftrightarrow> p \<noteq> [] \<and> hd p \<noteq> CHR ''/'' \<and> length (Clean p) + 1 < 2 ^ 32"

fun op_ok :: "(string \<Rightarrow> source_file) \<Rightarrow> cpio_op \<Rightarrow> bool" where
  "op_ok files (OpCopy src dest) \<longleftrightarrow>
     (case files src of Regular perm data \<Rightarrow> perm < 2 ^ 9 \<and> length data < 2 ^ 32 | _ \<Rightarrow> False) \<and> dest_ok (copy_dest src dest)"
| "op_ok files (OpLink target linkname) \<longleftrightarrow> length target + 1 < 2 ^ 32 \<and> dest_ok linkname"

definition has_entry :: "log_entry list \<Rightarrow> string \<Rightarrow> nat \<Rightarrow> bytes \<Rightarrow> bool" where
  "has_entry es path mode data \<longleftrightarrow> (\<exists>h. (h, path, data) \<in> set es \<and> h_mode h = mode)"

text \<open>The files and links the archive remembers are in it.\<close>

definition remembered :: "(string \<Rightarrow> source_file) \<Rightarrow> archive \<Rightarrow> log_entry list \<Rightarrow> bool" where
  "remembered files a es \<longleftrightarrow>
     (\<forall>(src, dest) \<in> set (ar_copied a). \<forall>perm data. files src = Regular perm data \<longrightarrow> has_entry es (Clean dest) (or modeRegular perm) data) \<and>
     (\<forall>(target, linkname) \<in> set (ar_linked a). has_entry es (Clean linkname) modeSymlink (bytes_of target @ [0]))"

fun op_stored :: "(string \<Rightarrow> source_file) \<Rightarrow> log_entry list \<Rightarrow> cpio_op \<Rightarrow> bool" where
  "op_stored files es (OpCopy src dest) \<longleftrightarrow>
     (case files src of Regular perm data \<Rightarrow> has_entry es (Clean (copy_dest src dest)) (or modeRegular perm) data | _ \<Rightarrow> False)"
| "op_stored files es (OpLink target linkname) \<longleftrightarrow> has_entry es (Clean linkname) modeSymlink (bytes_of target @ [0])"

lemma has_entry_append: "has_entry es p m d \<Longrightarrow> has_entry (es @ ys) p m d"
  by (auto simp: has_entry_def)

lemma op_stored_append: "op_stored files es op \<Longrightarrow> op_stored files (es @ ys) op"
  by (cases op) (auto simp: has_entry_append split: source_file.splits)

lemma remembered_append:
  "remembered files a es \<Longrightarrow> ar_copied a' = ar_copied a \<Longrightarrow> ar_linked a' = ar_linked a \<Longrightarrow> remembered files a' (es @ ys)"
  unfolding remembered_def by (fastforce intro: has_entry_append)

lemma or_mode_less: "m < 2 ^ 16 \<Longrightarrow> p < 2 ^ 9 \<Longrightarrow> or m p < (2 :: nat) ^ 32"
proof -
  assume "m < 2 ^ 16" "p < 2 ^ 9"
  then have "or (int m) (int p) < 2 ^ 16" by (intro OR_upper) simp_all
  then show ?thesis by (simp flip: of_nat_or_eq)
qed

lemma file_header_ok:
  "perm < 2 ^ 9 \<Longrightarrow> length data < 2 ^ 32 \<Longrightarrow>
   data_ok (Some data) (zero_header\<lparr>h_mode := or modeRegular perm, h_filesize := length data mod 2 ^ 32\<rparr>)"
  "length target + 1 < 2 ^ 32 \<Longrightarrow>
   data_ok (Some (bytes_of target @ [0])) (zero_header\<lparr>h_mode := modeSymlink, h_filesize := (length target + 1) mod 2 ^ 32\<rparr>)"
  using or_mode_less [of modeRegular perm]
  by (simp_all add: data_ok_def header_ok_def header_fields_def zero_header_def modeRegular_def modeSymlink_def)

lemma arch_ok_memo:
  "arch_ok (a\<lparr>ar_copied := c\<rparr>) es = arch_ok a es" "arch_ok (a\<lparr>ar_linked := l\<rparr>) es = arch_ok a es"
  by (simp_all add: arch_ok_def)

lemma cpio_op_ok:
  assumes ok: "arch_ok a es" "remembered files a es" "op_ok files op"
  shows "\<exists>a' more. run_cpio_op files op a = (a', Ok ()) \<and> arch_ok a' (es @ more) \<and> remembered files a' (es @ more) \<and>
    op_stored files (es @ more) op"
proof (cases op)
  case (OpCopy src dest)
  let ?d = "copy_dest src dest"
  obtain perm data where f: "files src = Regular perm data" "perm < 2 ^ 9" "length data < 2 ^ 32" "dest_ok ?d"
    using ok(3) OpCopy by (auto split: source_file.splits)
  show ?thesis
  proof (cases "(src, ?d) \<in> set (ar_copied a)")
    case True
    then have "has_entry es (Clean ?d) (or modeRegular perm) data" using ok(2) f(1) by (auto simp: remembered_def)
    with ok True f(1) OpCopy show ?thesis
      by (auto simp: cpio_Copy_def Let_def intro!: exI [of _ a] exI [of _ "[]"])
  next
    case False
    let ?h = "zero_header\<lparr>h_mode := or modeRegular perm, h_filesize := length data mod 2 ^ 32\<rparr>"
    from cpio_write_ok(1) [OF ok(1) _ _ _ file_header_ok(1) [OF f(2,3)], of ?d] f(4) obtain a' more i where
      w: "cpio_write (Some data) ?d ?h a = (a', Ok ())" "arch_ok a' (es @ more @ [(?h\<lparr>h_inode := i\<rparr>, Clean ?d, data)])"
        "ar_copied a' = ar_copied a" "ar_linked a' = ar_linked a" by (auto simp: dest_ok_def data_of_def)
    let ?es = "es @ more @ [(?h\<lparr>h_inode := i\<rparr>, Clean ?d, data)]"
    have e: "has_entry ?es (Clean ?d) (or modeRegular perm) data" by (auto simp: has_entry_def)
    have "remembered files a' ?es" using remembered_append [OF ok(2) w(3,4)] by simp
    with e f(1) have "remembered files (a'\<lparr>ar_copied := (src, ?d) # ar_copied a'\<rparr>) ?es" by (auto simp: remembered_def)
    moreover have "arch_ok (a'\<lparr>ar_copied := (src, ?d) # ar_copied a'\<rparr>) ?es" using w(2) by (simp only: arch_ok_memo)
    moreover have "cpio_Copy files src dest a = (a'\<lparr>ar_copied := (src, ?d) # ar_copied a'\<rparr>, Ok ())"
      using False f(1) w(1) by (simp add: cpio_Copy_def Let_def)
    ultimately show ?thesis using e f(1) OpCopy by auto
  qed
next
  case (OpLink target linkname)
  have f: "length target + 1 < 2 ^ 32" "dest_ok linkname" using ok(3) OpLink by simp_all
  show ?thesis
  proof (cases "(target, linkname) \<in> set (ar_linked a)")
    case True
    then have "has_entry es (Clean linkname) modeSymlink (bytes_of target @ [0])" using ok(2) by (auto simp: remembered_def)
    with ok True OpLink show ?thesis by (auto simp: cpio_Link_def intro!: exI [of _ a] exI [of _ "[]"])
  next
    case False
    let ?h = "zero_header\<lparr>h_mode := modeSymlink, h_filesize := (length target + 1) mod 2 ^ 32\<rparr>" and ?data = "bytes_of target @ [0]"
    from cpio_write_ok(1) [OF ok(1) _ _ _ file_header_ok(2) [OF f(1)], of linkname] f(2) obtain a' more i where
      w: "cpio_write (Some ?data) linkname ?h a = (a', Ok ())" "arch_ok a' (es @ more @ [(?h\<lparr>h_inode := i\<rparr>, Clean linkname, ?data)])"
        "ar_copied a' = ar_copied a" "ar_linked a' = ar_linked a" by (auto simp: dest_ok_def data_of_def)
    let ?es = "es @ more @ [(?h\<lparr>h_inode := i\<rparr>, Clean linkname, ?data)]"
    have e: "has_entry ?es (Clean linkname) modeSymlink ?data" by (auto simp: has_entry_def)
    have "remembered files a' ?es" using remembered_append [OF ok(2) w(3,4)] by simp
    with e have "remembered files (a'\<lparr>ar_linked := (target, linkname) # ar_linked a'\<rparr>) ?es" by (auto simp: remembered_def)
    moreover have "arch_ok (a'\<lparr>ar_linked := (target, linkname) # ar_linked a'\<rparr>) ?es" using w(2) by (simp only: arch_ok_memo)
    moreover have "cpio_Link target linkname a = (a'\<lparr>ar_linked := (target, linkname) # ar_linked a'\<rparr>, Ok ())"
      using False w(1) by (simp add: cpio_Link_def)
    ultimately show ?thesis using e OpLink by auto
  qed
qed

lemma cpio_run_ok:
  "arch_ok a es \<Longrightarrow> remembered files a es \<Longrightarrow> \<forall>op \<in> set ops. op_ok files op \<Longrightarrow>
   \<exists>a' more h. cpio_run files ops a = (a', Ok ()) \<and> arch_ok a' (es @ more @ [(h, ''TRAILER!!!'', [])]) \<and>
     (\<forall>op \<in> set ops. op_stored files (es @ more) op)"
proof (induction ops arbitrary: a es)
  case Nil
  have "Clean ''TRAILER!!!'' = ''TRAILER!!!''" by code_simp
  moreover have "data_ok None zero_header" by (simp add: data_ok_def header_ok_def header_fields_def zero_header_def)
  ultimately show ?case
    using cpio_write_ok(1) [OF Nil.prems(1), of "''TRAILER!!!''" None zero_header] by (auto simp: cpio_Close_def data_of_def)
next
  case (Cons op ops)
  from cpio_op_ok [OF Cons.prems(1,2), of op] Cons.prems(3) obtain a1 more where
    o1: "run_cpio_op files op a = (a1, Ok ())" "arch_ok a1 (es @ more)" "remembered files a1 (es @ more)" "op_stored files (es @ more) op"
    by auto
  from Cons.IH [OF o1(2,3)] Cons.prems(3) obtain a2 more2 h where
    "cpio_run files ops a1 = (a2, Ok ())" "arch_ok a2 ((es @ more) @ more2 @ [(h, ''TRAILER!!!'', [])])"
    "\<forall>op \<in> set ops. op_stored files ((es @ more) @ more2) op" by auto
  moreover have "op_stored files ((es @ more) @ more2) op" by (rule op_stored_append [OF o1(4)])
  ultimately show ?case using o1(1) by (auto intro!: exI [of _ "more @ more2"])
qed

section \<open>Properties\<close>

text \<open>The entry a reader finds for an operation, and the order a reader needs.\<close>

definition found :: "cpio_entry list \<Rightarrow> string \<Rightarrow> nat \<Rightarrow> bytes \<Rightarrow> bool" where
  "found es path mode data \<longleftrightarrow> (\<exists>e \<in> set es. en_name e = path \<and> en_fields e ! 1 = mode \<and> en_data e = data)"

fun op_found :: "(string \<Rightarrow> source_file) \<Rightarrow> cpio_entry list \<Rightarrow> cpio_op \<Rightarrow> bool" where
  "op_found files es (OpCopy src dest) \<longleftrightarrow>
     (case files src of Regular perm data \<Rightarrow> found es (Clean (copy_dest src dest)) (or modeRegular perm) data | _ \<Rightarrow> False)"
| "op_found files es (OpLink target linkname) \<longleftrightarrow> found es (Clean linkname) modeSymlink (bytes_of target @ [0])"

definition unpackable :: "cpio_entry list \<Rightarrow> bool" where
  "unpackable es \<longleftrightarrow> (\<forall>i < length es. \<forall>d \<in> set (parent_dirs (en_name (es ! i))).
     \<exists>j < i. en_name (es ! j) = d \<and> en_fields (es ! j) ! 1 = dir_mode)"

lemma entry_of_sel [simp]:
  "en_name (entry_of (h, path, data)) = path" "en_data (entry_of (h, path, data)) = data" "en_fields (entry_of (h, path, data)) ! 1 = h_mode h"
  "en_fields (entry_of (h, path, data)) ! Suc 0 = h_mode h"
  by (simp_all add: entry_of_def written_def header_fields_def)

lemma found_entry: "has_entry es path mode data \<Longrightarrow> found (map entry_of es) path mode data"
  by (force simp: has_entry_def found_def)

lemma op_found_stored: "op_stored files es op \<Longrightarrow> op_found files (map entry_of es) op"
  by (cases op) (auto simp: found_entry split: source_file.splits)

lemma unpackable_log: "parents_first es \<Longrightarrow> unpackable (map entry_of es)"
  unfolding unpackable_def
proof (intro allI impI ballI)
  fix i d
  assume p: "parents_first es" and i: "i < length (map entry_of es)" and d: "d \<in> set (parent_dirs (en_name (map entry_of es ! i)))"
  obtain h path data where e: "es ! i = (h, path, data)" by (metis prod_cases3)
  have "es = take i es @ (h, path, data) # drop (Suc i) es" using i e id_take_nth_drop [of i es] by simp
  then have "set (parent_dirs path) \<subseteq> dir_names (take i es)" using p unfolding parents_first_def by blast
  then have "d \<in> dir_names (take i es)" using d i e by auto
  then obtain h' data' where "(h', d, data') \<in> set (take i es)" "h_mode h' = dir_mode" by (auto simp: dir_names_def)
  then obtain j where "j < i" "es ! j = (h', d, data')" using i by (auto simp: in_set_conv_nth)
  with i \<open>h_mode h' = dir_mode\<close> show "\<exists>j < i. en_name (map entry_of es ! j) = d \<and> en_fields (map entry_of es ! j) ! 1 = dir_mode" by auto
qed

text \<open>
  C8. An archive is read back: for files of less than 4 GiB and relative paths, every \<open>Copy\<close> and \<open>Link\<close>
  and the final \<open>Close\<close> succeed, and a reader of the format finds a sequence of entries that ends with the
  trailer, holds every file and link with its path, mode and data, and has every directory before
  what is in it.
\<close>

theorem archive_roundtrip:
  assumes "\<forall>op \<in> set ops. op_ok files op"
  shows "\<exists>a es t. cpio_run files ops cpio_New = (a, Ok ()) \<and> read_archive (ar_out a) = Some (es @ [t]) \<and>
    en_name t = ''TRAILER!!!'' \<and> unpackable (es @ [t]) \<and> (\<forall>op \<in> set ops. op_found files es op)"
proof -
  have "remembered files cpio_New []" by (simp add: remembered_def cpio_New_def)
  from cpio_run_ok [OF arch_ok_New this assms] obtain a es h where
    a: "cpio_run files ops cpio_New = (a, Ok ())" "arch_ok a (es @ [(h, ''TRAILER!!!'', [])])" "\<forall>op \<in> set ops. op_stored files es op" by auto
  let ?log = "es @ [(h, ''TRAILER!!!'', [])]"
  have "read_archive (ar_out a) = Some (map entry_of ?log)"
    using read_archive_log [of ?log] a(2) by (simp add: arch_ok_def)
  moreover have "unpackable (map entry_of ?log)" using a(2) by (intro unpackable_log) (simp add: arch_ok_def)
  ultimately show ?thesis
    using a(1,3) op_found_stored
    by (intro exI [of _ a] exI [of _ "map entry_of es"] exI [of _ "entry_of (h, ''TRAILER!!!'', [])"]) auto
qed

theorem archive_roundtrip_witness:
  "\<exists>a es t. cpio_run (\<lambda>_. Regular 0x1ED [1, 2, 3]) [OpCopy ''/bin/sh'' ''/bin/sh'', OpLink ''bin'' ''usr/bin''] cpio_New = (a, Ok ()) \<and>
    read_archive (ar_out a) = Some (es @ [t]) \<and> en_name t = ''TRAILER!!!'' \<and> unpackable (es @ [t]) \<and>
    found es ''bin/sh'' 0x81ED [1, 2, 3]"
proof -
  let ?files = "\<lambda>_ :: string. Regular 0x1ED [1, 2, 3]" and ?ops = "[OpCopy ''/bin/sh'' ''/bin/sh'', OpLink ''bin'' ''usr/bin'']"
  have c: "Clean ''bin/sh'' = ''bin/sh''" "Clean ''usr/bin'' = ''usr/bin''" by code_simp+
  have m: "or modeRegular 0x1ED = 0x81ED" by (simp add: modeRegular_def or_nat_unfold)
  have "\<forall>op \<in> set ?ops. op_ok ?files op" by (simp add: dest_ok_def copy_dest_def c)
  from archive_roundtrip [OF this] show ?thesis by (auto simp: copy_dest_def c m)
qed

end
