(* ===== verification/Spec2Isabelle.thy ===== *)
theory Spec2Isabelle
  imports Bytepack Cache ConnQueue Transmit Verity Secretctl Daemon Cpio
begin

text \<open>
  A verification library for the Go repository \<open>sio/pond\<close>: the secrets server and its tools
  (\<open>src/secrets\<close>), the network block device server over an S3 cache (\<open>src/nbd\<close>), the archive writer of
  the initramfs builder (\<open>src/initramfs/cpio\<close>) and the serialization library \<open>src/lib/bytepack\<close>.

  \<^bold>\<open>How the parts interact.\<close>  An administrator creates a repository (\<open>secretctl init\<close>), issues
  certificates (\<open>secretctl cert\<close>) and stores encrypted, signed values (\<open>secretctl set\<close>) as files.
  \<open>secretd\<close> loads the certificates into an access control list and answers requests over SSH by
  searching the repository and decrypting with the master key.  The NBD daemon exports S3 objects: a
  connection negotiates an export, and its reads go to a cache that fetches chunks of the object into
  a local file, limited by a queue of connections and checked in the background against dm-verity
  hashes.

  \<^bold>\<open>Conventions.\<close>  A call that may fail or panic returns \<open>('e, 'a) res\<close> with the constructors \<open>Ok\<close>,
  \<open>Err\<close> and \<open>Panic\<close>; every early return of the source is a branch.  State is passed explicitly, as
  records; concurrent code is an inductive step relation whose steps are what one goroutine does
  between two points at which others can act, and \<open>reach\<close> are the states of all interleavings.  Bytes
  are \<open>8 word\<close>; Go's \<open>int64\<close> is \<open>int\<close> with the wrap-around written out where the code can overflow.
  Random bytes, clocks and the answers of external packages are arguments.

  \<^bold>\<open>The theories.\<close>
  \<^item> \<open>Prelude\<close>: results, loops over lists (\<open>each\<close>, \<open>collect\<close>), machine integers, reachability and the
    locale \<open>invariant_system\<close>.  \<open>Binary\<close>: \<open>encoding/binary\<close> in both byte orders, with the locale
    \<open>byte_order\<close>.  \<open>GoLib\<close>: \<open>strings\<close>, \<open>strconv\<close>, \<open>path/filepath\<close> and a file system of files and
    directories by clean absolute path.  \<open>GoText\<close>: base64, RFC 3339 and the line scanner.
  \<^item> \<open>Bytepack\<close> (\<open>src/lib/bytepack\<close>): \<open>Pack\<close>, \<open>Wrap\<close>, \<open>pack_Unpack\<close> over UTF-8 encoded lengths.  The
    round trip, the absence of panics, and that every element of an accepted pack is within bounds.
  \<^item> \<open>Access\<close> (\<open>src/secrets/access\<close>): certificates, delegation, and the access control list as the list
    of the rows of the SQL table.  After loading, every row is backed by a chain of certificates that
    leads to the master key; \<open>Check\<close> decides exactly by the valid rows that match the directory as a
    pattern.
  \<^item> \<open>Master\<close> and \<open>Value\<close> (\<open>src/secrets/master\<close>, \<open>src/secrets/value\<close>, \<open>src/secrets/util\<close>): key
    derivation, boxes, values, their signatures and their files.  Encryption and serialization are
    inverted by decryption and parsing.
  \<^item> \<open>Repo\<close> (\<open>src/secrets/repo\<close>): opening, creating, saving, searching.  The nested loops of \<open>Search\<close>
    equal a reference, which reaches one level above an allowed directory; saving a certificate
    terminates and never overwrites; saving a value is confined to the repository.
  \<^item> \<open>Server\<close> (\<open>src/secrets/server\<close>, \<open>src/secrets/util/duration.go\<close>) and \<open>Secretctl\<close>
    (\<open>src/secrets/cmd/secretctl\<close>): start-up, authentication, the API and the three commands.  This
    theory composes them: what \<open>secretctl set\<close> stores is what the server answers.
  \<^item> \<open>Chunkmap\<close>, \<open>Cache\<close>, \<open>ConnQueue\<close> (\<open>src/nbd/s3\<close>): the bitmap of fetched chunks with its file and its
    waiters, the fetches and reads of the cache, and the connection queue.  In every reachable state,
    across restarts, a chunk marked as done holds the object's bytes; the queue keeps its limit.  The
    two background tasks are functions of the events that happen to them.
  \<^item> \<open>Negotiate\<close>, \<open>Transmit\<close>, \<open>NbdServer\<close> (\<open>src/nbd/server\<close>, \<open>src/nbd/buffer\<close>): handshake, options,
    the receiver goroutine and the main loop, the connection, the accept loop and the shutdown.  A
    connection refines reading the remote object for reads that start at multiples of the buffer's
    size: the locale \<open>block_reader\<close> is the contract of a backend, and the cache is its instance.
  \<^item> \<open>Verity\<close> (\<open>src/nbd/verity\<close>): locating and checking the leaf hashes.
  \<^item> \<open>Daemon\<close> (\<open>src/nbd/daemon\<close>, and the opening of a cache in \<open>src/nbd/s3\<close>): the lock file by system
    calls, and the exports.
  \<^item> \<open>Cpio\<close> (\<open>src/initramfs/cpio\<close>): the writer, and a reader of the format as \<open>cpio(5)\<close> describes it,
    which reads back what was added.

  \<^bold>\<open>Behaviour that differs from the intention.\<close>  Some theorems state what the code does against its
  purpose: lengths that cannot be packed, reads across chunks that return data never fetched, tokens
  of the queue lost by cancellation until it blocks for good, a background scrub that stops after the
  first chunk, an export name that panics the server, reads without a reply, write payloads executed
  as commands, directories taken for patterns, secrets above the parent of an allowed directory that
  are not found, names that leave the allowed directory of a reader, and a lock that two processes
  hold.

  \<^bold>\<open>Fuel.\<close>  Four loops that may run forever have a bound as argument and return \<open>None\<close> when it is used
  up.  \<open>findRoot\<close> ends with more steps than the path has elements; \<open>free_name\<close> with one step more than
  there are entries in the file system; the reads of one request within \<open>32 * (length + 1)\<close> rounds,
  since a round without progress counts towards the limit of errors; the layers of a hash tree with
  more steps than there are data blocks, when a hash block holds at least two hashes.  The theorems
  about them prove that this much is enough.  All other loops are total functions, with their
  termination proved.

  \<^bold>\<open>Parameters.\<close>  \<open>golang.org/x/crypto\<close> is the record \<open>crypto\<close>, with \<open>box_law\<close>, \<open>signer_ok\<close> and the
  other laws as hypotheses where a theorem needs them; SQLite's \<open>GLOB\<close> is the locale \<open>glob_engine\<close>,
  interpreted by a matcher; \<open>filepath.Glob\<close>, SHA-256, the S3 client, ssh-agent and the clock are
  functions.  Every theorem with such a hypothesis is followed by an instance that satisfies it.

  \<^bold>\<open>Not modelled.\<close>  Deadlines and cancellation by contexts other than in the connection queue and
  the background tasks, failing writes to a client, permissions and symbolic links of the file system, log messages, flag parsing
  and the entry points; the connection to ssh-agent, the init process with the module loader, the
  library scanner and the image builder of \<open>src/initramfs\<close>, \<open>src/metal-id\<close>, \<open>src/lib/sandbox\<close>,
  \<open>src/lib/block\<close> and \<open>src/rootfs\<close>: calls of the operating system and of external packages, or
  programs of their own that the modelled parts do not call.
\<close>

section \<open>From secretctl set to the server's answer\<close>

text \<open>
  C1. What an administrator stores is what the server serves: when \<open>secretctl set\<close> has succeeded for a
  secret, a server that is then started on the repository answers a request for the secret's name
  with the plaintext and no error, to every client whose first allowed directory is the secret's.
  The encryption, the keys of ssh-agent and the random bytes are as their packages document; the
  path fits into a line of the file and the times are between the years 0 and 9999.
\<close>

theorem set_secret_is_served:
  assumes "box_law x" "\<forall>k sg. h_agent h k = Some sg \<longrightarrow> signer_ok x sg"
    and "length (rn_nonce rn) = 24" "length (rn_padding rn) = 1 + paddingMaxBytes" "length (rn_sig rn) = sigNonceBytes"
      "length plaintext \<le> MaxValueBytes"
    and "repo_Open (h_fuel h) (h_cwd h) fs ''.'' = Some (Ok r)" "repo_ok rs r" "\<forall>c \<in> set ds. normal c" "normal n"
    and "field_ok (abs_path (ds @ [n]))" "year_ok (unix (h_now h))" "year_ok (unix (h_now h + lifetime))"
    and "secretctl_set x h rn (abs_path (ds @ [n])) plaintext lifetime fs = Some (fs', Ok out)"
    and "server_New x h' fs' scheme host path repository = Some (Ok s)" "sv_repo s = r"
    and "AllowedRead (x_Fingerprint x) now (sv_acl s) client = (abs_path ds @ ''/'') # dirs"
  shows "handleAPI x now fs' (sv_repo s) (sv_acl s) (sv_master s) client (Query [n]) =
    Ok \<lparr>rs_Secrets = [(n, plaintext)], rs_Errors = []\<rparr>"
proof -
  obtain v where v: "prepare_value x h rn fs r (abs_path (ds @ [n])) plaintext lifetime = Ok v" "saveValue x r v fs = (fs', Ok out)"
    using secretctl_set_Ok [OF assms(14)] assms(7) by (metis option.inject res.inject(1))
  from v(1) obtain master key sg v0 v1 where p: "master_LoadCertificate x fs (MasterCert r) = Ok master" "h_agent h key = Some sg"
    "v_Path v0 = [abs_path (ds @ [n])]" "Encrypt x (rn_nonce rn) (rn_seed rn) (rn_padding rn) master plaintext v0 = Ok v1"
    "value_Sign (rn_sig rn) (rn_signer rn) sg v1 = Ok v" "v_Created v0 = unix (h_now h)" "v_Expires v0 = unix (h_now h + lifetime)"
    by (rule prepare_value_Ok)
  obtain c sg' where k: "master_LoadCertificate x fs' (MasterCert r) = Ok c" "NewKey x sg' c = Ok (sv_master s)"
    using server_New_Ok [OF assms(15)] assms(16) by metis
  have sg: "signer_ok x sg" using assms(2) p(2) by blast
  have y: "year_ok (v_Created v0)" "year_ok (v_Expires v0)" using assms(12,13) p(6,7) by simp_all
  have served: "handleAPI x now fs' r (sv_acl s) (sv_master s) client (Query [n]) = Ok \<lparr>rs_Secrets = [(n, plaintext)], rs_Errors = []\<rparr>"
    if "NewKey x sg' master = Ok (sv_master s)"
    by (rule saved_secret_served(1) [OF assms(1) sg assms(3-6,8-10) p(3) assms(11) y that p(4,5) v(2) assms(17)])
  have "lookup fs' (MasterCert r) = Some (File d)" if "lookup fs (MasterCert r) = Some (File d)" for d
    by (rule saveValue_keeps_files [OF assms(8-10) _ v(2) that MasterCert_not_secret [OF assms(8-10)]])
      (use p(3) Encrypt_Path [OF p(4)] sg Verify_Sign(2) [of x, OF _ assms(5) p(5)] in \<open>simp add: signer_ok_def\<close>)
  then have "c = master" using master_LoadCertificate_file [OF p(1), of fs'] k(1) by simp
  with k(2) served assms(16) show ?thesis by simp
qed

theorem set_secret_is_served_witness:
  "\<exists>tx. secretctl_set e2e_crypto e2e_host e2e_rand ''/srv/k'' [1, 2, 3] 0 e2e_fs = Some (e2e_saved tx, Ok ''/r/secrets/srv/k.x'') \<and>
    server_New e2e_crypto e2e_host (e2e_saved tx) ''ssh'' ''h:22'' [] ''.'' = Some (Ok e2e_server) \<and>
    handleAPI e2e_crypto 100 (e2e_saved tx) (sv_repo e2e_server) (sv_acl e2e_server) (sv_master e2e_server) demo_user (Query [''k'']) =
      Ok \<lparr>rs_Secrets = [(''k'', [1, 2, 3])], rs_Errors = []\<rparr>"
proof -
  from e2e_set obtain tx where s: "secretctl_set e2e_crypto e2e_host e2e_rand ''/srv/k'' [1, 2, 3] 0 e2e_fs =
    Some (e2e_saved tx, Ok ''/r/secrets/srv/k.x'')" by blast
  have h: "\<forall>k sg. h_agent e2e_host k = Some sg \<longrightarrow> signer_ok e2e_crypto sg"
    using e2e_laws(2,3) by (simp add: e2e_fields)
  have p: "abs_path ([''srv''] @ [''k'']) = ''/srv/k''" "abs_path [''srv''] = ''/srv''" by (simp_all add: abs_path_def)
  have "handleAPI e2e_crypto 100 (e2e_saved tx) (sv_repo e2e_server) (sv_acl e2e_server) (sv_master e2e_server) demo_user (Query [''k'']) =
      Ok \<lparr>rs_Secrets = [(''k'', [1, 2, 3])], rs_Errors = []\<rparr>"
    by (rule set_secret_is_served [where rs = "[''r'']" and ds = "[''srv'']" and dirs = "[]" and h = e2e_host and rn = e2e_rand and
          fs = e2e_fs and r = e2e_repo and lifetime = 0, OF e2e_laws(1) h _ _ _ _ _ _ _ _ _ _ _ _ e2e_New])
      (use s e2e_open [of e2e_fs] e2e_allowed e2e_year in \<open>simp_all add: p e2e_fields e2e_rand_def e2e_server_def paddingMaxBytes_def
        sigNonceBytes_def MaxValueBytes_def repo_ok_def normal_def field_ok_def blanks_def newline_def abs_path_def\<close>)
  with s e2e_New show ?thesis by blast
qed

end
